(* ===== verification/Prelude.thy ===== *)
theory Prelude
  imports Main "HOL-Library.Word" "HOL-Library.Monad_Syntax"
begin

text \<open>
  Shared vocabulary of the development: the C integer types as words, byte-addressed
  memory, the collections of rewrite rules the component proofs use, and the generic
  lemmas on words, lists and options that more than one component needs.
\<close>

unbundle bit_operations_syntax

type_synonym u8 = "8 word"
type_synonym u32 = "32 word"
type_synonym u64 = "64 word"

text \<open>Byte-addressed memory; \<^verbatim>\<open>char\<close> is an unsigned byte on AArch64.\<close>

type_synonym mem = "u64 \<Rightarrow> u8"

text \<open>
  \<open>loop_word\<close> collects the facts a counting loop over words needs (the counter does
  not wrap below its bound), \<open>frame_simps\<close> the facts that an operation leaves some
  part of the state unchanged.
\<close>

named_theorems loop_word "counters of loops over words"
named_theorems frame_simps "what an operation leaves unchanged"

subsection \<open>Words\<close>

lemma unat_Suc_less [loop_word]:
  "i < n \<Longrightarrow> unat (i + 1) = Suc (unat i)" for i n :: "'a::len word"
  by unat_arith

lemma word_Suc_le [loop_word]:
  "i < n \<Longrightarrow> i + 1 \<le> n" for i n :: "'a::len word"
  by unat_arith

lemma word_le_cases_Suc [loop_word]:
  "i < n \<Longrightarrow> i \<le> k \<longleftrightarrow> k = i \<or> i + 1 \<le> k" for i n k :: "'a::len word"
  by unat_arith

lemma loop_measure:
  "i < n \<Longrightarrow> unat n - unat (i + 1) < unat n - unat i" for i n :: "'a::len word"
  by unat_arith

lemma countdown_measure: "n \<noteq> 0 \<Longrightarrow> unat (n - 1) < unat n" for n :: "'a::len word"
  by unat_arith

lemma less_not_minus_one: "r < s \<Longrightarrow> r \<noteq> - 1" for r s :: "'a::len word"
  using word_n1_ge [of s] by (auto simp: not_less [symmetric])

lemma less_Suc_word [loop_word]: "x \<noteq> - 1 \<Longrightarrow> x < x + 1" for x :: "'a::len word"
  by (metis lessI unat_Suc_less word_less_nat_alt word_order.not_eq_extremum)

lemma word_sub_less: "0 < c \<Longrightarrow> c \<le> s \<Longrightarrow> s - c < s" for c s :: "'a::len word"
  by unat_arith

lemma word_le_wrapped_sub: "s < c \<Longrightarrow> s \<le> s - c" for c s :: "'a::len word"
  by unat_arith

lemma unat_image_less: "unat ` {i. i < n} = {..<unat n}" for n :: "'a::len word"
proof
  show "{..<unat n} \<subseteq> unat ` {i. i < n}"
  proof
    fix k assume "k \<in> {..<unat n}"
    then have "k < unat n" by simp
    moreover from this have "unat (word_of_nat k :: 'a word) = k"
      by (simp add: unat_of_nat less_trans [OF _ unsigned_less [of n]])
    ultimately show "k \<in> unat ` {i. i < n}"
      by (intro image_eqI [of _ _ "word_of_nat k"]) (simp_all add: word_less_nat_alt)
  qed
qed (auto simp: word_less_nat_alt)

lemma card_word_less: "card {i. i < n} = unat n" for n :: "'a::len word"
proof -
  have "inj_on unat {i. i < n}" by (rule inj_onI) (simp add: word_unat_eq_iff)
  from card_image [OF this] show ?thesis by (simp add: unat_image_less)
qed

lemma word_div_mod_eq_iff:
  "(i div k = j div k \<and> i mod k = j mod k) \<longleftrightarrow> i = j" for i j k :: "'a::len word"
  by (metis div_mult_mod_eq)

lemma bit_or_single:
  "k < LENGTH('a) \<Longrightarrow> bit (w OR 2 ^ k) j \<longleftrightarrow> bit w j \<or> j = k" for w :: "'a::len word"
  by (auto simp: bit_simps)

lemma bit_and_not_single:
  "k < LENGTH('a) \<Longrightarrow> bit (w AND NOT (2 ^ k)) j \<longleftrightarrow> bit w j \<and> j \<noteq> k" for w :: "'a::len word"
  by (auto simp: bit_simps bit_imp_le_length)

lemma and_single_eq_0_iff:
  "k < LENGTH('a) \<Longrightarrow> w AND 2 ^ k = 0 \<longleftrightarrow> \<not> bit w k" for w :: "'a::len word"
  by (simp add: and_exp_eq_0_iff_not_bit)


text \<open>A C \<^verbatim>\<open>int\<close> that is not negative: signed and unsigned operations agree.\<close>

lemma not_bit_small: "unat w < 2 ^ k \<Longrightarrow> k \<le> n \<Longrightarrow> \<not> bit w n" for w :: "'a::len word"
proof -
  assume "unat w < 2 ^ k" "k \<le> n"
  then have "unat w < 2 ^ n" using power_increasing [of k n "2 :: nat"] by linarith
  then have "\<not> bit (unat w) n" by (simp add: bit_iff_odd)
  then show "\<not> bit w n" by (simp add: bit_unsigned_iff)
qed

lemma signed_drop_bit_small: "unat w < 2 ^ 31 \<Longrightarrow> signed_drop_bit k w = drop_bit k w" for w :: u32
  using not_bit_small [of w 31] by (intro bit_word_eqI) (auto simp: bit_simps)

lemma scast_small: "unat w < 2 ^ 31 \<Longrightarrow> (scast w :: u64) = ucast w" for w :: u32
  using not_bit_small [of w 31]
  by (intro bit_word_eqI) (auto simp: bit_simps min_def dest: bit_imp_le_length)

lemma unat_ucast_64: "unat (ucast w :: u64) = unat w" for w :: u32
proof -
  have "unat w < 2 ^ 32" using unsigned_less [of w] by simp
  then show ?thesis by (simp add: unsigned_ucast_eq take_bit_eq_mod)
qed

lemma scast_nat: "n < 2 ^ 31 \<Longrightarrow> (scast (word_of_nat n :: u32) :: u64) = word_of_nat n"
  by (simp add: scast_small unat_of_nat)
     (simp add: word_unat_eq_iff unsigned_ucast_eq unsigned_of_nat take_bit_eq_mod)


subsection \<open>Bit fields\<close>

text \<open>The value of the C bit field of the given width that starts at bit \<open>lo\<close>.\<close>

definition bitfield :: "nat \<Rightarrow> nat \<Rightarrow> 'a::len word \<Rightarrow> 'a word" where
  "bitfield lo width x = take_bit width (drop_bit lo x)"

text \<open>Storing a value in such a field leaves the other bits as they are.\<close>

definition set_bitfield :: "nat \<Rightarrow> nat \<Rightarrow> 'a::len word \<Rightarrow> 'a word \<Rightarrow> 'a word" where
  "set_bitfield lo width v x = (x AND NOT (push_bit lo (mask width))) OR push_bit lo (take_bit width v)"

lemma bit_bitfield: "bit (bitfield lo width x) n \<longleftrightarrow> n < width \<and> bit x (lo + n)"
  by (auto simp: bitfield_def bit_simps)

lemma bit_set_bitfield:
  "bit (set_bitfield lo width v x) n \<longleftrightarrow>
     (if lo \<le> n \<and> n < lo + width then n < LENGTH('a) \<and> bit v (n - lo) else bit x n)"
  for x v :: "'a::len word"
  by (auto simp: set_bitfield_def bit_simps dest: bit_imp_le_length)

lemma unat_bitfield_less: "unat (bitfield lo width x) < 2 ^ width"
  by (simp add: bitfield_def unsigned_take_bit_eq)

text \<open>Signed addition that does not overflow.\<close>

lemma sint_add_int:
  "- (2 ^ 31) \<le> sint w + k \<Longrightarrow> sint w + k < 2 ^ 31 \<Longrightarrow> sint (w + word_of_int k) = sint w + k" for w :: u32
proof -
  assume a: "- (2 ^ 31) \<le> sint w + k" "sint w + k < 2 ^ 31"
  have "w + word_of_int k = word_of_int (sint w + k)" by simp
  then have "sint (w + word_of_int k) = signed_take_bit 31 (sint w + k)"
    by (simp only: sint_sbintrunc') simp
  then show ?thesis using a by (simp add: signed_take_bit_int_eq_self)
qed

lemma sint_32_bounds: "- (2 ^ 31) \<le> sint w" "sint w < 2 ^ 31" for w :: u32
  using sint_ge [of w] sint_lt [of w] by simp_all

lemma of_nat_eq_64: "i < 2 ^ 64 \<Longrightarrow> j < 2 ^ 64 \<Longrightarrow> (of_nat i :: u64) = of_nat j \<longleftrightarrow> i = j"
  by (simp add: word_unat_eq_iff unat_of_nat)

end
