(* ===== verification/Bitmap.thy ===== *)
theory Bitmap
  imports Prelude
begin

text \<open>
  The page bitmap of \<^verbatim>\<open>mem/bitmap.c\<close>. A \<^verbatim>\<open>bitmap_t\<close> is a pointer to its bytes and a
  size in bits; the bytes live in byte-addressed memory, so every operation takes and
  returns the memory. The abstract state is the set of allocated bit indices.
\<close>

subsection \<open>Model\<close>

record bitmap_t =
  bits :: u64
  bm_size :: u64

definition PAGE_SIZE :: u64 where
  "PAGE_SIZE = 4096"

text \<open>\<^verbatim>\<open>for (i = 0; i < (size + 7) / 8; i++) buffer[i] = 0\<close>, from index \<open>i\<close>.\<close>

function bitmap_init_loop :: "mem \<Rightarrow> u64 \<Rightarrow> u64 \<Rightarrow> u64 \<Rightarrow> mem" where
  "bitmap_init_loop m buffer i n =
     (if i < n then bitmap_init_loop (m(buffer + i := 0)) buffer (i + 1) n else m)"
  by pat_completeness auto
termination
  by (relation "measure (\<lambda>(m, buffer, i, n). unat n - unat i)") (auto simp: loop_measure)

declare bitmap_init_loop.simps [simp del]

definition bitmap_init :: "mem \<Rightarrow> u64 \<Rightarrow> u64 \<Rightarrow> mem \<times> bitmap_t" where
  "bitmap_init m buffer sz =
     (bitmap_init_loop m buffer 0 ((sz + 7) div 8), \<lparr>bits = buffer, bm_size = sz\<rparr>)"

definition bitmap_set :: "mem \<Rightarrow> bitmap_t \<Rightarrow> u64 \<Rightarrow> mem" where
  "bitmap_set m b index =
     (if index < bm_size b
      then m(bits b + index div 8 :=
               m (bits b + index div 8) OR push_bit (unat (index mod 8)) 1)
      else m)"

definition bitmap_clear :: "mem \<Rightarrow> bitmap_t \<Rightarrow> u64 \<Rightarrow> mem" where
  "bitmap_clear m b index =
     (if index < bm_size b
      then m(bits b + index div 8 :=
               m (bits b + index div 8) AND NOT (push_bit (unat (index mod 8)) 1))
      else m)"

definition bitmap_test :: "mem \<Rightarrow> bitmap_t \<Rightarrow> u64 \<Rightarrow> u8" where
  "bitmap_test m b index =
     (if index < bm_size b
      then (if m (bits b + index div 8) AND push_bit (unat (index mod 8)) 1 \<noteq> 0 then 1 else 0)
      else 0)"

function find_first_loop :: "mem \<Rightarrow> bitmap_t \<Rightarrow> u64 \<Rightarrow> u64" where
  "find_first_loop m b i =
     (if i < bm_size b
      then (if bitmap_test m b i = 0 then i else find_first_loop m b (i + 1))
      else - 1)"
  by pat_completeness auto
termination
  by (relation "measure (\<lambda>(m, b, i). unat (bm_size b) - unat i)") (auto simp: loop_measure)

declare find_first_loop.simps [simp del]

definition bitmap_find_first_free :: "mem \<Rightarrow> bitmap_t \<Rightarrow> u64" where
  "bitmap_find_first_free m b = find_first_loop m b 0"

text \<open>The inner loop of \<^verbatim>\<open>bitmap_find_contiguous_free\<close>: the value of \<open>j\<close> at its exit.\<close>

function contiguous_inner :: "mem \<Rightarrow> bitmap_t \<Rightarrow> u64 \<Rightarrow> u64 \<Rightarrow> u64 \<Rightarrow> u64" where
  "contiguous_inner m b i j count =
     (if j < count
      then (if bitmap_test m b (i + j) \<noteq> 0 then j else contiguous_inner m b i (j + 1) count)
      else j)"
  by pat_completeness auto
termination
  by (relation "measure (\<lambda>(m, b, i, j, count). unat count - unat j)") (auto simp: loop_measure)

declare contiguous_inner.simps [simp del]

text \<open>
  The outer loop runs while \<^verbatim>\<open>i <= bitmap->size - count\<close>, a subtraction that wraps when
  \<open>count\<close> exceeds the size; nothing bounds it then, so it may not return.
\<close>

partial_function (option) contiguous_outer ::
    "mem \<Rightarrow> bitmap_t \<Rightarrow> u64 \<Rightarrow> u64 \<Rightarrow> u64 option" where
  "contiguous_outer m b i count =
     (if i \<le> bm_size b - count
      then (if contiguous_inner m b i 0 count = count then Some i
            else contiguous_outer m b (i + 1) count)
      else Some (- 1))"

definition bitmap_find_contiguous_free :: "mem \<Rightarrow> bitmap_t \<Rightarrow> u64 \<Rightarrow> u64 option" where
  "bitmap_find_contiguous_free m b count = contiguous_outer m b 0 count"

text \<open>The null pointer is address 0; the bitmap pointer itself is the first test.\<close>

definition bitmap_create_from_memory ::
    "mem \<Rightarrow> bitmap_t option \<Rightarrow> u64 \<Rightarrow> u64 \<Rightarrow> mem \<times> bitmap_t option" where
  "bitmap_create_from_memory m bp phys_start phys_size =
     (case bp of
        None \<Rightarrow> (m, None)
      | Some b \<Rightarrow>
          if phys_start = 0 \<or> phys_size = 0 then (m, Some b)
          else (let (m', b') = bitmap_init m phys_start (phys_size div PAGE_SIZE)
                in (m', Some b')))"

subsection \<open>Single bits\<close>

lemma bit_index_less: "unat (i mod 8) < 8" for i :: u64
  by (simp add: unat_mod)

lemma bitmap_test_bit:
  "bitmap_test m b i = (if i < bm_size b \<and> bit (m (bits b + i div 8)) (unat (i mod 8)) then 1 else 0)"
  using bit_index_less [of i] by (simp add: bitmap_test_def and_single_eq_0_iff)

lemma same_bit_iff:
  "i div 8 = j div 8 \<Longrightarrow> unat (j mod 8) = unat (i mod 8) \<longleftrightarrow> i = j" for i j :: u64
  by (metis word_div_mod_eq_iff word_unat_eq_iff)

lemma bitmap_test_set:
  "bitmap_test (bitmap_set m b i) b j
     = (if i = j \<and> i < bm_size b then 1 else bitmap_test m b j)"
proof (cases "i div 8 = j div 8")
  case True
  show ?thesis
    by (auto simp: bitmap_test_bit bitmap_set_def True bit_or_single bit_index_less
        same_bit_iff [OF True])
next
  case False
  then show ?thesis by (auto simp: bitmap_test_bit bitmap_set_def)
qed

lemma bitmap_test_clear:
  "bitmap_test (bitmap_clear m b i) b j = (if i = j then 0 else bitmap_test m b j)"
proof (cases "i div 8 = j div 8")
  case True
  show ?thesis
    by (auto simp: bitmap_test_bit bitmap_clear_def True bit_and_not_single bit_index_less
        same_bit_iff [OF True])
next
  case False
  then show ?thesis by (auto simp: bitmap_test_bit bitmap_clear_def)
qed

lemma bitmap_test_range: "bitmap_test m b i \<noteq> 0 \<Longrightarrow> i < bm_size b"
  by (simp add: bitmap_test_def split: if_splits)

lemma bitmap_test_01: "bitmap_test m b i \<noteq> 0 \<longleftrightarrow> bitmap_test m b i = 1"
  by (simp add: bitmap_test_def)

subsection \<open>Initialisation\<close>

lemma bitmap_init_loop_eq:
  "bitmap_init_loop m a i n = (\<lambda>x. if i \<le> x - a \<and> x - a < n then 0 else m x)"
proof (induction m a i n rule: bitmap_init_loop.induct)
  case (1 m a i n)
  show ?case
  proof (cases "i < n")
    case True
    have at_i: "x - a = i \<longleftrightarrow> x = a + i" for x by (auto simp: algebra_simps)
    have "bitmap_init_loop m a i n = bitmap_init_loop (m(a + i := 0)) a (i + 1) n"
      using True by (simp add: bitmap_init_loop.simps [of m a i n])
    also have "\<dots> = (\<lambda>x. if i + 1 \<le> x - a \<and> x - a < n then 0 else (m(a + i := 0)) x)"
      by (rule "1.IH" [OF True])
    also have "\<dots> = (\<lambda>x. if i \<le> x - a \<and> x - a < n then 0 else m x)"
      using True by (auto simp: fun_eq_iff word_le_cases_Suc [OF True] at_i)
    finally show ?thesis .
  next
    case False
    then show ?thesis by (subst bitmap_init_loop.simps) (auto simp: fun_eq_iff)
  qed
qed

lemma byte_index_bound:
  "sz \<le> sz + 7 \<Longrightarrow> i < sz \<Longrightarrow> i div 8 < (sz + 7) div 8" for sz i :: u64
proof -
  assume "sz \<le> sz + 7" "i < sz"
  then have "unat i + 8 \<le> unat (sz + 7)"
    by (auto simp: word_le_nat_alt word_less_nat_alt unat_plus_if_size word_size split: if_splits)
  then have "(unat i + 8) div 8 \<le> unat (sz + 7) div 8" by (rule div_le_mono)
  then have "unat i div 8 < unat (sz + 7) div 8" by simp
  then show ?thesis by (simp add: word_less_nat_alt unat_div)
qed

lemma bitmap_init_test:
  assumes "bitmap_init m a sz = (m', b)" and "sz \<le> sz + 7"
  shows "bitmap_test m' b i = 0"
proof -
  from assms(1) have b: "b = \<lparr>bits = a, bm_size = sz\<rparr>"
    and m': "m' = bitmap_init_loop m a 0 ((sz + 7) div 8)" by (simp_all add: bitmap_init_def)
  show ?thesis
    using byte_index_bound [OF assms(2), of i]
    by (simp add: bitmap_test_bit b m' bitmap_init_loop_eq)
qed


subsection \<open>Searching for free bits\<close>

lemma find_first_loop_spec:
  defines "free \<equiv> \<lambda>m b (j::u64). bitmap_test m b j = 0"
  shows "(find_first_loop m b i = - 1 \<and> (\<forall>j. i \<le> j \<and> j < bm_size b \<longrightarrow> \<not> free m b j))
       \<or> (let r = find_first_loop m b i in
            i \<le> r \<and> r < bm_size b \<and> free m b r \<and> (\<forall>j. i \<le> j \<and> j < r \<longrightarrow> \<not> free m b j))"
proof (induction m b i rule: find_first_loop.induct)
  case (1 m b i)
  show ?case
  proof (cases "i < bm_size b \<and> \<not> free m b i")
    case True
    then have lt: "i < bm_size b" by simp
    have "find_first_loop m b i = find_first_loop m b (i + 1)"
      using True by (simp add: find_first_loop.simps [of m b i] free_def)
    moreover have "i + 1 \<le> r \<Longrightarrow> i \<le> r" for r using lt by unat_arith
    ultimately show ?thesis
      using "1.IH" True unfolding free_def Let_def
      by (auto simp: word_le_cases_Suc [OF lt])
  next
    case False
    then show ?thesis
      by (auto simp: find_first_loop.simps [of m b i] free_def Let_def)
  qed
qed

lemma find_first_free_cases:
  obtains (none) "bitmap_find_first_free m b = - 1" "\<And>j. j < bm_size b \<Longrightarrow> bitmap_test m b j \<noteq> 0"
    | (some) r where "bitmap_find_first_free m b = r" "r < bm_size b" "bitmap_test m b r = 0"
        "\<And>j. j < r \<Longrightarrow> bitmap_test m b j \<noteq> 0"
  using find_first_loop_spec [of m b 0]
  unfolding bitmap_find_first_free_def Let_def by auto

lemma contiguous_inner_spec:
  "j \<le> count \<Longrightarrow>
     contiguous_inner m b i j count = count
       \<longleftrightarrow> (\<forall>k. j \<le> k \<and> k < count \<longrightarrow> bitmap_test m b (i + k) = 0)"
proof (induction m b i j count rule: contiguous_inner.induct)
  case (1 m b i j count)
  show ?case
  proof (cases "j < count \<and> bitmap_test m b (i + j) = 0")
    case True
    then have lt: "j < count" by simp
    have "contiguous_inner m b i j count = contiguous_inner m b i (j + 1) count"
      using True by (simp add: contiguous_inner.simps [of m b i j])
    with "1.IH" True word_Suc_le [OF lt] show ?thesis
      by (auto simp: word_le_cases_Suc [OF lt])
  next
    case False
    with "1.prems" show ?thesis
      by (auto simp: contiguous_inner.simps [of m b i j])
  qed
qed

text \<open>A free run: \<open>count\<close> indices from \<open>i\<close> that all test free.\<close>

definition free_run :: "mem \<Rightarrow> bitmap_t \<Rightarrow> u64 \<Rightarrow> u64 \<Rightarrow> bool" where
  "free_run m b i count \<longleftrightarrow> (\<forall>k < count. bitmap_test m b (i + k) = 0)"

lemma contiguous_inner_run: "contiguous_inner m b i 0 count = count \<longleftrightarrow> free_run m b i count"
  by (simp add: contiguous_inner_spec free_run_def)

lemma contiguous_outer_step:
  "contiguous_outer m b i count =
     (if i \<le> bm_size b - count
      then (if free_run m b i count then Some i else contiguous_outer m b (i + 1) count)
      else Some (- 1))"
  by (subst contiguous_outer.simps) (simp add: contiguous_inner_run)

text \<open>
  The outer loop stops at the first free run, provided some run at or above \<open>i\<close> is met
  before the counter can wrap.
\<close>

lemma contiguous_outer_finds:
  assumes "free_run m b r count" and "r \<le> bm_size b - count" and "i \<le> r"
    and "\<And>j. i \<le> j \<Longrightarrow> j < r \<Longrightarrow> \<not> free_run m b j count"
  shows "contiguous_outer m b i count = Some r"
  using assms(3,4)
proof (induction "unat r - unat i" arbitrary: i)
  case 0
  then have "i = r" by (simp add: word_le_nat_alt word_unat_eq_iff)
  with assms(1,2) show ?case by (simp add: contiguous_outer_step)
next
  case (Suc d)
  then have lt: "i < r" by unat_arith
  with Suc.prems assms(2) have "\<not> free_run m b i count" and "i \<le> bm_size b - count" by auto
  then have step: "contiguous_outer m b i count = contiguous_outer m b (i + 1) count"
    by (simp add: contiguous_outer_step [of m b i])
  have "d = unat r - unat (i + 1)" using Suc.hyps(2) unat_Suc_less [OF lt] by simp
  then have "contiguous_outer m b (i + 1) count = Some r"
    by (rule Suc.hyps(1)) (use Suc.prems(2) lt in \<open>auto simp: word_Suc_le word_le_cases_Suc [OF lt]\<close>)
  with step show ?case by simp
qed

lemma contiguous_outer_fails:
  assumes lim: "bm_size b - count = lim" "lim \<noteq> - 1"
    and none: "\<And>j. i \<le> j \<Longrightarrow> j \<le> lim \<Longrightarrow> \<not> free_run m b j count" and "i \<le> lim + 1"
  shows "contiguous_outer m b i count = Some (- 1)"
  using none \<open>i \<le> lim + 1\<close>
proof (induction "unat (lim + 1) - unat i" arbitrary: i)
  case 0
  then have "lim + 1 \<le> i" by (simp add: word_le_nat_alt)
  with less_Suc_word [OF lim(2)] have "\<not> i \<le> lim" by simp
  then show ?case by (simp add: contiguous_outer_step lim)
next
  case (Suc d)
  then have lt: "i < lim + 1" by (simp add: word_less_nat_alt)
  then have "i \<le> lim" by unat_arith
  with Suc.prems have "contiguous_outer m b i count = contiguous_outer m b (i + 1) count"
    by (simp add: contiguous_outer_step [of m b i] lim)
  moreover have "d = unat (lim + 1) - unat (i + 1)"
    using Suc.hyps(2) unat_Suc_less [OF lt] by simp
  then have "contiguous_outer m b (i + 1) count = Some (- 1)"
    by (rule Suc.hyps(1)) (use Suc.prems(1) lt in \<open>auto simp: word_Suc_le word_le_cases_Suc [OF lt]\<close>)
  ultimately show ?case by simp
qed

text \<open>The least index with a free run (words are well-ordered).\<close>

lemma least_free_run:
  assumes "free_run m b j count"
  obtains r where "free_run m b r count" "r \<le> j" "\<And>k. k < r \<Longrightarrow> \<not> free_run m b k count"
proof
  let ?P = "\<lambda>i. free_run m b i count"
  show "?P (Least ?P)" using assms by (rule LeastI)
  show "Least ?P \<le> j" using assms by (rule Least_le)
  show "\<not> ?P k" if "k < Least ?P" for k using that by (rule not_less_Least)
qed

subsection \<open>The interface the allocator relies on\<close>

text \<open>
  A bit store offers set, clear, test and a search for the first clear bit; these are the
  laws a page allocator built on it uses.
\<close>

locale bit_store =
  fixes bset bclear :: "'s \<Rightarrow> u64 \<Rightarrow> 's" and btest :: "'s \<Rightarrow> u64 \<Rightarrow> bool"
    and bfirst :: "'s \<Rightarrow> u64" and bsize :: u64
  assumes test_set: "i < bsize \<Longrightarrow> btest (bset s i) j \<longleftrightarrow> i = j \<or> btest s j"
    and test_clear: "btest (bclear s i) j \<longleftrightarrow> i \<noteq> j \<and> btest s j"
    and test_range: "btest s i \<Longrightarrow> i < bsize"
    and first_none: "bfirst s = - 1 \<Longrightarrow> i < bsize \<Longrightarrow> btest s i"
    and first_some: "bfirst s \<noteq> - 1 \<Longrightarrow> bfirst s < bsize \<and> \<not> btest s (bfirst s)"

text \<open>
  Repeated allocation: find a clear bit, set it, up to \<open>n\<close> times, stopping when the
  search reports failure.
\<close>

primrec alloc_seq :: "('s \<Rightarrow> u64) \<Rightarrow> ('s \<Rightarrow> u64 \<Rightarrow> 's) \<Rightarrow> nat \<Rightarrow> 's \<Rightarrow> u64 list" where
  "alloc_seq ff st 0 s = []"
| "alloc_seq ff st (Suc n) s = (if ff s = - 1 then [] else ff s # alloc_seq ff st n (st s (ff s)))"

definition clear_bits :: "('s \<Rightarrow> u64 \<Rightarrow> bool) \<Rightarrow> u64 \<Rightarrow> 's \<Rightarrow> u64 set" where
  "clear_bits test sz s = {i. i < sz \<and> \<not> test s i}"

context bit_store
begin

lemma clear_bits_set:
  "bfirst s \<noteq> - 1 \<Longrightarrow>
     clear_bits btest bsize (bset s (bfirst s)) = clear_bits btest bsize s - {bfirst s}"
  using first_some [of s] by (auto simp: clear_bits_def test_set)

lemma first_in_clear_bits: "bfirst s \<noteq> - 1 \<Longrightarrow> bfirst s \<in> clear_bits btest bsize s"
  using first_some [of s] by (simp add: clear_bits_def)

lemma alloc_seq_subset: "set (alloc_seq bfirst bset n s) \<subseteq> clear_bits btest bsize s"
proof (induction n arbitrary: s)
  case (Suc n)
  show ?case
  proof (cases "bfirst s = - 1")
    case False
    then show ?thesis
      using Suc [of "bset s (bfirst s)"] by (auto simp: first_in_clear_bits clear_bits_set)
  qed simp
qed simp

lemma alloc_seq_distinct: "distinct (alloc_seq bfirst bset n s)"
proof (induction n arbitrary: s)
  case (Suc n)
  then show ?case
    using alloc_seq_subset [of n "bset s (bfirst s)"] by (auto simp: clear_bits_set)
qed simp

lemma alloc_seq_length: "length (alloc_seq bfirst bset n s) = min n (card (clear_bits btest bsize s))"
proof (induction n arbitrary: s)
  case (Suc n)
  show ?case
  proof (cases "bfirst s = - 1")
    case True
    then have "clear_bits btest bsize s = {}" using first_none by (auto simp: clear_bits_def)
    with True show ?thesis by simp
  next
    case False
    have "card (clear_bits btest bsize s) = Suc (card (clear_bits btest bsize s - {bfirst s}))"
      by (rule card.remove) (use False first_in_clear_bits in auto)
    with False Suc show ?thesis by (simp add: clear_bits_set)
  qed
qed simp

end

interpretation bm: bit_store "\<lambda>m. bitmap_set m b" "\<lambda>m. bitmap_clear m b"
    "\<lambda>m i. bitmap_test m b i \<noteq> 0" "\<lambda>m. bitmap_find_first_free m b" "bm_size b"
  for b
proof unfold_locales
  fix m i j
  show "i < bm_size b \<Longrightarrow> bitmap_test (bitmap_set m b i) b j \<noteq> 0 \<longleftrightarrow> i = j \<or> bitmap_test m b j \<noteq> 0"
    by (simp add: bitmap_test_set)
  show "bitmap_test (bitmap_clear m b i) b j \<noteq> 0 \<longleftrightarrow> i \<noteq> j \<and> bitmap_test m b j \<noteq> 0"
    by (simp add: bitmap_test_clear)
  show "bitmap_test m b i \<noteq> 0 \<Longrightarrow> i < bm_size b" by (rule bitmap_test_range)
  show "bitmap_find_first_free m b = - 1 \<Longrightarrow> i < bm_size b \<Longrightarrow> bitmap_test m b i \<noteq> 0"
    by (cases rule: find_first_free_cases [of m b]) (auto dest: less_not_minus_one)
  show "bitmap_find_first_free m b \<noteq> - 1 \<Longrightarrow> bitmap_find_first_free m b < bm_size b
      \<and> \<not> bitmap_test m b (bitmap_find_first_free m b) \<noteq> 0"
    by (cases rule: find_first_free_cases [of m b]) auto
qed


subsection \<open>Properties\<close>

text \<open>
  A bitmap behaves as a set of indices: after \<^verbatim>\<open>bitmap_set\<close> exactly the given
  index (when it is in range) joins the set, after \<^verbatim>\<open>bitmap_clear\<close> exactly that index
  leaves it, and no other index changes.
\<close>

theorem bitmap_set_clear_refine:
  "{j. bitmap_test (bitmap_set m b i) b j \<noteq> 0}
      = {j. bitmap_test m b j \<noteq> 0} \<union> ({i} \<inter> {j. j < bm_size b})
   \<and> {j. bitmap_test (bitmap_clear m b i) b j \<noteq> 0} = {j. bitmap_test m b j \<noteq> 0} - {i}"
  by (auto simp: bitmap_test_set bitmap_test_clear)

text \<open>
  C35. Allocating pages by \<^verbatim>\<open>bitmap_find_first_free\<close> followed by \<^verbatim>\<open>bitmap_set\<close>, \<open>n\<close>
  times, on a freshly initialised bitmap hands out \<open>min n size\<close> indices, all distinct
  and all below the size.
\<close>

theorem bitmap_alloc_distinct:
  assumes "bitmap_init m buffer sz = (m', b)" and "sz \<le> sz + 7"
  shows "distinct (alloc_seq (\<lambda>m. bitmap_find_first_free m b) (\<lambda>m. bitmap_set m b) n m')
       \<and> length (alloc_seq (\<lambda>m. bitmap_find_first_free m b) (\<lambda>m. bitmap_set m b) n m') = min n (unat sz)
       \<and> set (alloc_seq (\<lambda>m. bitmap_find_first_free m b) (\<lambda>m. bitmap_set m b) n m') \<subseteq> {i. i < sz}"
proof -
  from assms(1) have size: "bm_size b = sz" by (auto simp: bitmap_init_def)
  have clear: "clear_bits (\<lambda>m i. bitmap_test m b i \<noteq> 0) (bm_size b) m' = {i. i < sz}"
    using bitmap_init_test [OF assms] by (auto simp: clear_bits_def size)
  have "card {i. i < sz} = unat sz"
    by (simp add: card_word_less)
  with clear size show ?thesis
    using bm.alloc_seq_distinct [of b n m'] bm.alloc_seq_length [of b n m']
      bm.alloc_seq_subset [of b n m'] by simp
qed

theorem bitmap_alloc_distinct_witness:
  "length (alloc_seq (\<lambda>m. bitmap_find_first_free m \<lparr>bits = 4096, bm_size = 10\<rparr>)
       (\<lambda>m. bitmap_set m \<lparr>bits = 4096, bm_size = 10\<rparr>) 4 (fst (bitmap_init (\<lambda>_. 255) 4096 10))) = 4"
  using bitmap_alloc_distinct [of "\<lambda>_. 255" 4096 10 _ _ 4, OF surjective_pairing]
  by (simp add: bitmap_init_def)

text \<open>
  C36. For \<open>0 < count \<le> size\<close>, \<^verbatim>\<open>bitmap_find_contiguous_free\<close> terminates and
  returns the least start of a run of \<open>count\<close> free bits that lies inside the bitmap, or
  \<open>-1\<close> when there is none.
\<close>

theorem find_contiguous_least:
  assumes "0 < count" and "count \<le> bm_size b"
  shows "(\<exists>r. bitmap_find_contiguous_free m b count = Some r \<and> r \<le> bm_size b - count
            \<and> free_run m b r count \<and> (\<forall>j < r. \<not> free_run m b j count))
       \<or> bitmap_find_contiguous_free m b count = Some (- 1)
            \<and> (\<forall>j \<le> bm_size b - count. \<not> free_run m b j count)"
proof (cases "\<exists>j \<le> bm_size b - count. free_run m b j count")
  case True
  then obtain j where j: "free_run m b j count" "j \<le> bm_size b - count" by blast
  from least_free_run [OF j(1)] obtain r where r: "free_run m b r count" "r \<le> j"
    "\<And>k. k < r \<Longrightarrow> \<not> free_run m b k count" by blast
  from r(2) j(2) have "r \<le> bm_size b - count" by simp
  with contiguous_outer_finds [OF r(1), of 0] r show ?thesis
    by (auto simp: bitmap_find_contiguous_free_def)
next
  case False
  have "bm_size b - count < bm_size b" using assms by (rule word_sub_less)
  then have "bm_size b - count \<noteq> - 1" by (rule less_not_minus_one)
  with False show ?thesis
    using contiguous_outer_fails [OF refl, of b count 0] by (auto simp: bitmap_find_contiguous_free_def)
qed

theorem find_contiguous_least_witness:
  "let m = (\<lambda>_. 1); b = \<lparr>bits = 0, bm_size = 16\<rparr> in
     (\<exists>r. bitmap_find_contiguous_free m b 7 = Some r \<and> r \<le> 9
            \<and> free_run m b r 7 \<and> (\<forall>j < r. \<not> free_run m b j 7))
       \<or> bitmap_find_contiguous_free m b 7 = Some (- 1) \<and> (\<forall>j \<le> 9. \<not> free_run m b j 7)"
  using find_contiguous_least [of 7 "\<lparr>bits = 0, bm_size = 16\<rparr>" "\<lambda>_. 1"] by simp

text \<open>
  The bound of that loop is an unsigned subtraction that wraps: asked for more bits
  than the bitmap has (\<open>count > size\<close>), the search never reports failure. It returns an
  index at or below the size from which the remaining bits are free, although no run of
  \<open>count\<close> bits fits.
\<close>

theorem find_contiguous_too_long:
  assumes "bm_size b < count" and "unat (bm_size b) + unat count \<le> 2 ^ 64"
  shows "\<exists>r \<le> bm_size b. bitmap_find_contiguous_free m b count = Some r \<and> r \<noteq> - 1"
proof -
  have out: "bitmap_test m b (bm_size b + k) = 0" if "k < count" for k
  proof -
    have "unat (bm_size b + k) = unat (bm_size b) + unat k"
      using that assms(2) by (intro unat_add_lem [THEN iffD1]) (simp add: word_less_nat_alt)
    then have "\<not> bm_size b + k < bm_size b" by (simp add: word_less_nat_alt)
    then show ?thesis by (simp add: bitmap_test_def)
  qed
  then have "free_run m b (bm_size b) count" by (simp add: free_run_def)
  from least_free_run [OF this] obtain r where r: "free_run m b r count" "r \<le> bm_size b"
    "\<And>k. k < r \<Longrightarrow> \<not> free_run m b k count" by blast
  have "bm_size b \<le> bm_size b - count" using assms(1) by (rule word_le_wrapped_sub)
  with r have "bitmap_find_contiguous_free m b count = Some r"
    unfolding bitmap_find_contiguous_free_def by (intro contiguous_outer_finds) auto
  moreover have "r \<noteq> - 1" using le_less_trans [OF r(2) assms(1)] by (rule less_not_minus_one)
  ultimately show ?thesis using r(2) by blast
qed

theorem find_contiguous_too_long_witness:
  "\<exists>r \<le> 8. bitmap_find_contiguous_free (\<lambda>_. 255) \<lparr>bits = 0, bm_size = 8\<rparr> 9 = Some r \<and> r \<noteq> - 1"
  using find_contiguous_too_long [of "\<lparr>bits = 0, bm_size = 8\<rparr>" 9 "\<lambda>_. 255"] by simp

end
