(* ===== verification/Kstring.thy ===== *)
theory Kstring
  imports Prelude "HOL-Library.List_Lexorder"
begin

text \<open>
  The C string and memory functions of \<^verbatim>\<open>mem/string.c\<close>, on byte-addressed memory with
  64-bit addresses that wrap. A scan for a terminating zero byte may run forever on memory
  that holds none, so those loops are partial functions whose value \<open>None\<close> means that
  the call does not return; the counted loops are total. \<^verbatim>\<open>char\<close> is unsigned on AArch64, so
  the difference of two characters is a difference of byte values.
\<close>

subsection \<open>Model\<close>

definition SIZE_MAX :: u64 where
  "SIZE_MAX = 9223372036854775807"

definition NULL :: u64 where
  "NULL = 0"

partial_function (option) strlen_loop :: "mem \<Rightarrow> u64 \<Rightarrow> u64 \<Rightarrow> u64 option" where
  "strlen_loop m buf len =
     (if m buf = 0 then Some len else strlen_loop m (buf + 1) (len + 1))"

definition strlen :: "mem \<Rightarrow> u64 \<Rightarrow> u64 option" where
  "strlen m buf = strlen_loop m buf 0"

partial_function (option) strcat_end :: "mem \<Rightarrow> u64 \<Rightarrow> u64 option" where
  "strcat_end m p = (if m p = 0 then Some p else strcat_end m (p + 1))"

partial_function (option) strcat_copy :: "mem \<Rightarrow> u64 \<Rightarrow> u64 \<Rightarrow> mem option" where
  "strcat_copy m p src =
     (if m src = 0 then Some (m(p := m src)) else strcat_copy (m(p := m src)) (p + 1) (src + 1))"

definition strcat :: "mem \<Rightarrow> u64 \<Rightarrow> u64 \<Rightarrow> (mem \<times> u64) option" where
  "strcat m dest src = do {
     p \<leftarrow> strcat_end m dest;
     m' \<leftarrow> strcat_copy m p src;
     Some (m', dest)
   }"

definition strcpy :: "mem \<Rightarrow> u64 \<Rightarrow> u64 \<Rightarrow> (mem \<times> u64) option" where
  "strcpy m dest src = strcat (m(dest := 0)) dest src"

function strncmp :: "mem \<Rightarrow> u64 \<Rightarrow> u64 \<Rightarrow> u64 \<Rightarrow> int" where
  "strncmp m a b n =
     (if n = 0 then 0
      else if m a \<noteq> m b \<or> m a = 0 then uint (m a) - uint (m b)
      else strncmp m (a + 1) (b + 1) (n - 1))"
  by pat_completeness auto
termination
  by (relation "measure (\<lambda>(m, a, b, n). unat n)") (auto simp: countdown_measure)

declare strncmp.simps [simp del]

definition strcmp :: "mem \<Rightarrow> u64 \<Rightarrow> u64 \<Rightarrow> int" where
  "strcmp m a b = strncmp m a b SIZE_MAX"

partial_function (option) strchr_loop :: "mem \<Rightarrow> u64 \<Rightarrow> u8 \<Rightarrow> u64 option" where
  "strchr_loop m s c =
     (if m s \<noteq> c then (if m s = 0 then Some NULL else strchr_loop m (s + 1) c) else Some s)"

definition strchr :: "mem \<Rightarrow> u64 \<Rightarrow> u32 \<Rightarrow> u64 option" where
  "strchr m s c = strchr_loop m s (ucast c)"

function memset_loop :: "mem \<Rightarrow> u64 \<Rightarrow> u8 \<Rightarrow> u64 \<Rightarrow> u64 \<Rightarrow> mem" where
  "memset_loop m a c i n = (if i < n then memset_loop (m(a + i := c)) a c (i + 1) n else m)"
  by pat_completeness auto
termination
  by (relation "measure (\<lambda>(m, a, c, i, n). unat n - unat i)") (auto simp: loop_measure)

declare memset_loop.simps [simp del]

definition memset :: "mem \<Rightarrow> u64 \<Rightarrow> u32 \<Rightarrow> u64 \<Rightarrow> mem \<times> u64" where
  "memset m s c n = (memset_loop m s (ucast c) 0 n, s)"

function memcpy_loop :: "mem \<Rightarrow> u64 \<Rightarrow> u64 \<Rightarrow> u64 \<Rightarrow> u64 \<Rightarrow> mem" where
  "memcpy_loop m a b i n =
     (if i < n then memcpy_loop (m(a + i := m (b + i))) a b (i + 1) n else m)"
  by pat_completeness auto
termination
  by (relation "measure (\<lambda>(m, a, b, i, n). unat n - unat i)") (auto simp: loop_measure)

declare memcpy_loop.simps [simp del]

definition memcpy :: "mem \<Rightarrow> u64 \<Rightarrow> u64 \<Rightarrow> u64 \<Rightarrow> mem \<times> u64" where
  "memcpy m dest src n = (memcpy_loop m dest src 0 n, dest)"

function memcmp :: "mem \<Rightarrow> u64 \<Rightarrow> u64 \<Rightarrow> u64 \<Rightarrow> int" where
  "memcmp m a b n =
     (if n = 0 then 0
      else if uint (m a) - uint (m b) \<noteq> 0 then uint (m a) - uint (m b)
      else memcmp m (a + 1) (b + 1) (n - 1))"
  by pat_completeness auto
termination
  by (relation "measure (\<lambda>(m, a, b, n). unat n)") (auto simp: countdown_measure)

declare memcmp.simps [simp del]

text \<open>\<^verbatim>\<open>while (l1 >= l2)\<close> of \<^verbatim>\<open>strstr\<close>.\<close>

partial_function (option) strstr_loop :: "mem \<Rightarrow> u64 \<Rightarrow> u64 \<Rightarrow> u64 \<Rightarrow> u64 \<Rightarrow> u64 option" where
  "strstr_loop m s1 s2 l1 l2 =
     (if l2 \<le> l1
      then (if memcmp m s1 s2 l2 = 0 then Some s1 else strstr_loop m (s1 + 1) s2 (l1 - 1) l2)
      else Some NULL)"

definition strstr :: "mem \<Rightarrow> u64 \<Rightarrow> u64 \<Rightarrow> u64 option" where
  "strstr m s1 s2 = do {
     l2 \<leftarrow> strlen m s2;
     if l2 = 0 then Some s1
     else do {
       l1 \<leftarrow> strlen m s1;
       strstr_loop m s1 s2 l1 l2
     }
   }"

text \<open>The two loops of \<^verbatim>\<open>memmove\<close>: upwards from the start, downwards from the end.\<close>

function memmove_up :: "mem \<Rightarrow> u64 \<Rightarrow> u64 \<Rightarrow> u64 \<Rightarrow> mem" where
  "memmove_up m d s n =
     (if n = 0 then m else memmove_up (m(d := m s)) (d + 1) (s + 1) (n - 1))"
  by pat_completeness auto
termination
  by (relation "measure (\<lambda>(m, d, s, n). unat n)") (auto simp: countdown_measure)

declare memmove_up.simps [simp del]

function memmove_down :: "mem \<Rightarrow> u64 \<Rightarrow> u64 \<Rightarrow> u64 \<Rightarrow> mem" where
  "memmove_down m d s n =
     (if n = 0 then m else memmove_down (m(d - 1 := m (s - 1))) (d - 1) (s - 1) (n - 1))"
  by pat_completeness auto
termination
  by (relation "measure (\<lambda>(m, d, s, n). unat n)") (auto simp: countdown_measure)

declare memmove_down.simps [simp del]

definition memmove :: "mem \<Rightarrow> u64 \<Rightarrow> u64 \<Rightarrow> u64 \<Rightarrow> mem \<times> u64" where
  "memmove m dest src n =
     (if dest \<le> src then memmove_up m dest src n else memmove_down m (dest + n) (src + n) n, dest)"

function memchr_loop :: "mem \<Rightarrow> u64 \<Rightarrow> u8 \<Rightarrow> u64 \<Rightarrow> u64" where
  "memchr_loop m str chr n =
     (if n = 0 then NULL
      else if m str = chr then str else memchr_loop m (str + 1) chr (n - 1))"
  by pat_completeness auto
termination
  by (relation "measure (\<lambda>(m, str, chr, n). unat n)") (auto simp: countdown_measure)

declare memchr_loop.simps [simp del]

definition memchr :: "mem \<Rightarrow> u64 \<Rightarrow> u32 \<Rightarrow> u64 \<Rightarrow> u64" where
  "memchr m s c n = memchr_loop m s (ucast c) n"

text \<open>
  \<^verbatim>\<open>atol\<close>: skip blanks and tabs, an optional sign, then decimal digits. \<^verbatim>\<open>long\<close> is a
  64-bit word; signed overflow, undefined in C, is the word's wrap-around.
\<close>

partial_function (option) atol_skip :: "mem \<Rightarrow> u64 \<Rightarrow> u64 option" where
  "atol_skip m s = (if m s = 32 \<or> m s = 9 then atol_skip m (s + 1) else Some s)"

partial_function (option) atol_digits :: "mem \<Rightarrow> u64 \<Rightarrow> u64 \<Rightarrow> u64 option" where
  "atol_digits m s acc =
     (if m s \<noteq> 0 \<and> \<not> (m s < 48 \<or> 57 < m s)
      then atol_digits m (s + 1) (acc * 10 + ucast (m s - 48))
      else Some acc)"

definition atol :: "mem \<Rightarrow> u64 \<Rightarrow> u64 option" where
  "atol m ptr = do {
     s \<leftarrow> atol_skip m ptr;
     let neg = (m s = 45);
     let s' = (if neg \<or> m s = 43 then s + 1 else s);
     acc \<leftarrow> atol_digits m s' 0;
     Some (if neg then - acc else acc)
   }"


subsection \<open>Strings in memory\<close>

text \<open>\<open>cstr m a xs\<close>: at \<open>a\<close> stand the non-zero bytes \<open>xs\<close> and a zero byte.\<close>

primrec cstr :: "mem \<Rightarrow> u64 \<Rightarrow> u8 list \<Rightarrow> bool" where
  "cstr m a [] \<longleftrightarrow> m a = 0"
| "cstr m a (x # xs) \<longleftrightarrow> m a = x \<and> x \<noteq> 0 \<and> cstr m (a + 1) xs"

lemma cstr_nth: "cstr m a xs \<Longrightarrow> i < length xs \<Longrightarrow> m (a + of_nat i) = xs ! i"
proof (induction xs arbitrary: a i)
  case (Cons x xs)
  then show ?case by (cases i) (auto simp flip: add.assoc)
qed simp

lemma cstr_end: "cstr m a xs \<Longrightarrow> m (a + of_nat (length xs)) = 0"
  by (induction xs arbitrary: a) (auto simp flip: add.assoc)

lemma cstr_cong:
  "(\<And>i. i \<le> length xs \<Longrightarrow> m' (a + of_nat i) = m (a + of_nat i)) \<Longrightarrow> cstr m' a xs = cstr m a xs"
proof (induction xs arbitrary: a)
  case Nil
  from Nil [of 0] show ?case by simp
next
  case (Cons x xs)
  from Cons.prems [of 0] have "m' a = m a" by simp
  moreover have "cstr m' (a + 1) xs = cstr m (a + 1) xs"
    using Cons.prems [of "Suc i" for i] by (intro Cons.IH) (simp add: add.assoc)
  ultimately show ?case by simp
qed

lemma cstr_append:
  "cstr m a (xs @ ys) \<longleftrightarrow>
     (\<forall>i < length xs. m (a + of_nat i) = xs ! i \<and> xs ! i \<noteq> 0) \<and> cstr m (a + of_nat (length xs)) ys"
proof (induction xs arbitrary: a)
  case (Cons x xs)
  then show ?case
    by (auto simp: add.assoc less_Suc_eq_0_disj)
qed simp

lemma cstr_nonzero: "cstr m a xs \<Longrightarrow> 0 \<notin> set xs"
  by (induction xs arbitrary: a) auto

lemma strlen_loop_cstr: "cstr m a xs \<Longrightarrow> strlen_loop m a k = Some (k + of_nat (length xs))"
  by (induction xs arbitrary: a k) (simp_all add: strlen_loop.simps [of m a for a] add.assoc)

lemma strlen_cstr: "cstr m a xs \<Longrightarrow> strlen m a = Some (of_nat (length xs))"
  by (simp add: strlen_def strlen_loop_cstr)

subsection \<open>Comparison\<close>

lemma uint_diff_sign:
  "uint x = uint y \<longleftrightarrow> x = y" "uint x < uint y \<longleftrightarrow> x < y"
  "uint x = 0 \<longleftrightarrow> x = 0" "0 < uint x \<longleftrightarrow> x \<noteq> 0" for x y :: u8
  by (simp_all add: word_less_def word_uint_eq_iff order_less_le)

lemma strncmp_lex:
  assumes "cstr m a xs" and "cstr m b ys" and "length xs < unat n"
  shows "(strncmp m a b n = 0 \<longleftrightarrow> xs = ys) \<and> (strncmp m a b n < 0 \<longleftrightarrow> xs < ys)"
  using assms
proof (induction xs arbitrary: a b ys n)
  case Nil
  then have "n \<noteq> 0" by auto
  with Nil show ?case
    by (cases ys) (auto simp: strncmp.simps [of m a b n] uint_diff_sign word_gt_0)
next
  case (Cons x xs)
  then have n: "n \<noteq> 0" by auto
  with Cons.prems(3) have "length xs < unat (n - 1)" by (simp add: unat_minus_one)
  with Cons n show ?case
    by (cases ys) (auto simp: strncmp.simps [of m a b n] uint_diff_sign)
qed

lemma memcmp_eq_0:
  "memcmp m a b n = 0 \<longleftrightarrow> (\<forall>i < n. m (a + i) = m (b + i))"
proof (induction m a b n rule: memcmp.induct)
  case (1 m a b n)
  show ?case
  proof (cases "n = 0 \<or> m a \<noteq> m b")
    case True
    then show ?thesis by (auto simp: memcmp.simps [of m a b n] uint_diff_sign word_gt_0 intro!: exI [of _ 0])
  next
    case False
    then have "memcmp m a b n = memcmp m (a + 1) (b + 1) (n - 1)"
      by (simp add: memcmp.simps [of m a b n])
    also have "\<dots> = 0 \<longleftrightarrow> (\<forall>i < n - 1. m (a + 1 + i) = m (b + 1 + i))"
      using False by (intro "1.IH") auto
    also have "\<dots> \<longleftrightarrow> (\<forall>i < n. m (a + i) = m (b + i))"
    proof -
      have "i < n \<longleftrightarrow> i = 0 \<or> (\<exists>j. i = 1 + j \<and> j < n - 1)" for i
        using False by (cases "i = 0") (auto simp: word_gt_0 intro!: exI [of _ "i - 1"], unat_arith+)
      with False show ?thesis by (auto simp: add.assoc)
    qed
    finally show ?thesis .
  qed
qed


subsection \<open>Filling and copying\<close>

text \<open>
  \<open>copied m d s n\<close> is the memory in which the \<open>n\<close> bytes at \<open>d\<close> are those that
  \<open>m\<close> had at \<open>s\<close> and everything else is unchanged.
\<close>

definition copied :: "mem \<Rightarrow> u64 \<Rightarrow> u64 \<Rightarrow> u64 \<Rightarrow> mem" where
  "copied m d s n = (\<lambda>x. if x - d < n then m (s + (x - d)) else m x)"

lemma memset_loop_eq:
  "memset_loop m a c i n = (\<lambda>x. if i \<le> x - a \<and> x - a < n then c else m x)"
proof (induction m a c i n rule: memset_loop.induct)
  case (1 m a c i n)
  show ?case
  proof (cases "i < n")
    case True
    have at_i: "x - a = i \<longleftrightarrow> x = a + i" for x by (auto simp: algebra_simps)
    have "memset_loop m a c i n = memset_loop (m(a + i := c)) a c (i + 1) n"
      using True by (simp add: memset_loop.simps [of m a c i n])
    also have "\<dots> = (\<lambda>x. if i + 1 \<le> x - a \<and> x - a < n then c else (m(a + i := c)) x)"
      by (rule "1.IH" [OF True])
    also have "\<dots> = (\<lambda>x. if i \<le> x - a \<and> x - a < n then c else m x)"
      using True by (auto simp: fun_eq_iff word_le_cases_Suc [OF True] at_i)
    finally show ?thesis .
  next
    case False
    then show ?thesis by (subst memset_loop.simps) (auto simp: fun_eq_iff)
  qed
qed

lemma memcpy_loop_eq:
  assumes "\<And>j k. j < k \<Longrightarrow> k < n \<Longrightarrow> b + k \<noteq> a + j"
  shows "memcpy_loop m a b i n = (\<lambda>x. if i \<le> x - a \<and> x - a < n then m (b + (x - a)) else m x)"
  using assms
proof (induction m a b i n rule: memcpy_loop.induct)
  case (1 m a b i n)
  show ?case
  proof (cases "i < n")
    case True
    let ?m = "m(a + i := m (b + i))"
    have at_i: "x - a = i \<longleftrightarrow> x = a + i" for x by (auto simp: algebra_simps)
    have gt: "i + 1 \<le> k \<Longrightarrow> i < k" for k using True by unat_arith
    have "memcpy_loop m a b i n = memcpy_loop ?m a b (i + 1) n"
      using True by (simp add: memcpy_loop.simps [of m a b i n])
    also have "\<dots> = (\<lambda>x. if i + 1 \<le> x - a \<and> x - a < n then ?m (b + (x - a)) else ?m x)"
      using "1.prems" by (intro "1.IH" [OF True]) auto
    also have "\<dots> = (\<lambda>x. if i \<le> x - a \<and> x - a < n then m (b + (x - a)) else m x)"
      using True "1.prems" [OF gt] by (auto simp: fun_eq_iff word_le_cases_Suc [OF True] at_i)
    finally show ?thesis .
  next
    case False
    then show ?thesis by (subst memcpy_loop.simps) (auto simp: fun_eq_iff)
  qed
qed

lemma memcpy_copied:
  "(\<And>j k. j < k \<Longrightarrow> k < n \<Longrightarrow> b + k \<noteq> a + j) \<Longrightarrow> memcpy_loop m a b 0 n = copied m a b n"
  by (simp add: memcpy_loop_eq copied_def)

lemma memmove_up_memcpy:
  "i \<le> n \<Longrightarrow> memmove_up m (d + i) (s + i) (n - i) = memcpy_loop m d s i n"
proof (induction m d s i n rule: memcpy_loop.induct)
  case (1 m d s i n)
  show ?case
  proof (cases "i < n")
    case True
    then have "n - i \<noteq> 0" by auto
    then have "memmove_up m (d + i) (s + i) (n - i)
        = memmove_up (m(d + i := m (s + i))) (d + (i + 1)) (s + (i + 1)) (n - (i + 1))"
      by (simp add: memmove_up.simps [of m "d + i"] add.assoc diff_diff_eq)
    also have "\<dots> = memcpy_loop (m(d + i := m (s + i))) d s (i + 1) n"
      by (rule "1.IH" [OF True word_Suc_le [OF True]])
    also have "\<dots> = memcpy_loop m d s i n"
      using True by (simp add: memcpy_loop.simps [of m d s i n])
    finally show ?thesis .
  next
    case False
    with "1.prems" have "i = n" by simp
    then show ?thesis by (simp add: memmove_up.simps memcpy_loop.simps)
  qed
qed

lemma memmove_down_copied:
  assumes "\<And>j k. j < k \<Longrightarrow> k < n \<Longrightarrow> s + j \<noteq> d + k"
  shows "memmove_down m (d + n) (s + n) n = copied m d s n"
  using assms
proof (induction "unat n" arbitrary: n m)
  case 0
  then have "n = 0" by (simp add: unat_eq_0)
  then show ?case by (subst memmove_down.simps) (simp add: copied_def)
next
  case (Suc l)
  then have n: "n \<noteq> 0" by auto
  define k where "k = n - 1"
  have n': "n = k + 1" by (simp add: k_def)
  have k: "l = unat k" using Suc.hyps(2) n by (simp add: k_def unat_minus_one)
  have lt: "j < n \<longleftrightarrow> j < k \<or> j = k" for j using n unfolding k_def by unat_arith
  have kn: "k < n" by (simp add: lt)
  let ?m = "m(d + k := m (s + k))"
  have "memmove_down m (d + n) (s + n) n = memmove_down ?m (d + k) (s + k) k"
    using n by (simp add: memmove_down.simps [of m "d + n"] k_def add_diff_eq)
  also have "\<dots> = copied ?m d s k"
    using Suc.prems kn by (intro Suc.hyps(1) [OF k]) auto
  also have "\<dots> = copied m d s n"
  proof -
    have "x - d = k \<longleftrightarrow> x = d + k" for x by (auto simp: algebra_simps)
    then show ?thesis
      using Suc.prems [OF _ kn] by (auto simp: copied_def fun_eq_iff lt)
  qed
  finally show ?case .
qed

lemma unat_add_no_wrap: "unat a + unat n \<le> 2 ^ 64 \<Longrightarrow> i < n \<Longrightarrow> unat (a + i) = unat a + unat i"
  for a i n :: u64
  by (intro unat_add_lem [THEN iffD1]) (simp add: word_less_nat_alt)

lemma memmove_copied:
  assumes "unat src + unat n \<le> 2 ^ 64" and "unat dest + unat n \<le> 2 ^ 64"
  shows "memmove m dest src n = (copied m dest src n, dest)"
proof (cases "dest \<le> src")
  case True
  have "src + k \<noteq> dest + j" if "j < k" "k < n" for j k
  proof -
    from that have "j < n" by simp
    with that True have "unat (dest + j) < unat (src + k)"
      by (simp add: unat_add_no_wrap [OF assms(1)] unat_add_no_wrap [OF assms(2)]
          word_le_nat_alt [symmetric] word_less_nat_alt [symmetric] add_le_less_mono)
    then show ?thesis by auto
  qed
  then have "memcpy_loop m dest src 0 n = copied m dest src n" by (rule memcpy_copied)
  with True memmove_up_memcpy [of 0 n m dest src] show ?thesis by (simp add: memmove_def)
next
  case False
  have "src + j \<noteq> dest + k" if "j < k" "k < n" for j k
  proof -
    from that have "j < n" by simp
    with that False have "unat (src + j) < unat (dest + k)"
      by (simp add: unat_add_no_wrap [OF assms(1)] unat_add_no_wrap [OF assms(2)]
          word_less_nat_alt [symmetric] add_less_mono)
    then show ?thesis by auto
  qed
  then have "memmove_down m (dest + n) (src + n) n = copied m dest src n"
    by (rule memmove_down_copied)
  with False show ?thesis by (simp add: memmove_def)
qed


subsection \<open>Appending\<close>

lemma strcat_end_cstr: "cstr m a xs \<Longrightarrow> strcat_end m a = Some (a + of_nat (length xs))"
  by (induction xs arbitrary: a) (simp_all add: strcat_end.simps [of m a for a] add.assoc)

lemma of_nat_word_eq_iff:
  "i < 2 ^ 64 \<Longrightarrow> j < 2 ^ 64 \<Longrightarrow> (of_nat i :: u64) = of_nat j \<longleftrightarrow> i = j"
  by (simp add: word_unat_eq_iff unat_of_nat)

text \<open>
  \<open>apart a k b l\<close>: the \<open>k + 1\<close> bytes at \<open>a\<close> (a string of length \<open>k\<close> and its zero)
  and the \<open>l + 1\<close> bytes at \<open>b\<close> do not overlap.
\<close>

definition apart :: "u64 \<Rightarrow> nat \<Rightarrow> u64 \<Rightarrow> nat \<Rightarrow> bool" where
  "apart a k b l \<longleftrightarrow> (\<forall>i \<le> k. \<forall>j \<le> l. a + of_nat i \<noteq> b + of_nat j)"

lemma apartD: "apart a k b l \<Longrightarrow> i \<le> k \<Longrightarrow> j \<le> l \<Longrightarrow> a + of_nat i \<noteq> b + of_nat j"
  by (simp add: apart_def)

lemma apart_Suc: "apart a (Suc k) b (Suc l) \<Longrightarrow> apart (a + 1) k (b + 1) l"
  unfolding apart_def
proof (intro allI impI)
  fix i j assume "\<forall>i \<le> Suc k. \<forall>j \<le> Suc l. a + of_nat i \<noteq> b + of_nat j" "i \<le> k" "j \<le> l"
  then have "a + of_nat (Suc i) \<noteq> b + of_nat (Suc j)" by blast
  then show "a + 1 + of_nat i \<noteq> b + 1 + of_nat j" by (simp add: add.assoc)
qed

lemma strcat_copy_cstr:
  assumes "cstr m src ys" and "apart p (length ys) src (length ys)" and "length ys < 2 ^ 64"
  shows "\<exists>m'. strcat_copy m p src = Some m' \<and> cstr m' p ys
            \<and> (\<forall>x. (\<forall>i \<le> length ys. x \<noteq> p + of_nat i) \<longrightarrow> m' x = m x)"
  using assms
proof (induction ys arbitrary: m p src)
  case Nil
  then have "strcat_copy m p src = Some (m(p := 0))" by (simp add: strcat_copy.simps [of m p])
  then show ?case by auto
next
  case (Cons y ys)
  let ?m = "m(p := y)"
  have sep: "p \<noteq> src + 1 + of_nat i" if "i \<le> length ys" for i
    using apartD [OF Cons.prems(2), of 0 "Suc i"] that by (simp add: add.assoc)
  have "cstr ?m (src + 1) ys \<longleftrightarrow> cstr m (src + 1) ys"
    using sep by (intro cstr_cong) auto
  with Cons.prems(1) have str: "cstr ?m (src + 1) ys" by simp
  have sep': "apart (p + 1) (length ys) (src + 1) (length ys)"
    using Cons.prems(2) by (auto intro: apart_Suc)
  have len: "length ys < 2 ^ 64" using Cons.prems(3) by simp
  from Cons.IH [OF str sep' len]
  obtain m' where m': "strcat_copy ?m (p + 1) (src + 1) = Some m'" "cstr m' (p + 1) ys"
    and frame: "\<And>x. (\<forall>i \<le> length ys. x \<noteq> p + 1 + of_nat i) \<Longrightarrow> m' x = ?m x"
    by blast
  have "p \<noteq> p + 1 + of_nat i" if "i \<le> length ys" for i
    using that Cons.prems(3) of_nat_word_eq_iff [of "Suc i" 0] by (simp add: add.assoc)
  then have "m' p = y" using frame [of p] by auto
  moreover have "m' x = m x" if "\<forall>i \<le> length (y # ys). x \<noteq> p + of_nat i" for x
  proof -
    have "x \<noteq> p" using that [rule_format, of 0] by simp
    moreover have "x \<noteq> p + 1 + of_nat i" if "i \<le> length ys" for i
      using \<open>\<forall>i \<le> length (y # ys). x \<noteq> p + of_nat i\<close> [rule_format, of "Suc i"] that
      by (simp add: add.assoc)
    ultimately show ?thesis using frame [of x] by simp
  qed
  ultimately show ?case
    using Cons.prems(1) m' by (auto simp: strcat_copy.simps [of m p])
qed

text \<open>
  When the source string, with its zero byte, lies apart from the place the result
  will occupy, \<^verbatim>\<open>strcat\<close> returns, its result is the concatenation of the two strings,
  and only the bytes after the old end of the destination have changed.
\<close>

theorem strcat_correct:
  assumes "cstr m dest xs" and "cstr m src ys"
    and "apart (dest + of_nat (length xs)) (length ys) src (length ys)"
    and "length xs + length ys < 2 ^ 64"
  shows "\<exists>m'. strcat m dest src = Some (m', dest) \<and> cstr m' dest (xs @ ys)
            \<and> (\<forall>x. (\<forall>i \<le> length ys. x \<noteq> dest + of_nat (length xs + i)) \<longrightarrow> m' x = m x)"
proof -
  let ?p = "dest + of_nat (length xs)"
  obtain m' where m': "strcat_copy m ?p src = Some m'" "cstr m' ?p ys"
    and frame: "\<And>x. (\<forall>i \<le> length ys. x \<noteq> ?p + of_nat i) \<Longrightarrow> m' x = m x"
    using strcat_copy_cstr [OF assms(2,3)] assms(4) by auto
  have "m' (dest + of_nat i) = m (dest + of_nat i)" if "i < length xs" for i
  proof (rule frame, intro allI impI)
    fix j assume "j \<le> length ys"
    then show "dest + of_nat i \<noteq> ?p + of_nat j"
      using that assms(4) of_nat_word_eq_iff [of i "length xs + j"] by (simp add: add.assoc)
  qed
  then have "cstr m' dest (xs @ ys)"
    using assms(1) m'(2) cstr_nth [OF assms(1)] cstr_append [of m dest xs "[]"]
    by (simp add: cstr_append)
  moreover have "strcat m dest src = Some (m', dest)"
    using m' assms(1) by (simp add: strcat_def strcat_end_cstr)
  ultimately show ?thesis using frame by (auto simp: add.assoc)
qed


text \<open>A concrete layout: \<open>"ab"\<close> at 0, \<open>"c"\<close> at 16, zeros elsewhere.\<close>

definition two_strings :: mem where
  "two_strings = (\<lambda>_. 0)(0 := 97, 1 := 98, 16 := 99)"

lemma two_strings_cstr: "cstr two_strings 0 [97, 98]" "cstr two_strings 16 [99]"
  by (simp_all add: two_strings_def)

theorem strcat_correct_witness:
  "\<exists>m'. strcat two_strings 0 16 = Some (m', 0) \<and> cstr m' 0 [97, 98, 99]"
proof -
  have "apart (0 + of_nat (length [97, 98 :: u8])) (length [99 :: u8]) 16 (length [99 :: u8])"
    by (simp add: apart_def le_Suc_eq)
  from strcat_correct [OF two_strings_cstr this] show ?thesis by auto
qed

text \<open>
  C37. \<^verbatim>\<open>memmove\<close> copies as if through a temporary: whenever neither region wraps around
  the address space, and however the two regions overlap, the destination ends up with the
  bytes the source had before the call, nothing else changes, and the destination pointer
  is returned.
\<close>

theorem memmove_correct:
  assumes "unat src + unat n \<le> 2 ^ 64" and "unat dest + unat n \<le> 2 ^ 64"
  shows "memmove m dest src n
           = ((\<lambda>x. if x - dest < n then m (src + (x - dest)) else m x), dest)"
  using memmove_copied [OF assms] by (simp add: copied_def)

theorem memmove_correct_witness:
  "fst (memmove (\<lambda>a. ucast a) 2 0 5) 6 = 4 \<and> fst (memmove (\<lambda>a. ucast a) 0 2 5) 4 = 6"
  using memmove_correct [of 0 5 2] memmove_correct [of 2 5 0] by simp

text \<open>
  C38. \<^verbatim>\<open>strcmp\<close> decides the lexicographic order of the two strings' bytes: zero exactly
  when they are equal, negative exactly when the first is smaller.
\<close>

theorem strcmp_lex:
  assumes "cstr m a xs" and "cstr m b ys" and "length xs < 2 ^ 63 - 1"
  shows "(strcmp m a b = 0 \<longleftrightarrow> xs = ys) \<and> (strcmp m a b < 0 \<longleftrightarrow> xs < ys)"
  unfolding strcmp_def using assms by (intro strncmp_lex) (simp_all add: SIZE_MAX_def)

theorem strcmp_lex_witness: "strcmp two_strings 0 16 < 0"
  using strcmp_lex [OF two_strings_cstr] by simp

subsection \<open>Searching\<close>

text \<open>\<open>occurs ys xs k\<close>: the string \<open>ys\<close> stands in \<open>xs\<close> at position \<open>k\<close>.\<close>

definition occurs :: "u8 list \<Rightarrow> u8 list \<Rightarrow> nat \<Rightarrow> bool" where
  "occurs ys xs k \<longleftrightarrow> k + length ys \<le> length xs \<and> take (length ys) (drop k xs) = ys"

lemma occurs_0: "occurs ys xs 0 \<longleftrightarrow> length ys \<le> length xs \<and> take (length ys) xs = ys"
  by (simp add: occurs_def)

lemma occurs_Suc: "occurs ys (x # xs) (Suc k) \<longleftrightarrow> occurs ys xs k"
  by (simp add: occurs_def)

lemma memcmp_cstr_prefix:
  assumes "cstr m s1 xs" and "cstr m s2 ys" and "length ys \<le> length xs" and "length xs < 2 ^ 64"
  shows "memcmp m s1 s2 (of_nat (length ys)) = 0 \<longleftrightarrow> occurs ys xs 0"
proof -
  have "(\<forall>i < of_nat (length ys). m (s1 + i) = m (s2 + i))
      \<longleftrightarrow> (\<forall>k < length ys. m (s1 + of_nat k) = m (s2 + of_nat k))"
  proof -
    have "\<exists>k < length ys. i = of_nat k" if "i < of_nat (length ys)" for i :: u64
      using that assms(3,4) by (intro exI [of _ "unat i"]) (simp add: word_less_nat_alt unat_of_nat)
    moreover have "(of_nat k :: u64) < of_nat (length ys)" if "k < length ys" for k
      using that assms(3,4) by (simp add: word_less_nat_alt unat_of_nat)
    ultimately show ?thesis by metis
  qed
  also have "\<dots> \<longleftrightarrow> (\<forall>k < length ys. xs ! k = ys ! k)"
    using assms by (simp add: cstr_nth)
  also have "\<dots> \<longleftrightarrow> occurs ys xs 0"
    using assms(3) by (auto simp: occurs_0 list_eq_iff_nth_eq)
  finally show ?thesis by (simp add: memcmp_eq_0)
qed

lemma strstr_loop_spec:
  assumes "cstr m s1 xs" and "cstr m s2 ys" and "ys \<noteq> []" and "length xs < 2 ^ 64"
    and "length ys < 2 ^ 64"
  shows "(\<exists>k. strstr_loop m s1 s2 (of_nat (length xs)) (of_nat (length ys)) = Some (s1 + of_nat k)
             \<and> occurs ys xs k \<and> (\<forall>j < k. \<not> occurs ys xs j))
       \<or> strstr_loop m s1 s2 (of_nat (length xs)) (of_nat (length ys)) = Some NULL
             \<and> (\<forall>k. \<not> occurs ys xs k)"
  using assms
proof (induction xs arbitrary: s1)
  case Nil
  then have "\<not> (of_nat (length ys) :: u64) \<le> 0" by (simp add: word_le_nat_alt unat_of_nat)
  with Nil.prems show ?case
    by (simp add: strstr_loop.simps [of m s1] occurs_def)
next
  case (Cons x xs)
  have le: "(of_nat (length ys) :: u64) \<le> of_nat (length (x # xs)) \<longleftrightarrow> length ys \<le> length (x # xs)"
    using Cons.prems(4,5) by (simp add: word_le_nat_alt unat_of_nat del: of_nat_Suc)
  consider (short) "\<not> length ys \<le> length (x # xs)"
    | (here) "length ys \<le> length (x # xs)" "occurs ys (x # xs) 0"
    | (later) "length ys \<le> length (x # xs)" "\<not> occurs ys (x # xs) 0" by blast
  then show ?case
  proof cases
    case short
    with le have "strstr_loop m s1 s2 (of_nat (length (x # xs))) (of_nat (length ys)) = Some NULL"
      by (simp only: strstr_loop.simps [of m s1] if_False)
    with short show ?thesis by (auto simp: occurs_def)
  next
    case here
    with le memcmp_cstr_prefix [OF Cons.prems(1,2)] Cons.prems(4)
    have "strstr_loop m s1 s2 (of_nat (length (x # xs))) (of_nat (length ys)) = Some s1"
      by (simp only: strstr_loop.simps [of m s1] if_True)
    with here show ?thesis by (intro disjI1 exI [of _ 0]) simp
  next
    case later
    have cmp: "memcmp m s1 s2 (of_nat (length ys)) \<noteq> 0"
      using later memcmp_cstr_prefix [OF Cons.prems(1,2) later(1) Cons.prems(4)] by simp
    have step: "strstr_loop m s1 s2 (of_nat (length (x # xs))) (of_nat (length ys))
        = strstr_loop m (s1 + 1) s2 (of_nat (length xs)) (of_nat (length ys))"
      using later le cmp by (simp add: strstr_loop.simps [of m s1])
    have "cstr m (s1 + 1) xs" "length xs < 2 ^ 64" using Cons.prems(1,4) by simp_all
    from Cons.IH [OF this(1) Cons.prems(2,3) this(2) Cons.prems(5)]
    consider (found) k where "occurs ys xs k" "\<forall>j < k. \<not> occurs ys xs j"
        "strstr_loop m (s1 + 1) s2 (of_nat (length xs)) (of_nat (length ys)) = Some (s1 + 1 + of_nat k)"
      | (none) "\<forall>k. \<not> occurs ys xs k"
        "strstr_loop m (s1 + 1) s2 (of_nat (length xs)) (of_nat (length ys)) = Some NULL" by blast
    then show ?thesis
    proof cases
      case found
      have "\<not> occurs ys (x # xs) j" if "j < Suc k" for j
        using that found(2) later(2) by (cases j) (auto simp: occurs_Suc)
      with found show ?thesis
        by (intro disjI1 exI [of _ "Suc k"]) (simp add: step [simplified] occurs_Suc add.assoc)
    next
      case none
      have "\<not> occurs ys (x # xs) j" for j
        using none(1) later(2) by (cases j) (auto simp: occurs_Suc)
      with none show ?thesis by (simp add: step [simplified])
    qed
  qed
qed

text \<open>
  \<^verbatim>\<open>strstr\<close> returns the address of the first occurrence of a non-empty needle in the
  haystack, and the null pointer exactly when there is none.
\<close>

theorem strstr_first:
  assumes "cstr m s1 xs" and "cstr m s2 ys" and "ys \<noteq> []"
    and "length xs < 2 ^ 64" and "length ys < 2 ^ 64"
  shows "(\<exists>k. strstr m s1 s2 = Some (s1 + of_nat k) \<and> occurs ys xs k \<and> (\<forall>j < k. \<not> occurs ys xs j))
       \<or> strstr m s1 s2 = Some NULL \<and> (\<forall>k. \<not> occurs ys xs k)"
proof -
  have "(of_nat (length ys) :: u64) \<noteq> 0"
    using assms(3,5) of_nat_word_eq_iff [of "length ys" 0] by simp
  then have "strstr m s1 s2 = strstr_loop m s1 s2 (of_nat (length xs)) (of_nat (length ys))"
    using assms(1,2) by (simp add: strstr_def strlen_cstr)
  with strstr_loop_spec [OF assms] show ?thesis by simp
qed

theorem strstr_first_witness:
  "(\<exists>k. strstr two_strings 0 16 = Some (of_nat k) \<and> occurs [99] [97, 98] k \<and> (\<forall>j < k. \<not> occurs [99] [97, 98] j))
       \<or> strstr two_strings 0 16 = Some NULL \<and> (\<forall>k. \<not> occurs [99] [97, 98] k)"
  using strstr_first [OF two_strings_cstr] by simp

lemma strchr_loop_cstr:
  assumes "cstr m s xs" and "c \<noteq> 0"
  shows "strchr_loop m s c =
     Some (if c \<in> set xs then s + of_nat (length (takeWhile (\<lambda>x. x \<noteq> c) xs)) else NULL)"
  using assms
  by (induction xs arbitrary: s) (auto simp: strchr_loop.simps [of m s for s] add.assoc)

end
