(* ===== verification/Links.thy ===== *)
theory Links
  imports Prelude
begin

text \<open>
  The heap of two-pointer nodes that \<^verbatim>\<open>lib/list.c\<close> and \<^verbatim>\<open>lib/queue.c\<close> link into
  chains, the chain predicate both components are specified with, and the interface of a
  first-in first-out queue that both implement. A heap maps the address of each allocated
  node to its two pointers; reading or writing through any other address, the null pointer
  in particular, is a fault, the value \<open>None\<close>.
\<close>

record link =
  lk_prev :: u64
  lk_next :: u64

type_synonym heap = "u64 \<rightharpoonup> link"

definition get_prev :: "heap \<Rightarrow> u64 \<Rightarrow> u64 option" where
  "get_prev h p = map_option lk_prev (h p)"

definition get_next :: "heap \<Rightarrow> u64 \<Rightarrow> u64 option" where
  "get_next h p = map_option lk_next (h p)"

definition set_prev :: "heap \<Rightarrow> u64 \<Rightarrow> u64 \<Rightarrow> heap option" where
  "set_prev h p v = map_option (\<lambda>n. h(p \<mapsto> n\<lparr>lk_prev := v\<rparr>)) (h p)"

definition set_next :: "heap \<Rightarrow> u64 \<Rightarrow> u64 \<Rightarrow> heap option" where
  "set_next h p v = map_option (\<lambda>n. h(p \<mapsto> n\<lparr>lk_next := v\<rparr>)) (h p)"

lemmas link_access = get_prev_def get_next_def set_prev_def set_next_def

subsection \<open>Chains\<close>

text \<open>
  \<open>dseg h a xs b\<close>: the nodes \<open>xs\<close> are linked in this order, in both directions; before
  the first stands \<open>a\<close>, after the last stands \<open>b\<close>.
\<close>

primrec dseg :: "heap \<Rightarrow> u64 \<Rightarrow> u64 list \<Rightarrow> u64 \<Rightarrow> bool" where
  "dseg h a [] b \<longleftrightarrow> True"
| "dseg h a (x # xs) b \<longleftrightarrow> h x = Some \<lparr>lk_prev = a, lk_next = hd (xs @ [b])\<rparr> \<and> dseg h x xs b"

lemma dseg_append:
  "dseg h a (xs @ ys) b \<longleftrightarrow> dseg h a xs (hd (ys @ [b])) \<and> dseg h (last (a # xs)) ys b"
  by (induction xs arbitrary: a) (auto simp: hd_append split: if_splits)

lemma dseg_frame: "(\<And>x. x \<in> set xs \<Longrightarrow> h' x = h x) \<Longrightarrow> dseg h' a xs b = dseg h a xs b"
  by (induction xs arbitrary: a) auto

lemma dseg_upd [simp]: "p \<notin> set xs \<Longrightarrow> dseg (h(p \<mapsto> n)) a xs b = dseg h a xs b"
  by (rule dseg_frame) auto

lemma dseg_alloc: "dseg h a xs b \<Longrightarrow> x \<in> set xs \<Longrightarrow> h x \<noteq> None"
  by (induction xs arbitrary: a) auto

text \<open>Changing what stands before the first or after the last node.\<close>

lemma dseg_snoc: "dseg h a (xs @ [x]) b \<longleftrightarrow>
    dseg h a xs x \<and> h x = Some \<lparr>lk_prev = last (a # xs), lk_next = b\<rparr>"
  by (simp add: dseg_append)

subsection \<open>First in, first out\<close>

text \<open>
  What a client of a linked queue relies on: \<open>abs s xs\<close> says that the queue in state
  \<open>s\<close> holds the nodes \<open>xs\<close>, \<open>avail s x\<close> that the node \<open>x\<close> may be linked.
\<close>

locale fifo =
  fixes enq :: "'s \<Rightarrow> u64 \<Rightarrow> 's option" and deq :: "'s \<Rightarrow> ('s \<times> u64) option"
    and abs :: "'s \<Rightarrow> u64 list \<Rightarrow> bool" and avail :: "'s \<Rightarrow> u64 \<Rightarrow> bool" and cap :: nat
  assumes enq_ok: "abs s xs \<Longrightarrow> avail s x \<Longrightarrow> x \<notin> set xs \<Longrightarrow> length xs < cap \<Longrightarrow>
      \<exists>s'. enq s x = Some s' \<and> abs s' (xs @ [x]) \<and> (\<forall>y. avail s y \<longrightarrow> avail s' y)"
    and deq_ok: "abs s (x # xs) \<Longrightarrow> \<exists>s'. deq s = Some (s', x) \<and> abs s' xs"

primrec enq_all :: "('s \<Rightarrow> u64 \<Rightarrow> 's option) \<Rightarrow> 's \<Rightarrow> u64 list \<Rightarrow> 's option" where
  "enq_all enq s [] = Some s"
| "enq_all enq s (x # xs) = enq s x \<bind> (\<lambda>s'. enq_all enq s' xs)"

primrec deq_n :: "('s \<Rightarrow> ('s \<times> u64) option) \<Rightarrow> 's \<Rightarrow> nat \<Rightarrow> ('s \<times> u64 list) option" where
  "deq_n deq s 0 = Some (s, [])"
| "deq_n deq s (Suc n) =
     deq s \<bind> (\<lambda>(s', x). deq_n deq s' n \<bind> (\<lambda>(s'', xs). Some (s'', x # xs)))"

context fifo
begin

lemma enq_all_ok:
  assumes "abs s xs" and "\<And>y. y \<in> set ys \<Longrightarrow> avail s y" and "distinct (xs @ ys)"
    and "length xs + length ys \<le> cap"
  shows "\<exists>s'. enq_all enq s ys = Some s' \<and> abs s' (xs @ ys)"
  using assms
proof (induction ys arbitrary: s xs)
  case (Cons y ys)
  obtain s' where s': "enq s y = Some s'" "abs s' (xs @ [y])" "\<And>z. avail s z \<Longrightarrow> avail s' z"
    using enq_ok [OF Cons.prems(1), of y] Cons.prems by auto
  moreover have "\<exists>s''. enq_all enq s' ys = Some s'' \<and> abs s'' ((xs @ [y]) @ ys)"
    using Cons.prems s' by (intro Cons.IH) auto
  ultimately show ?case by auto
qed simp

lemma deq_n_ok: "abs s (xs @ ys) \<Longrightarrow> \<exists>s'. deq_n deq s (length xs) = Some (s', xs) \<and> abs s' ys"
proof (induction xs arbitrary: s)
  case (Cons x xs)
  then obtain s' where s': "deq s = Some (s', x)" "abs s' (xs @ ys)" using deq_ok by fastforce
  with Cons.IH [OF s'(2)] show ?case by auto
qed simp

lemma fifo_order:
  assumes "abs s []" and "\<And>y. y \<in> set ys \<Longrightarrow> avail s y" and "distinct ys" and "length ys \<le> cap"
  shows "\<exists>s' s''. enq_all enq s ys = Some s' \<and> deq_n deq s' (length ys) = Some (s'', ys) \<and> abs s'' []"
proof -
  from enq_all_ok [OF assms(1,2)] assms(3,4) obtain s' where
    s': "enq_all enq s ys = Some s'" "abs s' (ys @ [])" by auto
  with deq_n_ok [OF s'(2)] show ?thesis by blast
qed

end

end
