(* ===== verification/Klist.thy ===== *)
theory Klist
  imports Links
begin

text \<open>
  The intrusive doubly linked list of \<^verbatim>\<open>include/list.h\<close> and \<^verbatim>\<open>lib/list.c\<close>: a header with
  the first node, the last node and a 32-bit count, and nodes in the heap of \<open>Links\<close>.
  Every operation returns \<open>None\<close> if it goes through a pointer to no allocated node.
\<close>

subsection \<open>Model\<close>

type_synonym list_node_t = link

record list_t =
  l_first :: u64
  l_last :: u64
  l_count :: u32

definition list_init :: "list_t \<Rightarrow> list_t" where
  "list_init l = l\<lparr>l_first := 0, l_last := 0, l_count := 0\<rparr>"

definition list_node_init :: "heap \<Rightarrow> u64 \<Rightarrow> heap option" where
  "list_node_init h node = do {
     h \<leftarrow> set_next h node 0;
     set_prev h node 0
   }"

definition list_is_empty :: "list_t \<Rightarrow> bool" where
  "list_is_empty l \<longleftrightarrow> l_count l = 0"

definition list_insert_first :: "heap \<Rightarrow> list_t \<Rightarrow> u64 \<Rightarrow> (heap \<times> list_t) option" where
  "list_insert_first h l node = do {
     h \<leftarrow> set_next h node (l_first l);
     h \<leftarrow> set_prev h node 0;
     (h, l) \<leftarrow>
       (if list_is_empty l then Some (h, l\<lparr>l_first := node, l_last := node\<rparr>)
        else do {
          h \<leftarrow> set_prev h (l_first l) node;
          Some (h, l\<lparr>l_first := node\<rparr>)
        });
     Some (h, l\<lparr>l_count := l_count l + 1\<rparr>)
   }"

definition list_insert_last :: "heap \<Rightarrow> list_t \<Rightarrow> u64 \<Rightarrow> (heap \<times> list_t) option" where
  "list_insert_last h l node = do {
     h \<leftarrow> set_prev h node (l_last l);
     h \<leftarrow> set_next h node 0;
     (h, l) \<leftarrow>
       (if list_is_empty l then Some (h, l\<lparr>l_first := node, l_last := node\<rparr>)
        else do {
          h \<leftarrow> set_next h (l_last l) node;
          Some (h, l\<lparr>l_last := node\<rparr>)
        });
     Some (h, l\<lparr>l_count := l_count l + 1\<rparr>)
   }"

definition list_delete_first :: "heap \<Rightarrow> list_t \<Rightarrow> ((heap \<times> list_t) \<times> u64) option" where
  "list_delete_first h l =
     (if list_is_empty l then Some ((h, l), 0)
      else do {
        let remove_node = l_first l;
        nxt \<leftarrow> get_next h remove_node;
        let l = l\<lparr>l_first := nxt\<rparr>;
        (h, l) \<leftarrow>
          (if nxt = 0 then Some (h, l\<lparr>l_last := 0\<rparr>)
           else do {
             h \<leftarrow> set_prev h nxt 0;
             Some (h, l)
           });
        h \<leftarrow> set_next h remove_node 0;
        h \<leftarrow> set_prev h remove_node 0;
        Some ((h, l\<lparr>l_count := l_count l - 1\<rparr>), remove_node)
      })"

definition list_delete :: "heap \<Rightarrow> list_t \<Rightarrow> u64 \<Rightarrow> ((heap \<times> list_t) \<times> u64) option" where
  "list_delete h l node = do {
     l \<leftarrow> (if node = l_first l
          then do { nxt \<leftarrow> get_next h node; Some (l\<lparr>l_first := nxt\<rparr>) } else Some l);
     l \<leftarrow> (if node = l_last l
          then do { prv \<leftarrow> get_prev h node; Some (l\<lparr>l_last := prv\<rparr>) } else Some l);
     prv \<leftarrow> get_prev h node;
     h \<leftarrow> (if prv \<noteq> 0 then do { nxt \<leftarrow> get_next h node; set_next h prv nxt } else Some h);
     nxt \<leftarrow> get_next h node;
     h \<leftarrow> (if nxt \<noteq> 0 then do { prv \<leftarrow> get_prev h node; set_prev h nxt prv } else Some h);
     h \<leftarrow> set_next h node 0;
     h \<leftarrow> set_prev h node 0;
     Some ((h, l\<lparr>l_count := l_count l - 1\<rparr>), node)
   }"

subsection \<open>Representation\<close>

text \<open>
  \<open>dlist h l xs\<close>: the header \<open>l\<close> and the heap represent the node sequence \<open>xs\<close>. The
  count is a C \<^verbatim>\<open>int\<close>, so a represented list is shorter than \<open>2\<^sup>3\<^sup>1\<close>.
\<close>

definition dlist :: "heap \<Rightarrow> list_t \<Rightarrow> u64 list \<Rightarrow> bool" where
  "dlist h l xs \<longleftrightarrow> dseg h 0 xs 0 \<and> distinct xs \<and> 0 \<notin> set xs \<and> length xs < 2 ^ 31
     \<and> l_first l = hd (xs @ [0]) \<and> l_last l = last (0 # xs) \<and> l_count l = of_nat (length xs)"

definition avail_node :: "heap \<Rightarrow> u64 \<Rightarrow> bool" where
  "avail_node h x \<longleftrightarrow> x \<noteq> 0 \<and> h x \<noteq> None"

lemma dlist_empty: "dlist h l xs \<Longrightarrow> list_is_empty l \<longleftrightarrow> xs = []"
  by (auto simp: dlist_def list_is_empty_def word_unat_eq_iff unat_of_nat)

lemma dlist_init: "dlist h (list_init l) []"
  by (simp add: dlist_def list_init_def)

subsection \<open>Insertion\<close>

lemma list_insert_first_dlist:
  assumes "dlist h l xs" and "avail_node h x" and "x \<notin> set xs" and "length xs < 2 ^ 31 - 1"
  shows "\<exists>h' l'. list_insert_first h l x = Some (h', l') \<and> dlist h' l' (x # xs)
           \<and> (\<forall>y. y \<notin> set (x # xs) \<longrightarrow> h' y = h y)"
proof (cases xs)
  case Nil
  with assms show ?thesis
    using dlist_empty [OF assms(1)]
    by (auto simp: dlist_def avail_node_def list_insert_first_def link_access)
next
  case (Cons y ys)
  with assms show ?thesis
    using dlist_empty [OF assms(1)]
    by (auto simp: dlist_def avail_node_def list_insert_first_def link_access)
qed

lemma list_insert_last_dlist:
  assumes "dlist h l xs" and "avail_node h x" and "x \<notin> set xs" and "length xs < 2 ^ 31 - 1"
  shows "\<exists>h' l'. list_insert_last h l x = Some (h', l') \<and> dlist h' l' (xs @ [x])
           \<and> (\<forall>y. y \<notin> set (xs @ [x]) \<longrightarrow> h' y = h y)"
proof (cases xs rule: rev_cases)
  case Nil
  with assms show ?thesis
    using dlist_empty [OF assms(1)]
    by (auto simp: dlist_def avail_node_def list_insert_last_def link_access)
next
  case (snoc ys y)
  with assms show ?thesis
    using dlist_empty [OF assms(1)]
    by (auto simp: dlist_def avail_node_def list_insert_last_def link_access dseg_append hd_append)
qed


subsection \<open>Removal\<close>

lemma list_delete_first_nil:
  "dlist h l [] \<Longrightarrow> list_delete_first h l = Some ((h, l), 0)"
  by (simp add: list_delete_first_def dlist_empty)

lemma list_delete_first_dlist:
  assumes "dlist h l (x # xs)"
  shows "\<exists>h' l'. list_delete_first h l = Some ((h', l'), x) \<and> dlist h' l' xs
           \<and> h' x = Some \<lparr>lk_prev = 0, lk_next = 0\<rparr> \<and> (\<forall>y. y \<notin> set (x # xs) \<longrightarrow> h' y = h y)"
proof (cases xs)
  case Nil
  with assms show ?thesis
    using dlist_empty [OF assms]
    by (auto simp: dlist_def list_delete_first_def link_access)
next
  case (Cons y ys)
  with assms show ?thesis
    using dlist_empty [OF assms]
    by (auto simp: dlist_def list_delete_first_def link_access)
qed

lemma list_delete_dlist:
  assumes "dlist h l (xs @ x # ys)"
  shows "\<exists>h' l'. list_delete h l x = Some ((h', l'), x) \<and> dlist h' l' (xs @ ys)
           \<and> h' x = Some \<lparr>lk_prev = 0, lk_next = 0\<rparr>
           \<and> (\<forall>y. y \<notin> set (xs @ x # ys) \<longrightarrow> h' y = h y)"
proof -
  have first: "l_first l = x \<longleftrightarrow> xs = []" and last: "l_last l = x \<longleftrightarrow> ys = []"
    using assms by (auto simp: dlist_def hd_append dest: hd_in_set last_in_set)
  consider "xs = []" "ys = []" | z zs where "xs = []" "ys = z # zs"
    | w ws where "xs = ws @ [w]" "ys = []" | w ws z zs where "xs = ws @ [w]" "ys = z # zs"
    by (metis neq_Nil_conv rev_exhaust)
  then show ?thesis
    using assms first last
    by cases (auto simp: dlist_def list_delete_def link_access dseg_append hd_append
        eq_commute [of x "l_first l"] eq_commute [of x "l_last l"])
qed

subsection \<open>The list as a queue\<close>

interpretation kl: fifo "\<lambda>(h, l) x. list_insert_last h l x" "\<lambda>(h, l). list_delete_first h l"
    "\<lambda>(h, l). dlist h l" "\<lambda>(h, l). avail_node h" "2 ^ 31 - 1"
proof unfold_locales
  fix s :: "heap \<times> list_t" and xs x
  obtain h l where s: "s = (h, l)" by fastforce
  assume "(case s of (h, l) \<Rightarrow> dlist h l) xs" "(case s of (h, l) \<Rightarrow> avail_node h) x"
    "x \<notin> set xs" "length xs < 2 ^ 31 - 1"
  then have d: "dlist h l xs" "avail_node h x" "x \<notin> set xs" "length xs < 2 ^ 31 - 1"
    by (simp_all add: s)
  from list_insert_last_dlist [OF this] obtain h' l' where
    r: "list_insert_last h l x = Some (h', l')" "dlist h' l' (xs @ [x])"
      "\<And>y. y \<notin> set (xs @ [x]) \<Longrightarrow> h' y = h y" by blast
  have "avail_node h' y" if "avail_node h y" for y
    using that r(3) [of y] r(2) dseg_alloc [of h' 0 "xs @ [x]" 0 y]
    by (cases "y \<in> set (xs @ [x])") (auto simp: avail_node_def dlist_def)
  with r show "\<exists>s'. (case s of (h, l) \<Rightarrow> list_insert_last h l) x = Some s'
      \<and> (case s' of (h, l) \<Rightarrow> dlist h l) (xs @ [x])
      \<and> (\<forall>y. (case s of (h, l) \<Rightarrow> avail_node h) y \<longrightarrow> (case s' of (h, l) \<Rightarrow> avail_node h) y)"
    by (intro exI [of _ "(h', l')"]) (simp add: s)
next
  fix s :: "heap \<times> list_t" and xs x
  assume "(case s of (h, l) \<Rightarrow> dlist h l) (x # xs)"
  then show "\<exists>s'. (case s of (h, l) \<Rightarrow> list_delete_first h l) = Some (s', x)
      \<and> (case s' of (h, l) \<Rightarrow> dlist h l) xs"
    using list_delete_first_dlist by (cases s) fastforce
qed

subsection \<open>Properties\<close>

text \<open>
  C39. \<^verbatim>\<open>list_delete\<close> removes a node from any position of a well-formed list without going
  through a null pointer: the remaining nodes stay linked in order in both directions, the
  header agrees with them, the removed node's pointers are cleared, and no node outside the
  list changes.
\<close>

theorem list_delete_correct:
  assumes "dlist h l (xs @ x # ys)"
  shows "\<exists>h' l'. list_delete h l x = Some ((h', l'), x) \<and> dlist h' l' (xs @ ys)
           \<and> h' x = Some \<lparr>lk_prev = 0, lk_next = 0\<rparr>
           \<and> (\<forall>y. y \<notin> set (xs @ x # ys) \<longrightarrow> h' y = h y)"
  by (rule list_delete_dlist [OF assms])

definition three_nodes :: heap where
  "three_nodes = [16 \<mapsto> \<lparr>lk_prev = 0, lk_next = 32\<rparr>, 32 \<mapsto> \<lparr>lk_prev = 16, lk_next = 48\<rparr>,
     48 \<mapsto> \<lparr>lk_prev = 32, lk_next = 0\<rparr>]"

theorem list_delete_correct_witness:
  "\<exists>h' l'. list_delete three_nodes \<lparr>l_first = 16, l_last = 48, l_count = 3\<rparr> 32 = Some ((h', l'), 32)
     \<and> dlist h' l' [16, 48]"
proof -
  have "dlist three_nodes \<lparr>l_first = 16, l_last = 48, l_count = 3\<rparr> ([16] @ 32 # [48])"
    by (simp add: dlist_def three_nodes_def)
  from list_delete_correct [OF this] show ?thesis by auto
qed

text \<open>
  Used as a queue, the list is first in, first out: from an initialised header,
  inserting any distinct allocated nodes with \<^verbatim>\<open>list_insert_last\<close> and then calling
  \<^verbatim>\<open>list_delete_first\<close> as often returns them in the order of insertion, without a fault,
  and leaves the list empty.
\<close>

theorem list_fifo:
  assumes "distinct ys" and "\<And>y. y \<in> set ys \<Longrightarrow> avail_node h y" and "length ys < 2 ^ 31"
  shows "\<exists>s' h' l'. enq_all (\<lambda>(h, l) x. list_insert_last h l x) (h, list_init l) ys = Some s'
     \<and> deq_n (\<lambda>(h, l). list_delete_first h l) s' (length ys) = Some ((h', l'), ys) \<and> dlist h' l' []"
  using kl.fifo_order [of "(h, list_init l)" ys] assms by (auto simp: dlist_init)

theorem list_fifo_witness:
  "\<exists>s' h' l'. enq_all (\<lambda>(h, l) x. list_insert_last h l x)
       (three_nodes, list_init \<lparr>l_first = 1, l_last = 2, l_count = 3\<rparr>) [48, 16] = Some s'
     \<and> deq_n (\<lambda>(h, l). list_delete_first h l) s' (length [48, 16 :: u64]) = Some ((h', l'), [48, 16])
     \<and> dlist h' l' []"
  by (rule list_fifo) (auto simp: avail_node_def three_nodes_def)

end
