(* ===== verification/Kqueue.thy ===== *)
theory Kqueue
  imports Links
begin

text \<open>
  The sentinel queue of \<^verbatim>\<open>lib/queue.c\<close>: a \<^verbatim>\<open>queue_t\<close> at address \<open>ls\<close> holds two sentinel
  nodes, the head at \<open>ls\<close> and the tail sixteen bytes further; the queued nodes are linked
  between them. The two loops that follow \<^verbatim>\<open>next\<close> pointers run forever on a cyclic heap, so
  they are partial functions; there \<open>None\<close> means that the call faults or never returns.
  The console messages of the error branches are not modelled.
\<close>

subsection \<open>Model\<close>

type_synonym queue_node_t = link

definition q_head :: "u64 \<Rightarrow> u64" where
  "q_head ls = ls"

definition q_tail :: "u64 \<Rightarrow> u64" where
  "q_tail ls = ls + 16"

definition queue_remove :: "heap \<Rightarrow> u64 \<Rightarrow> heap option" where
  "queue_remove h que = do {
     p \<leftarrow> get_prev h que;
     n \<leftarrow> get_next h que;
     h \<leftarrow> set_next h p n;
     n \<leftarrow> get_next h que;
     p \<leftarrow> get_prev h que;
     h \<leftarrow> set_prev h n p;
     h \<leftarrow> set_prev h que 0;
     set_next h que 0
   }"

definition queue_insert :: "heap \<Rightarrow> u64 \<Rightarrow> u64 \<Rightarrow> heap option" where
  "queue_insert h que prev =
     (if que = 0 \<or> prev = 0 then Some h
      else do {
        n \<leftarrow> get_next h prev;
        h \<leftarrow> set_next h que n;
        n \<leftarrow> get_next h que;
        h \<leftarrow> set_prev h n que;
        h \<leftarrow> set_prev h que prev;
        set_next h prev que
      })"

definition queue_insert_prev :: "heap \<Rightarrow> u64 \<Rightarrow> u64 \<Rightarrow> heap option" where
  "queue_insert_prev h que nxt =
     (if que = 0 \<or> nxt = 0 then Some h
      else do {
        p \<leftarrow> get_prev h nxt;
        h \<leftarrow> set_prev h que p;
        p \<leftarrow> get_prev h que;
        h \<leftarrow> set_next h p que;
        h \<leftarrow> set_next h que nxt;
        set_prev h nxt que
      })"

definition queue_list_init :: "heap \<Rightarrow> u64 \<Rightarrow> heap option" where
  "queue_list_init h ls = do {
     h \<leftarrow> set_prev h (q_head ls) 0;
     h \<leftarrow> set_next h (q_head ls) (q_tail ls);
     h \<leftarrow> set_prev h (q_tail ls) (q_head ls);
     set_next h (q_tail ls) 0
   }"

definition queue_list_enque :: "heap \<Rightarrow> u64 \<Rightarrow> u64 \<Rightarrow> heap option" where
  "queue_list_enque h ls que = do {
     p \<leftarrow> get_prev h (q_tail ls);
     queue_insert h que p
   }"

definition queue_list_is_empty :: "heap \<Rightarrow> u64 \<Rightarrow> bool option" where
  "queue_list_is_empty h ls = do {
     n \<leftarrow> get_next h (q_head ls);
     nn \<leftarrow> get_next h n;
     Some (nn = 0)
   }"

definition queue_list_top :: "heap \<Rightarrow> u64 \<Rightarrow> u64 option" where
  "queue_list_top h ls = do {
     e \<leftarrow> queue_list_is_empty h ls;
     if e then Some 0 else get_next h (q_head ls)
   }"

definition queue_list_pop :: "heap \<Rightarrow> u64 \<Rightarrow> (heap \<times> u64) option" where
  "queue_list_pop h ls = do {
     e \<leftarrow> queue_list_is_empty h ls;
     if e then Some (h, 0)
     else do {
       que \<leftarrow> get_next h (q_head ls);
       h \<leftarrow> queue_remove h que;
       Some (h, que)
     }
   }"

partial_function (option) check_loop :: "heap \<Rightarrow> u64 \<Rightarrow> u64 \<Rightarrow> bool option" where
  "check_loop h tail tmp = do {
     n \<leftarrow> get_next h tmp;
     if n \<noteq> 0
     then do {
       np \<leftarrow> get_prev h n;
       if np \<noteq> tmp then Some False
       else do {
         p \<leftarrow> get_prev h n;
         pn \<leftarrow> get_next h p;
         if pn \<noteq> n then Some False else check_loop h tail n
       }
     }
     else Some (tail = tmp)
   }"

definition queue_list_check :: "heap \<Rightarrow> u64 \<Rightarrow> bool option" where
  "queue_list_check h ls = do {
     p \<leftarrow> get_prev h (q_head ls);
     if p \<noteq> 0 then Some False
     else do {
       n \<leftarrow> get_next h (q_tail ls);
       if n \<noteq> 0 then Some False else check_loop h (q_tail ls) (q_head ls)
     }
   }"

partial_function (option) print_loop :: "heap \<Rightarrow> u64 \<Rightarrow> u64 \<Rightarrow> unit option" where
  "print_loop h tail tmp =
     (if tmp \<noteq> tail
      then do {
        n \<leftarrow> get_next h tmp;
        if tmp = n then Some () else print_loop h tail n
      }
      else Some ())"

definition queue_list_print :: "heap \<Rightarrow> u64 \<Rightarrow> unit option" where
  "queue_list_print h ls = do {
     n \<leftarrow> get_next h (q_head ls);
     print_loop h (q_tail ls) n
   }"

partial_function (option) find_loop :: "heap \<Rightarrow> u64 \<Rightarrow> u64 \<Rightarrow> u64 \<Rightarrow> bool option" where
  "find_loop h tail que tmp =
     (if tmp \<noteq> tail
      then (if tmp = que then Some True
            else do {
              n \<leftarrow> get_next h tmp;
              find_loop h tail que n
            })
      else Some False)"

definition queue_list_find :: "heap \<Rightarrow> u64 \<Rightarrow> u64 \<Rightarrow> bool option" where
  "queue_list_find h ls que = do {
     n \<leftarrow> get_next h (q_head ls);
     find_loop h (q_tail ls) que n
   }"

subsection \<open>Representation\<close>

text \<open>\<open>queue_at h ls xs\<close>: the queue at \<open>ls\<close> holds the nodes \<open>xs\<close>, front first.\<close>

definition chain :: "u64 \<Rightarrow> u64 list \<Rightarrow> u64 list" where
  "chain ls xs = q_head ls # xs @ [q_tail ls]"

definition queue_at :: "heap \<Rightarrow> u64 \<Rightarrow> u64 list \<Rightarrow> bool" where
  "queue_at h ls xs \<longleftrightarrow> dseg h 0 (chain ls xs) 0 \<and> distinct (chain ls xs) \<and> 0 \<notin> set (chain ls xs)"

lemmas queue_defs = queue_at_def chain_def q_head_def q_tail_def

lemma queue_insert_after:
  assumes "dseg h 0 (as @ a # b # bs) 0" and "distinct (as @ a # b # bs)"
    and "0 \<notin> set (as @ a # b # bs)" and "x \<noteq> 0" "h x \<noteq> None" "x \<notin> set (as @ a # b # bs)"
  shows "\<exists>h'. queue_insert h x a = Some h' \<and> dseg h' 0 (as @ a # x # b # bs) 0
           \<and> (\<forall>y. y \<notin> {a, x, b} \<longrightarrow> h' y = h y)"
  using assms by (auto simp: queue_insert_def link_access dseg_append)

lemma queue_insert_before:
  assumes "dseg h 0 (as @ a # b # bs) 0" and "distinct (as @ a # b # bs)"
    and "0 \<notin> set (as @ a # b # bs)" and "x \<noteq> 0" "h x \<noteq> None" "x \<notin> set (as @ a # b # bs)"
  shows "\<exists>h'. queue_insert_prev h x b = Some h' \<and> dseg h' 0 (as @ a # x # b # bs) 0
           \<and> (\<forall>y. y \<notin> {a, x, b} \<longrightarrow> h' y = h y)"
  using assms by (auto simp: queue_insert_prev_def link_access dseg_append)

lemma queue_remove_between:
  assumes "dseg h 0 (as @ a # x # b # bs) 0" and "distinct (as @ a # x # b # bs)"
  shows "\<exists>h'. queue_remove h x = Some h' \<and> dseg h' 0 (as @ a # b # bs) 0
           \<and> h' x = Some \<lparr>lk_prev = 0, lk_next = 0\<rparr> \<and> (\<forall>y. y \<notin> {a, x, b} \<longrightarrow> h' y = h y)"
  using assms by (auto simp: queue_remove_def link_access dseg_append)


lemma queue_enque_at:
  assumes "queue_at h ls xs" and "x \<noteq> 0" "h x \<noteq> None" "x \<notin> set (chain ls xs)"
  shows "\<exists>h'. queue_list_enque h ls x = Some h' \<and> queue_at h' ls (xs @ [x])
           \<and> (\<forall>y. y \<notin> set (chain ls (xs @ [x])) \<longrightarrow> h' y = h y)"
proof -
  obtain as a where aa: "q_head ls # xs = as @ [a]" by (metis list.discI rev_exhaust)
  then have ch: "chain ls xs = as @ a # q_tail ls # []" "chain ls (xs @ [x]) = as @ a # x # q_tail ls # []"
    unfolding chain_def by (metis append.assoc append_Cons append_Nil)+
  have "get_prev h (q_tail ls) = Some a"
    using assms(1) unfolding queue_at_def ch by (auto simp: dseg_append link_access)
  moreover obtain h' where "queue_insert h x a = Some h'" "dseg h' 0 (as @ a # x # q_tail ls # []) 0"
      "\<And>y. y \<notin> {a, x, q_tail ls} \<Longrightarrow> h' y = h y"
    using queue_insert_after [of h as a "q_tail ls" "[]" x] assms unfolding queue_at_def ch by blast
  ultimately show ?thesis
    using assms unfolding queue_at_def queue_list_enque_def ch by auto
qed

lemma queue_pop_at:
  assumes "queue_at h ls (x # xs)"
  shows "\<exists>h'. queue_list_pop h ls = Some (h', x) \<and> queue_at h' ls xs
           \<and> h' x = Some \<lparr>lk_prev = 0, lk_next = 0\<rparr>
           \<and> (\<forall>y. y \<notin> set (chain ls (x # xs)) \<longrightarrow> h' y = h y)"
proof -
  obtain b bs where bs: "xs @ [q_tail ls] = b # bs" by (cases xs) auto
  have ch: "chain ls (x # xs) = [] @ q_head ls # x # b # bs" "chain ls xs = [] @ q_head ls # b # bs"
    by (simp_all add: chain_def bs)
  have "get_next h (q_head ls) = Some x" "get_next h x = Some b" "b \<noteq> 0"
    using assms unfolding queue_at_def ch by (auto simp: link_access)
  then have "queue_list_is_empty h ls = Some False" "get_next h (q_head ls) = Some x"
    by (simp_all add: queue_list_is_empty_def)
  moreover obtain h' where "queue_remove h x = Some h'" "dseg h' 0 ([] @ q_head ls # b # bs) 0"
      "h' x = Some \<lparr>lk_prev = 0, lk_next = 0\<rparr>" "\<And>y. y \<notin> {q_head ls, x, b} \<Longrightarrow> h' y = h y"
    using queue_remove_between [of h "[]" "q_head ls" x b bs] assms unfolding queue_at_def ch by blast
  ultimately show ?thesis
    using assms unfolding queue_at_def queue_list_pop_def ch by auto
qed

lemma queue_empty_at: "queue_at h ls xs \<Longrightarrow> queue_list_is_empty h ls = Some (xs = [])"
proof (cases xs)
  case (Cons x ys)
  assume "queue_at h ls xs"
  then have "h (q_head ls) = Some \<lparr>lk_prev = 0, lk_next = x\<rparr>"
    and "h x = Some \<lparr>lk_prev = q_head ls, lk_next = hd (ys @ [q_tail ls])\<rparr>"
    and "hd (ys @ [q_tail ls]) \<noteq> 0"
    using Cons by (auto simp: queue_at_def chain_def hd_append dest: hd_in_set)
  with Cons show ?thesis by (simp add: queue_list_is_empty_def link_access)
qed (simp add: queue_at_def chain_def queue_list_is_empty_def link_access)

lemma queue_init_at:
  assumes "ls \<noteq> 0" "q_tail ls \<noteq> 0" "h (q_head ls) \<noteq> None" "h (q_tail ls) \<noteq> None"
  shows "\<exists>h'. queue_list_init h ls = Some h' \<and> queue_at h' ls []
           \<and> (\<forall>y. y \<notin> {q_head ls, q_tail ls} \<longrightarrow> h' y = h y)"
  using assms by (auto simp: queue_list_init_def queue_defs link_access)

subsection \<open>The consistency check\<close>

lemma check_loop_complete:
  "dseg h a (x # xs) 0 \<Longrightarrow> 0 \<notin> set (x # xs) \<Longrightarrow> check_loop h t x = Some (t = last (x # xs))"
  by (induction xs arbitrary: a x) (simp_all add: check_loop.simps [of h t x for x] link_access)

lemma check_loop_sound:
  assumes ret: "check_loop h t x = Some r"
  shows "\<forall>n. r \<longrightarrow> h x = Some n \<longrightarrow>
    (\<exists>xs. dseg h (lk_prev n) (x # xs) 0 \<and> last (x # xs) = t \<and> 0 \<notin> set xs)"
proof (rule check_loop.raw_induct [where P = "\<lambda>h t x r. \<forall>n. r \<longrightarrow> h x = Some n \<longrightarrow>
      (\<exists>xs. dseg h (lk_prev n) (x # xs) 0 \<and> last (x # xs) = t \<and> 0 \<notin> set xs)", OF _ ret],
      intro allI impI)
  fix f h t x r n
  assume IH: "\<And>h t x r. f h t x = Some r \<Longrightarrow> \<forall>n. r \<longrightarrow> h x = Some n \<longrightarrow>
      (\<exists>xs. dseg h (lk_prev n) (x # xs) 0 \<and> last (x # xs) = t \<and> 0 \<notin> set xs)"
    and step: "get_next h x \<bind> (\<lambda>n. if n \<noteq> 0 then get_prev h n \<bind> (\<lambda>np. if np \<noteq> x then Some False
        else get_prev h n \<bind> (\<lambda>p. get_next h p \<bind> (\<lambda>pn. if pn \<noteq> n then Some False else f h t n)))
        else Some (t = x)) = Some r"
    and r: r and n: "h x = Some n"
  show "\<exists>xs. dseg h (lk_prev n) (x # xs) 0 \<and> last (x # xs) = t \<and> 0 \<notin> set xs"
  proof (cases "lk_next n = 0")
    case True
    with step r n show ?thesis
      by (cases n) (auto simp: link_access intro!: exI [of _ "[]"])
  next
    case False
    with step r n obtain n' where n': "h (lk_next n) = Some n'" "lk_prev n' = x"
      "f h t (lk_next n) = Some True"
      by (auto simp: link_access bind_eq_Some_conv split: if_splits)
    with IH [OF n'(3)] obtain xs where xs: "dseg h x (lk_next n # xs) 0"
      "last (lk_next n # xs) = t" "0 \<notin> set xs" by auto
    with n False show ?thesis by (cases n) (auto intro!: exI [of _ "lk_next n # xs"])
  qed
qed

lemma dseg_prev:
  "dseg h a xs b \<Longrightarrow> i < length xs \<Longrightarrow>
     \<exists>n. h (xs ! i) = Some n \<and> lk_prev n = (if i = 0 then a else xs ! (i - 1))"
proof (induction xs arbitrary: a i)
  case (Cons x xs)
  show ?case
  proof (cases i)
    case (Suc j)
    with Cons.IH [of x j] Cons.prems show ?thesis by (cases j) auto
  qed (use Cons.prems in auto)
qed simp

lemma dseg_distinct:
  assumes "dseg h 0 xs b" and "0 \<notin> set xs"
  shows "distinct xs"
proof -
  have "xs ! i \<noteq> xs ! j" if "i < j" "j < length xs" for i j
    using that
  proof (induction i arbitrary: j)
    case 0
    then have "xs ! (j - 1) \<in> set xs" "0 < length xs" by auto
    from dseg_prev [OF assms(1) this(2)] obtain n where n: "h (xs ! 0) = Some n" "lk_prev n = 0" by auto
    from dseg_prev [OF assms(1) 0(2)] 0(1) obtain n' where
      n': "h (xs ! j) = Some n'" "lk_prev n' = xs ! (j - 1)" by auto
    show ?case using n n' \<open>xs ! (j - 1) \<in> set xs\<close> assms(2) by auto
  next
    case (Suc i)
    then obtain k where k: "j = Suc k" by (cases j) auto
    with Suc.IH [of k] Suc.prems dseg_prev [OF assms(1), of "Suc i"] dseg_prev [OF assms(1), of j]
    show ?case by auto
  qed
  then show ?thesis by (metis distinct_conv_nth nat_neq_iff)
qed


lemma find_loop_at:
  "dseg h a (xs @ [t]) b \<Longrightarrow> t \<notin> set xs \<Longrightarrow>
     find_loop h t q (hd (xs @ [t])) = Some (q \<in> set xs)"
proof (induction xs arbitrary: a)
  case Nil
  then show ?case by (simp add: find_loop.simps [of h t q t])
next
  case (Cons x xs)
  then have "find_loop h t q (hd (xs @ [t])) = Some (q \<in> set xs)"
    and "get_next h x = Some (hd (xs @ [t]))"
    by (auto simp: link_access hd_append)
  with Cons.prems show ?case by (auto simp: find_loop.simps [of h t q x])
qed

subsection \<open>The queue interface\<close>

text \<open>Nodes that may be queued: allocated, not null and not one of the sentinels.\<close>

definition avail_item :: "u64 \<Rightarrow> heap \<Rightarrow> u64 \<Rightarrow> bool" where
  "avail_item ls h x \<longleftrightarrow> x \<noteq> 0 \<and> h x \<noteq> None \<and> x \<noteq> q_head ls \<and> x \<noteq> q_tail ls"

interpretation kq: fifo "\<lambda>h x. queue_list_enque h ls x" "\<lambda>h. queue_list_pop h ls"
    "\<lambda>h. queue_at h ls" "avail_item ls" cap
  for ls cap
proof unfold_locales
  fix h xs x
  assume *: "queue_at h ls xs" "avail_item ls h x" "x \<notin> set xs"
  then obtain h' where h': "queue_list_enque h ls x = Some h'" "queue_at h' ls (xs @ [x])"
    "\<And>y. y \<notin> set (chain ls (xs @ [x])) \<Longrightarrow> h' y = h y"
    using queue_enque_at [of h ls xs x] by (auto simp: avail_item_def chain_def)
  have "avail_item ls h' y" if "avail_item ls h y" for y
    using that h'(3) [of y] h'(2) dseg_alloc [of h' 0 "chain ls (xs @ [x])" 0 y]
    by (cases "y \<in> set (chain ls (xs @ [x]))") (auto simp: avail_item_def queue_at_def)
  with h' show "\<exists>h'. queue_list_enque h ls x = Some h' \<and> queue_at h' ls (xs @ [x])
      \<and> (\<forall>y. avail_item ls h y \<longrightarrow> avail_item ls h' y)" by blast
next
  fix h x xs
  assume "queue_at h ls (x # xs)"
  then show "\<exists>h'. queue_list_pop h ls = Some (h', x) \<and> queue_at h' ls xs"
    using queue_pop_at by blast
qed

subsection \<open>Properties\<close>

text \<open>
  C40. The sentinel queue is first in, first out: nodes enqueued with
  \<^verbatim>\<open>queue_list_enque\<close> on an empty queue come back from \<^verbatim>\<open>queue_list_pop\<close> in the same
  order, no operation faults, and the queue is empty again afterwards.
\<close>

theorem queue_fifo:
  assumes "queue_at h ls []" and "\<And>y. y \<in> set ys \<Longrightarrow> avail_item ls h y" and "distinct ys"
  shows "\<exists>h' h''. enq_all (\<lambda>h x. queue_list_enque h ls x) h ys = Some h'
     \<and> deq_n (\<lambda>h. queue_list_pop h ls) h' (length ys) = Some (h'', ys) \<and> queue_at h'' ls []"
  using kq.fifo_order [OF assms order_refl] .

definition queue_heap :: heap where
  "queue_heap = [64 \<mapsto> \<lparr>lk_prev = 0, lk_next = 80\<rparr>, 80 \<mapsto> \<lparr>lk_prev = 64, lk_next = 0\<rparr>,
     160 \<mapsto> \<lparr>lk_prev = 7, lk_next = 7\<rparr>, 176 \<mapsto> \<lparr>lk_prev = 7, lk_next = 7\<rparr>]"

lemma queue_heap_empty: "queue_at queue_heap 64 []"
  by (simp add: queue_heap_def queue_defs)

theorem queue_fifo_witness:
  "\<exists>h' h''. enq_all (\<lambda>h x. queue_list_enque h 64 x) queue_heap [176, 160] = Some h'
     \<and> deq_n (\<lambda>h. queue_list_pop h 64) h' (length [176, 160 :: u64]) = Some (h'', [176, 160])
     \<and> queue_at h'' 64 []"
  by (rule queue_fifo [OF queue_heap_empty])
    (auto simp: avail_item_def queue_heap_def q_head_def q_tail_def)

text \<open>
  \<^verbatim>\<open>queue_list_check\<close> is sound and complete: it returns true exactly when the heap
  holds a well-formed queue at that address, its nodes linked in both directions between
  the two sentinels, without repetition and without a null pointer.
\<close>

theorem queue_check_exact:
  assumes "q_head ls \<noteq> 0"
  shows "queue_list_check h ls = Some True \<longleftrightarrow> (\<exists>xs. queue_at h ls xs)"
proof
  assume *: "queue_list_check h ls = Some True"
  then obtain n where n: "h (q_head ls) = Some n" "lk_prev n = 0"
    and "check_loop h (q_tail ls) (q_head ls) = Some True"
    by (auto simp: queue_list_check_def link_access bind_eq_Some_conv split: if_splits)
  with check_loop_sound [OF this(3)] obtain ys where
    ys: "dseg h 0 (q_head ls # ys) 0" "last (q_head ls # ys) = q_tail ls" "0 \<notin> set ys" by auto
  have "q_head ls \<noteq> q_tail ls" by (simp add: q_head_def q_tail_def)
  with ys(2) obtain xs where "ys = xs @ [q_tail ls]" by (cases ys rule: rev_cases) auto
  with ys assms have "queue_at h ls xs"
    using dseg_distinct [OF ys(1)] by (simp add: queue_at_def chain_def)
  then show "\<exists>xs. queue_at h ls xs" ..
next
  assume "\<exists>xs. queue_at h ls xs"
  then obtain xs where xs: "queue_at h ls xs" ..
  then have "check_loop h (q_tail ls) (q_head ls) = Some True"
    using check_loop_complete [of h 0 "q_head ls" "xs @ [q_tail ls]"]
    by (simp add: queue_at_def chain_def)
  moreover from xs have "get_prev h (q_head ls) = Some 0" "get_next h (q_tail ls) = Some 0"
    by (auto simp: queue_at_def chain_def dseg_append link_access)
  ultimately show "queue_list_check h ls = Some True" by (simp add: queue_list_check_def)
qed

theorem queue_check_exact_witness:
  "queue_list_check queue_heap 64 = Some True"
  using queue_check_exact [of 64 queue_heap] queue_heap_empty by (auto simp: q_head_def)

text \<open>
  On a well-formed queue \<^verbatim>\<open>queue_list_find\<close> returns, and answers whether the node is
  queued.
\<close>

theorem queue_find_correct:
  assumes "queue_at h ls xs"
  shows "queue_list_find h ls q = Some (q \<in> set xs)"
proof -
  from assms have "get_next h (q_head ls) = Some (hd (xs @ [q_tail ls]))"
    and "dseg h (q_head ls) (xs @ [q_tail ls]) 0" "q_tail ls \<notin> set xs"
    by (auto simp: queue_at_def chain_def link_access hd_append)
  with find_loop_at [OF this(2,3)] show ?thesis by (simp add: queue_list_find_def)
qed

theorem queue_find_correct_witness: "queue_list_find queue_heap 64 160 = Some False"
  using queue_find_correct [OF queue_heap_empty] by simp

end
