(* ===== verification/Trap.thy ===== *)
theory Trap
  imports Prelude
begin

text \<open>
  The exception data of \<^verbatim>\<open>include/exception.h\<close>: the trap frame an exception entry
  pushes, the syndrome register as a union of bit fields, and the description of a stage-2
  fault. The frame is 34 consecutive 64-bit slots, \<^verbatim>\<open>r[0..30]\<close> followed by \<^verbatim>\<open>usp\<close>,
  \<^verbatim>\<open>elr\<close> and \<^verbatim>\<open>spsr\<close>; the syndrome's register number has five bits, so \<^verbatim>\<open>r[31]\<close> can be
  addressed and is the slot of \<^verbatim>\<open>usp\<close>.
\<close>

definition NUM_REGS :: nat where
  "NUM_REGS = 31"

record trap_frame_t =
  tf_r :: "u64 list"
  tf_usp :: u64
  tf_elr :: u64
  tf_spsr :: u64

text \<open>Reading and writing \<^verbatim>\<open>ctx->r[n]\<close> by its address in the frame.\<close>

definition frame_reg :: "trap_frame_t \<Rightarrow> nat \<Rightarrow> u64" where
  "frame_reg f n =
     (if n < NUM_REGS then tf_r f ! n
      else if n = 31 then tf_usp f else if n = 32 then tf_elr f else tf_spsr f)"

definition set_frame_reg :: "trap_frame_t \<Rightarrow> nat \<Rightarrow> u64 \<Rightarrow> trap_frame_t" where
  "set_frame_reg f n v =
     (if n < NUM_REGS then f\<lparr>tf_r := (tf_r f)[n := v]\<rparr>
      else if n = 31 then f\<lparr>tf_usp := v\<rparr>
      else if n = 32 then f\<lparr>tf_elr := v\<rparr> else f\<lparr>tf_spsr := v\<rparr>)"

definition wf_frame :: "trap_frame_t \<Rightarrow> bool" where
  "wf_frame f \<longleftrightarrow> length (tf_r f) = NUM_REGS"

lemma frame_reg_set:
  "wf_frame f \<Longrightarrow> n < 34 \<Longrightarrow> k < 34 \<Longrightarrow>
     frame_reg (set_frame_reg f n v) k = (if k = n then v else frame_reg f k)"
  by (auto simp: frame_reg_def set_frame_reg_def wf_frame_def NUM_REGS_def)

lemma wf_set_frame_reg [frame_simps]: "wf_frame (set_frame_reg f n v) = wf_frame f"
  by (simp add: set_frame_reg_def wf_frame_def)

subsection \<open>The syndrome register\<close>

definition hsr_ec :: "u32 \<Rightarrow> u32" where
  "hsr_ec h = bitfield 26 6 h"

definition hsr_len :: "u32 \<Rightarrow> u32" where
  "hsr_len h = bitfield 25 1 h"

definition dabt_write :: "u32 \<Rightarrow> u32" where
  "dabt_write h = bitfield 6 1 h"

definition dabt_reg :: "u32 \<Rightarrow> u32" where
  "dabt_reg h = bitfield 16 5 h"

definition dabt_size :: "u32 \<Rightarrow> u32" where
  "dabt_size h = bitfield 22 2 h"

lemma dabt_reg_less: "unat (dabt_reg h) < 32"
  using unat_bitfield_less [of 16 5 h] by (simp add: dabt_reg_def)

datatype ept_violation_reason = PREFETCH | DABT

record ept_violation_info_t =
  info_hsr :: u32
  info_reason :: ept_violation_reason
  info_gva :: u64
  info_gpa :: u64

text \<open>\<^verbatim>\<open>advance_pc\<close>: step over the trapped instruction.\<close>

definition advance_pc :: "ept_violation_info_t \<Rightarrow> trap_frame_t \<Rightarrow> trap_frame_t" where
  "advance_pc info ctx = ctx\<lparr>tf_elr := tf_elr ctx + (if hsr_len (info_hsr info) \<noteq> 0 then 4 else 2)\<rparr>"

end
