(* ===== verification/Vcpu.thy ===== *)
theory Vcpu
  imports Prelude
begin

text \<open>
  The system registers a virtual CPU owns while it is not running: the part of
  \<^verbatim>\<open>cpu_sysregs_t\<close> (\<^verbatim>\<open>include/hyper/vcpu.h\<close>) that \<^verbatim>\<open>save_sysregs\<close> and
  \<^verbatim>\<open>restore_sysregs\<close> of \<^verbatim>\<open>hyper/hyper_ctx.S\<close> transfer, and the registers of one
  core. The routines on memory, and the trapped identification registers that only
  \<^verbatim>\<open>get_all_sysregs\<close> writes, are in \<open>Sysregs\<close>.
\<close>

record cpu_sysregs_t =
  sctlr_el1 :: u64
  ttbr0_el1 :: u64
  ttbr1_el1 :: u64
  tcr_el1 :: u64
  esr_el1 :: u64
  far_el1 :: u64
  afsr0_el1 :: u64
  afsr1_el1 :: u64
  mair_el1 :: u64
  amair_el1 :: u64
  contextidr_el1 :: u64
  cpacr_el1 :: u64
  elr_el1 :: u64
  fpcr :: u64
  fpsr :: u64
  midr_el1 :: u64
  mpidr_el1 :: u64
  par_el1 :: u64
  sp_el0 :: u64
  sp_el1 :: u64
  spsr_el1 :: u64
  tpidr_el0 :: u64
  tpidr_el1 :: u64
  tpidrro_el0 :: u64
  vbar_el1 :: u64

text \<open>A core: the same registers, and the two that hold the guest's view of its identity.\<close>

record core_regs = cpu_sysregs_t +
  vpidr_el2 :: u64
  vmpidr_el2 :: u64

text \<open>The registers of the array \<^verbatim>\<open>cpu_sysregs\<close> before the first save.\<close>

definition zero_sysregs :: cpu_sysregs_t where
  "zero_sysregs =
     \<lparr>sctlr_el1 = 0, ttbr0_el1 = 0, ttbr1_el1 = 0, tcr_el1 = 0, esr_el1 = 0,
      far_el1 = 0, afsr0_el1 = 0, afsr1_el1 = 0, mair_el1 = 0, amair_el1 = 0,
      contextidr_el1 = 0, cpacr_el1 = 0, elr_el1 = 0, fpcr = 0, fpsr = 0,
      midr_el1 = 0, mpidr_el1 = 0, par_el1 = 0, sp_el0 = 0, sp_el1 = 0,
      spsr_el1 = 0, tpidr_el0 = 0, tpidr_el1 = 0, tpidrro_el0 = 0, vbar_el1 = 0\<rparr>"

definition save_sysregs :: "core_regs \<Rightarrow> cpu_sysregs_t" where
  "save_sysregs hw =
     \<lparr>sctlr_el1 = sctlr_el1 hw, ttbr0_el1 = ttbr0_el1 hw, ttbr1_el1 = ttbr1_el1 hw,
      tcr_el1 = tcr_el1 hw, esr_el1 = esr_el1 hw, far_el1 = far_el1 hw,
      afsr0_el1 = afsr0_el1 hw, afsr1_el1 = afsr1_el1 hw, mair_el1 = mair_el1 hw,
      amair_el1 = amair_el1 hw, contextidr_el1 = contextidr_el1 hw, cpacr_el1 = cpacr_el1 hw,
      elr_el1 = elr_el1 hw, fpcr = fpcr hw, fpsr = fpsr hw, midr_el1 = midr_el1 hw,
      mpidr_el1 = mpidr_el1 hw, par_el1 = par_el1 hw, sp_el0 = sp_el0 hw, sp_el1 = sp_el1 hw,
      spsr_el1 = spsr_el1 hw, tpidr_el0 = tpidr_el0 hw, tpidr_el1 = tpidr_el1 hw,
      tpidrro_el0 = tpidrro_el0 hw, vbar_el1 = vbar_el1 hw\<rparr>"

text \<open>The saved \<^verbatim>\<open>midr_el1\<close> and \<^verbatim>\<open>mpidr_el1\<close> go to the registers that shadow them.\<close>

definition restore_sysregs :: "cpu_sysregs_t \<Rightarrow> core_regs \<Rightarrow> core_regs" where
  "restore_sysregs m hw = hw
     \<lparr>sctlr_el1 := sctlr_el1 m, ttbr0_el1 := ttbr0_el1 m, ttbr1_el1 := ttbr1_el1 m,
      tcr_el1 := tcr_el1 m, esr_el1 := esr_el1 m, far_el1 := far_el1 m,
      afsr0_el1 := afsr0_el1 m, afsr1_el1 := afsr1_el1 m, mair_el1 := mair_el1 m,
      amair_el1 := amair_el1 m, contextidr_el1 := contextidr_el1 m, cpacr_el1 := cpacr_el1 m,
      elr_el1 := elr_el1 m, fpcr := fpcr m, fpsr := fpsr m, vpidr_el2 := midr_el1 m,
      vmpidr_el2 := mpidr_el1 m, par_el1 := par_el1 m, sp_el0 := sp_el0 m, sp_el1 := sp_el1 m,
      spsr_el1 := spsr_el1 m, tpidr_el0 := tpidr_el0 m, tpidr_el1 := tpidr_el1 m,
      tpidrro_el0 := tpidrro_el0 m, vbar_el1 := vbar_el1 m\<rparr>"

lemma restore_save:
  "midr_el1 m = midr_el1 hw \<Longrightarrow> mpidr_el1 m = mpidr_el1 hw \<Longrightarrow>
     save_sysregs (restore_sysregs m hw) = m"
  by (simp add: save_sysregs_def restore_sysregs_def)

lemma restore_identity [frame_simps]:
  "midr_el1 (restore_sysregs m hw) = midr_el1 hw" "mpidr_el1 (restore_sysregs m hw) = mpidr_el1 hw"
  by (simp_all add: restore_sysregs_def)

end
