(* ===== verification/Task.thy ===== *)
theory Task
  imports Trap Vcpu
begin

text \<open>
  The scheduler of \<^verbatim>\<open>schedule/task.c\<close>. Task control blocks, saved CPU contexts and saved
  system registers are arrays indexed by task; a pointer into one of them is its index, a
  null pointer is \<open>None\<close>. Each core has a thread information block with its current task.
  An operation that goes through a null current-task pointer is a fault, the value
  \<open>None\<close>. \<^verbatim>\<open>_schedule\<close> selects a task under the scheduler's spin lock, so one call is
  one step. Console output is left out; the number of cores \<^verbatim>\<open>SMP_NUM\<close> is a build-time
  parameter.
\<close>

subsection \<open>Model\<close>

definition MAX_TASKS :: nat where
  "MAX_TASKS = 64"

definition SYS_TASK_TICK :: u32 where
  "SYS_TASK_TICK = 20"

definition SPSR_EL1_USER :: u64 where
  "SPSR_EL1_USER = 0"

definition SPSR_EL2_VALUE_IRQ :: u64 where
  "SPSR_EL2_VALUE_IRQ = push_bit 6 1 OR push_bit 8 1 OR 0b0101"

datatype task_state = RUNNING | WAITING

record cpu_t =
  cpu_ctx :: trap_frame_t
  cpu_pctx :: u64
  cpu_sys_reg :: "nat option"

record tcb_t =
  tcb_cpu_info :: nat
  tcb_state :: task_state
  tcb_counter :: u32
  tcb_priority :: u32
  tcb_id :: u32

record thread_info =
  ti_cpu :: u32
  ti_flags :: u32
  ti_pgtable :: u64
  ti_current :: "nat option"

record kstate =
  task_list :: "tcb_t list"
  g_cpu_dec :: "cpu_t list"
  cpu_sysregs :: "cpu_sysregs_t list"
  task_count :: u32
  threads :: "nat \<Rightarrow> thread_info"

definition upd_task :: "nat \<Rightarrow> (tcb_t \<Rightarrow> tcb_t) \<Rightarrow> kstate \<Rightarrow> kstate" where
  "upd_task i f s = s\<lparr>task_list := (task_list s)[i := f (task_list s ! i)]\<rparr>"

definition upd_cpu :: "nat \<Rightarrow> (cpu_t \<Rightarrow> cpu_t) \<Rightarrow> kstate \<Rightarrow> kstate" where
  "upd_cpu i f s = s\<lparr>g_cpu_dec := (g_cpu_dec s)[i := f (g_cpu_dec s ! i)]\<rparr>"

definition create_task :: "kstate \<Rightarrow> u64 \<Rightarrow> u64 \<Rightarrow> kstate \<times> nat option" where
  "create_task s task_func stack_top =
     (let i = unat (task_count s) in
      if MAX_TASKS \<le> i then (s, None)
      else
        (let s = upd_task i (\<lambda>t. t\<lparr>tcb_id := task_count s, tcb_state := WAITING, tcb_cpu_info := i\<rparr>) s;
             s = upd_cpu i (\<lambda>p. p\<lparr>cpu_ctx := (cpu_ctx p)
                   \<lparr>tf_elr := task_func, tf_spsr := SPSR_EL1_USER, tf_usp := stack_top\<rparr>\<rparr>) s;
             s = upd_task i (\<lambda>t. t\<lparr>tcb_counter := SYS_TASK_TICK\<rparr>) s
         in (s\<lparr>task_count := task_count s + 1\<rparr>, Some i)))"

definition craete_vm_task :: "kstate \<Rightarrow> u64 \<Rightarrow> kstate \<times> nat option" where
  "craete_vm_task s task_func =
     (let i = unat (task_count s) in
      if MAX_TASKS \<le> i then (s, None)
      else
        (let s = upd_task i (\<lambda>t. t\<lparr>tcb_id := task_count s, tcb_state := WAITING, tcb_cpu_info := i\<rparr>) s;
             s = upd_cpu i (\<lambda>p. p\<lparr>cpu_ctx := (cpu_ctx p)
                   \<lparr>tf_elr := task_func, tf_spsr := SPSR_EL2_VALUE_IRQ,
                    tf_r := (tf_r (cpu_ctx p))[0 := 0x70000000]\<rparr>, cpu_sys_reg := Some i\<rparr>) s;
             s = s\<lparr>cpu_sysregs := (cpu_sysregs s)[i := (cpu_sysregs s ! i)\<lparr>spsr_el1 := 0x30C50830\<rparr>]\<rparr>;
             s = upd_task i (\<lambda>t. t\<lparr>tcb_counter := SYS_TASK_TICK\<rparr>) s
         in (s\<lparr>task_count := task_count s + 1\<rparr>, Some i)))"

definition schedule_init :: "kstate \<Rightarrow> kstate" where
  "schedule_init s = s\<lparr>task_list := map (\<lambda>t. t\<lparr>tcb_id := - 1\<rparr>) (task_list s)\<rparr>"

definition schedule_init_local :: "kstate \<Rightarrow> nat \<Rightarrow> kstate" where
  "schedule_init_local s c =
     (let k = unat (ti_cpu (threads s c));
          s = s\<lparr>threads := (threads s)(c := (threads s c)\<lparr>ti_current := Some k\<rparr>)\<rparr>
      in upd_task k (\<lambda>t. t\<lparr>tcb_state := RUNNING\<rparr>) s)"

text \<open>
  The selection loop of \<^verbatim>\<open>_schedule\<close>, from candidate offset \<open>i\<close>: the last value of
  \<^verbatim>\<open>next_task_id\<close>, and whether the loop was left by \<^verbatim>\<open>break\<close> at a task that is not
  running.
\<close>

function pick_loop :: "tcb_t list \<Rightarrow> u32 \<Rightarrow> u32 \<Rightarrow> u32 \<Rightarrow> u32 \<Rightarrow> u32 \<times> bool" where
  "pick_loop ts count cid i next_task_id =
     (if i < count
      then (let next_task_id = (cid + i) mod count in
            if tcb_state (ts ! unat next_task_id) = RUNNING
            then pick_loop ts count cid (i + 1) next_task_id
            else (next_task_id, True))
      else (next_task_id, False))"
  by pat_completeness auto
termination
  by (relation "measure (\<lambda>(ts, count, cid, i, nx). unat count - unat i)") (auto simp: loop_measure)

declare pick_loop.simps [simp del]

text \<open>
  What \<^verbatim>\<open>_schedule\<close> does to the processor: nothing, overwrite the trap frame it was given
  (\<^verbatim>\<open>switch_context_el\<close>), or switch the callee-saved registers between two task control
  blocks (\<^verbatim>\<open>switch_context\<close>, for a null frame). The state returned with \<open>Switch_regs\<close> is the
  one in which \<^verbatim>\<open>switch_context\<close> is called; that assembly routine stores fourteen registers
  from the start of the 48-byte task control block on, which the theory \<open>Switch\<close> models on
  memory; its only caller \<^verbatim>\<open>schedule\<close> is called from nowhere.
\<close>

datatype switch = No_switch | Switch_frame trap_frame_t | Switch_regs nat nat

definition switch_context_el :: "kstate \<Rightarrow> nat \<Rightarrow> trap_frame_t" where
  "switch_context_el s new = cpu_ctx (g_cpu_dec s ! tcb_cpu_info (task_list s ! new))"

definition do_schedule ::
    "u32 \<Rightarrow> kstate \<Rightarrow> nat \<Rightarrow> trap_frame_t option \<Rightarrow> (kstate \<times> switch) option" where
  "do_schedule smp_num s c sp =
     (if task_count s = smp_num then Some (s, No_switch)
      else do {
        curr \<leftarrow> ti_current (threads s c);
        let cid = tcb_id (task_list s ! curr);
        let (next_task_id, found) = pick_loop (task_list s) (task_count s) cid 1 (- 1);
        let s = (if found
                 then (let s = upd_task (unat cid) (\<lambda>t. t\<lparr>tcb_state := WAITING\<rparr>) s;
                           s = upd_task (unat next_task_id) (\<lambda>t. t\<lparr>tcb_state := RUNNING\<rparr>) s
                       in s\<lparr>threads := (threads s)
                              (c := (threads s c)\<lparr>ti_current := Some (unat next_task_id)\<rparr>)\<rparr>)
                 else s);
        if next_task_id = - 1 then Some (s, No_switch)
        else (case sp of
                None \<Rightarrow> Some (s, Switch_regs curr (unat next_task_id))
              | Some f \<Rightarrow> Some (s, Switch_frame (switch_context_el s (unat next_task_id))))
      })"

definition schedule :: "u32 \<Rightarrow> kstate \<Rightarrow> nat \<Rightarrow> (kstate \<times> switch) option" where
  "schedule smp_num s c = do {
     curr \<leftarrow> ti_current (threads s c);
     let s = upd_task curr (\<lambda>t. t\<lparr>tcb_counter := 0\<rparr>) s;
     do_schedule smp_num s c None
   }"

definition timer_tick_schedule ::
    "u32 \<Rightarrow> kstate \<Rightarrow> nat \<Rightarrow> trap_frame_t option \<Rightarrow> (kstate \<times> switch) option" where
  "timer_tick_schedule smp_num s c sp = do {
     curr \<leftarrow> ti_current (threads s c);
     let s = upd_task curr (\<lambda>t. t\<lparr>tcb_counter := tcb_counter t - 1\<rparr>) s;
     if 0 < tcb_counter (task_list s ! curr) then Some (s, No_switch)
     else do_schedule smp_num (upd_task curr (\<lambda>t. t\<lparr>tcb_counter := SYS_TASK_TICK\<rparr>) s) c sp
   }"

definition save_cpu_ctx :: "kstate \<Rightarrow> nat \<Rightarrow> u64 \<Rightarrow> trap_frame_t \<Rightarrow> kstate option" where
  "save_cpu_ctx s c sp_addr sp = do {
     curr \<leftarrow> ti_current (threads s c);
     Some (upd_cpu (tcb_cpu_info (task_list s ! curr)) (\<lambda>p. p\<lparr>cpu_ctx := sp, cpu_pctx := sp_addr\<rparr>) s)
   }"

text \<open>\<^verbatim>\<open>vm_in\<close> and \<^verbatim>\<open>vm_out\<close>: the system registers of the current virtual machine.\<close>

definition vm_in :: "kstate \<Rightarrow> nat \<Rightarrow> core_regs \<Rightarrow> core_regs option" where
  "vm_in s c hw = do {
     curr \<leftarrow> ti_current (threads s c);
     k \<leftarrow> cpu_sys_reg (g_cpu_dec s ! tcb_cpu_info (task_list s ! curr));
     Some (restore_sysregs (cpu_sysregs s ! k) hw)
   }"

definition vm_out :: "kstate \<Rightarrow> nat \<Rightarrow> core_regs \<Rightarrow> kstate option" where
  "vm_out s c hw = do {
     curr \<leftarrow> ti_current (threads s c);
     k \<leftarrow> cpu_sys_reg (g_cpu_dec s ! tcb_cpu_info (task_list s ! curr));
     Some (s\<lparr>cpu_sysregs := (cpu_sysregs s)[k := save_sysregs hw]\<rparr>)
   }"

subsection \<open>Selecting a task\<close>

lemma cyclic_word:
  assumes "unat (count::u32) \<le> MAX_TASKS" "unat cid < unat count" "unat i < unat count"
  shows "(cid + i) mod count = word_of_nat ((unat cid + unat i) mod unat count)"
    and "unat ((cid + i) mod count) = (unat cid + unat i) mod unat count"
proof -
  have s: "unat (cid + i) = unat cid + unat i"
    using assms by (simp add: unat_plus_if_size MAX_TASKS_def word_size)
  then show u: "unat ((cid + i) mod count) = (unat cid + unat i) mod unat count"
    by (simp add: unat_mod_distrib)
  show "(cid + i) mod count = word_of_nat ((unat cid + unat i) mod unat count)"
    by (simp flip: u)
qed

text \<open>The offset of the first task, in cyclic order after task \<open>t\<close>, that is not running.\<close>

definition first_ready :: "tcb_t list \<Rightarrow> nat \<Rightarrow> nat \<Rightarrow> nat \<Rightarrow> nat option" where
  "first_ready ts n t i = find (\<lambda>k. tcb_state (ts ! ((t + k) mod n)) \<noteq> RUNNING) [i..<n]"

lemma first_ready_rec:
  "first_ready ts n t i =
     (if i < n then if tcb_state (ts ! ((t + i) mod n)) = RUNNING then first_ready ts n t (Suc i)
                    else Some i
      else None)"
  by (simp add: first_ready_def upt_rec [of i n])

lemma pick_loop_first_ready:
  assumes "unat count \<le> MAX_TASKS" "unat cid < unat count"
  shows "pick_loop ts count cid i nx =
    (case first_ready ts (unat count) (unat cid) (unat i) of
       Some k \<Rightarrow> (word_of_nat ((unat cid + k) mod unat count), True)
     | None \<Rightarrow> (if i < count then word_of_nat ((unat cid + (unat count - 1)) mod unat count) else nx, False))"
  using assms
proof (induction ts count cid i nx rule: pick_loop.induct)
  case (1 ts count cid i nx)
  show ?case
  proof (cases "i < count")
    case False
    then show ?thesis
      by (simp add: pick_loop.simps [of ts count cid i nx] first_ready_rec [of _ _ _ "unat i"] word_less_nat_alt)
  next
    case lt: True
    then have i: "unat i < unat count" and Suc: "unat (i + 1) = Suc (unat i)"
      by (auto simp: word_less_nat_alt unat_Suc_less)
    note cyc = cyclic_word [OF "1.prems" i]
    have last: "(cid + i) mod count = word_of_nat ((unat cid + (unat count - 1)) mod unat count)"
      if "\<not> i + 1 < count"
    proof -
      from that i Suc have "unat count - 1 = unat i" by (simp add: word_less_nat_alt)
      then show ?thesis by (simp add: cyc(1))
    qed
    show ?thesis
    proof (cases "tcb_state (ts ! ((unat cid + unat i) mod unat count)) = RUNNING")
      case False
      with lt i cyc show ?thesis
        by (simp add: pick_loop.simps [of ts count cid i nx] Let_def first_ready_rec [of _ _ _ "unat i"])
    next
      case True
      with cyc(2) have "tcb_state (ts ! unat ((cid + i) mod count)) = RUNNING" by simp
      from "1.IH" [OF lt refl this "1.prems"] this lt last True i Suc show ?thesis
        by (simp add: pick_loop.simps [of ts count cid i nx] Let_def first_ready_rec [of _ _ _ "unat i"]
            split: option.splits)
    qed
  qed
qed

lemma first_ready_Some_iff:
  "first_ready ts n t i = Some k \<longleftrightarrow>
     i \<le> k \<and> k < n \<and> tcb_state (ts ! ((t + k) mod n)) \<noteq> RUNNING \<and>
     (\<forall>j. i \<le> j \<and> j < k \<longrightarrow> tcb_state (ts ! ((t + j) mod n)) = RUNNING)"
proof (induction "n - i" arbitrary: i)
  case 0
  then show ?case by (auto simp: first_ready_rec [of ts n t i])
next
  case (Suc m)
  then have IH: "first_ready ts n t (Suc i) = Some k \<longleftrightarrow>
     Suc i \<le> k \<and> k < n \<and> tcb_state (ts ! ((t + k) mod n)) \<noteq> RUNNING \<and>
     (\<forall>j. Suc i \<le> j \<and> j < k \<longrightarrow> tcb_state (ts ! ((t + j) mod n)) = RUNNING)" and "i < n"
    by auto
  then show ?case
    by (auto simp: first_ready_rec [of ts n t i] Suc_le_eq less_le elim: allE [of _ k])
qed

lemma first_ready_None_iff:
  "first_ready ts n t i = None \<longleftrightarrow> (\<forall>k. i \<le> k \<and> k < n \<longrightarrow> tcb_state (ts ! ((t + k) mod n)) = RUNNING)"
  by (auto simp: first_ready_def find_None_iff)


subsection \<open>The scheduler's invariant\<close>

abbreviation current :: "kstate \<Rightarrow> nat \<Rightarrow> nat option" where
  "current s c \<equiv> ti_current (threads s c)"

abbreviation state_of :: "kstate \<Rightarrow> nat \<Rightarrow> task_state" where
  "state_of s t \<equiv> tcb_state (task_list s ! t)"

abbreviation ctx_of :: "kstate \<Rightarrow> nat \<Rightarrow> trap_frame_t" where
  "ctx_of s t \<equiv> cpu_ctx (g_cpu_dec s ! t)"

definition tasks_wf :: "kstate \<Rightarrow> bool" where
  "tasks_wf s \<longleftrightarrow>
     length (task_list s) = MAX_TASKS \<and> length (g_cpu_dec s) = MAX_TASKS \<and>
     length (cpu_sysregs s) = MAX_TASKS \<and> unat (task_count s) \<le> MAX_TASKS \<and>
     (\<forall>t < unat (task_count s).
        tcb_id (task_list s ! t) = word_of_nat t \<and> tcb_cpu_info (task_list s ! t) = t)"

text \<open>
  Every core has a current task, different cores have different ones, and the tasks in
  state \<^verbatim>\<open>RUNNING\<close> are exactly the current tasks.
\<close>

definition sched_inv :: "u32 \<Rightarrow> kstate \<Rightarrow> bool" where
  "sched_inv smp s \<longleftrightarrow>
     tasks_wf s \<and>
     (\<forall>c < unat smp. \<exists>t < unat (task_count s). current s c = Some t) \<and>
     inj_on (current s) {..<unat smp} \<and>
     (\<forall>t < unat (task_count s). state_of s t = RUNNING \<longleftrightarrow> Some t \<in> current s ` {..<unat smp})"

lemma unat_task_id: "t < MAX_TASKS \<Longrightarrow> unat (word_of_nat t :: u32) = t"
  by (simp add: unat_of_nat MAX_TASKS_def)

lemma task_list_upd_task [simp]:
  "task_list (upd_task i f s) = (task_list s)[i := f (task_list s ! i)]"
  by (simp add: upd_task_def)

lemma upd_task_frame [simp, frame_simps]:
  "g_cpu_dec (upd_task i f s) = g_cpu_dec s" "cpu_sysregs (upd_task i f s) = cpu_sysregs s"
  "task_count (upd_task i f s) = task_count s" "threads (upd_task i f s) = threads s"
  by (simp_all add: upd_task_def)

lemma g_cpu_dec_upd_cpu [simp]:
  "g_cpu_dec (upd_cpu i f s) = (g_cpu_dec s)[i := f (g_cpu_dec s ! i)]"
  by (simp add: upd_cpu_def)

lemma upd_cpu_frame [simp, frame_simps]:
  "task_list (upd_cpu i f s) = task_list s" "cpu_sysregs (upd_cpu i f s) = cpu_sysregs s"
  "task_count (upd_cpu i f s) = task_count s" "threads (upd_cpu i f s) = threads s"
  by (simp_all add: upd_cpu_def)

text \<open>The state after core \<open>c\<close> gives up task \<open>t\<close> for task \<open>u\<close>.\<close>

definition dispatch :: "kstate \<Rightarrow> nat \<Rightarrow> nat \<Rightarrow> nat \<Rightarrow> kstate" where
  "dispatch s c t u =
     (let s = upd_task u (\<lambda>t. t\<lparr>tcb_state := RUNNING\<rparr>) (upd_task t (\<lambda>t. t\<lparr>tcb_state := WAITING\<rparr>) s)
      in s\<lparr>threads := (threads s)(c := (threads s c)\<lparr>ti_current := Some u\<rparr>)\<rparr>)"

lemma dispatch_simps [simp]:
  "task_list (dispatch s c t u) =
     (let ts = (task_list s)[t := (task_list s ! t)\<lparr>tcb_state := WAITING\<rparr>]
      in ts[u := (ts ! u)\<lparr>tcb_state := RUNNING\<rparr>])"
  "g_cpu_dec (dispatch s c t u) = g_cpu_dec s" "cpu_sysregs (dispatch s c t u) = cpu_sysregs s"
  "task_count (dispatch s c t u) = task_count s"
  "current (dispatch s c t u) d = (if d = c then Some u else current s d)"
  by (simp_all add: dispatch_def Let_def)

definition switch_to :: "kstate \<Rightarrow> trap_frame_t option \<Rightarrow> nat \<Rightarrow> nat \<Rightarrow> switch" where
  "switch_to s sp t u = (case sp of None \<Rightarrow> Switch_regs t u | Some f \<Rightarrow> Switch_frame (ctx_of s u))"

lemma do_schedule_cases:
  assumes wf: "tasks_wf s" and cur: "current s c = Some t" and t: "t < unat (task_count s)"
    and ne: "task_count s \<noteq> smp"
  shows "do_schedule smp s c sp =
    (case first_ready (task_list s) (unat (task_count s)) t 1 of
       Some k \<Rightarrow> let u = (t + k) mod unat (task_count s) in Some (dispatch s c t u, switch_to s sp t u)
     | None \<Rightarrow> if unat (task_count s) = 1 then Some (s, No_switch)
               else Some (s, switch_to s sp t ((t + (unat (task_count s) - 1)) mod unat (task_count s))))"
proof -
  let ?n = "unat (task_count s)"
  from wf have n: "?n \<le> MAX_TASKS" and id: "tcb_id (task_list s ! t) = word_of_nat t"
    and info: "u < ?n \<Longrightarrow> tcb_cpu_info (task_list s ! u) = u" for u
    using t by (auto simp: tasks_wf_def)
  have len: "length (task_list s) = MAX_TASKS" using wf by (simp add: tasks_wf_def)
  have ut: "unat (word_of_nat t :: u32) = t" using t n by (simp add: unat_task_id)
  have um: "unat (word_of_nat (m mod ?n) :: u32) = m mod ?n" "m mod ?n < ?n" for m
    using t n by (auto simp: unat_task_id intro!: unat_task_id less_le_trans [of _ ?n MAX_TASKS])
  have neq: "(word_of_nat (m mod ?n) :: u32) \<noteq> - 1" for m
    by (rule less_not_minus_one [of _ "task_count s"]) (simp add: word_less_nat_alt um)
  have one: "(1 < task_count s) = (1 < ?n)" by (simp add: word_less_nat_alt)
  note pl = pick_loop_first_ready [OF n, of "word_of_nat t", unfolded ut, OF t]
  have di: "tcb_cpu_info (task_list (dispatch s c t (m mod ?n)) ! (m mod ?n)) = m mod ?n" for m
  proof -
    have "m mod ?n < length (task_list s)" using um(2) [of m] n len by linarith
    then show ?thesis using info [OF um(2) [of m]] info [OF t] 
      by (cases "t = m mod ?n") (simp_all add: Let_def nth_list_update)
  qed
  show ?thesis
  proof (cases "first_ready (task_list s) ?n t 1")
    case None
    with t ne show ?thesis
      by (auto simp: do_schedule_def cur id pl one um neq Let_def switch_to_def switch_context_el_def info
          split: option.splits)
  next
    case (Some k)
    with ne di [of "t + k"] show ?thesis
      by (simp add: do_schedule_def cur id pl ut um neq switch_to_def switch_context_el_def Let_def
          dispatch_def split: option.splits)
  qed
qed

lemma sched_inv_cong:
  assumes "sched_inv smp s" and "length (task_list s') = length (task_list s)"
    and "length (g_cpu_dec s') = length (g_cpu_dec s)"
    and "length (cpu_sysregs s') = length (cpu_sysregs s)"
    and "task_count s' = task_count s" and "\<And>c. current s' c = current s c"
    and "\<And>t. tcb_id (task_list s' ! t) = tcb_id (task_list s ! t)"
    and "\<And>t. tcb_cpu_info (task_list s' ! t) = tcb_cpu_info (task_list s ! t)"
    and "\<And>t. state_of s' t = state_of s t"
  shows "sched_inv smp s'"
  using assms by (simp add: sched_inv_def tasks_wf_def image_def inj_on_def)

lemma nth_upd_same: "f (xs ! i) = y \<Longrightarrow> (g :: 'a \<Rightarrow> 'b) y = g (xs ! i) \<Longrightarrow> g (xs[i := y] ! t) = g (xs ! t)"
  by (cases "i < length xs") (auto simp: nth_list_update list_update_beyond)

lemma sched_inv_counter:
  "sched_inv smp s \<Longrightarrow> sched_inv smp (upd_task i (\<lambda>t. t\<lparr>tcb_counter := f t\<rparr>) s)"
  by (erule sched_inv_cong) (simp_all add: nth_upd_same)

lemma sched_inv_upd_cpu: "sched_inv smp s \<Longrightarrow> sched_inv smp (upd_cpu i f s)"
  by (erule sched_inv_cong) simp_all

lemma sched_inv_current:
  assumes "sched_inv smp s" "c < unat smp"
  obtains t where "current s c = Some t" "t < unat (task_count s)" "state_of s t = RUNNING"
proof -
  from assms obtain t where "current s c = Some t" "t < unat (task_count s)"
    by (auto simp: sched_inv_def)
  moreover from this assms have "state_of s t = RUNNING"
    by (metis imageI lessThan_iff sched_inv_def)
  ultimately show ?thesis using that by blast
qed

lemma sched_inv_dispatch:
  assumes inv: "sched_inv smp s" and c: "c < unat smp" and cur: "current s c = Some t"
    and u: "u < unat (task_count s)" "state_of s u \<noteq> RUNNING"
  shows "sched_inv smp (dispatch s c t u)"
proof -
  let ?n = "unat (task_count s)" and ?s = "dispatch s c t u" and ?C = "{..<unat smp}"
  have wf: "tasks_wf s" and inj: "inj_on (current s) ?C"
    and run: "\<And>t. t < ?n \<Longrightarrow> state_of s t = RUNNING \<longleftrightarrow> Some t \<in> current s ` ?C"
    using inv by (auto simp: sched_inv_def)
  from sched_inv_current [OF inv c] cur have t: "t < ?n" "state_of s t = RUNNING" by auto
  with u have neq: "u \<noteq> t" by auto
  have len: "t < length (task_list s)" "u < length (task_list s)" 
    using wf t u by (auto simp: tasks_wf_def)
  have img: "current ?s ` ?C = insert (Some u) (current s ` ?C - {Some t})"
    using inj c cur by (force simp: inj_on_def image_iff)
  have "current s x \<noteq> Some u" if "x < unat smp" for x
    using run [OF u(1)] u(2) that by (metis imageI lessThan_iff)
  then have "inj_on (current ?s) ?C" using inj by (intro inj_onI) (metis dispatch_simps(5) inj_onD lessThan_iff)
  moreover have "state_of ?s v = RUNNING \<longleftrightarrow> Some v \<in> current ?s ` ?C" if "v < ?n" for v
    unfolding img using that run neq len by (auto simp: Let_def nth_list_update)
  moreover have "tasks_wf ?s" using wf len neq by (auto simp: tasks_wf_def Let_def nth_list_update)
  moreover have "\<exists>v < ?n. current ?s d = Some v" if "d < unat smp" for d
    using inv that u by (auto simp: sched_inv_def)
  ultimately show ?thesis by (simp add: sched_inv_def)
qed

lemma sched_inv_ready:
  assumes inv: "sched_inv smp s"
  shows "unat smp \<le> unat (task_count s)"
    and "unat smp < unat (task_count s) \<Longrightarrow> \<exists>u < unat (task_count s). state_of s u \<noteq> RUNNING"
proof -
  let ?n = "unat (task_count s)" and ?C = "{..<unat smp}"
  have sub: "current s ` ?C \<subseteq> Some ` {..<?n}" and card: "card (current s ` ?C) = unat smp"
    using inv by (auto simp: sched_inv_def card_image)
  have n: "card (Some ` {..<?n}) = ?n" by (simp add: card_image)
  show "unat smp \<le> ?n" using card_mono [OF _ sub] card n by simp
  assume "unat smp < ?n"
  with card n sub have "Some ` {..<?n} - current s ` ?C \<noteq> {}" by auto
  then show "\<exists>u < ?n. state_of s u \<noteq> RUNNING" using inv by (auto simp: sched_inv_def)
qed

lemma first_ready_complete:
  assumes "t < n" "u < n" "tcb_state (ts ! u) \<noteq> RUNNING" "tcb_state (ts ! t) = RUNNING"
  obtains k where "first_ready ts n t 1 = Some k"
proof -
  let ?k = "if t \<le> u then u - t else n - t + u"
  have "u \<noteq> t" using assms by auto
  then have "(t + ?k) mod n = u" "?k < n" "1 \<le> ?k" using assms by auto
  then have "first_ready ts n t 1 \<noteq> None" using assms(3) by (auto simp: first_ready_None_iff)
  then show ?thesis using that by blast
qed

lemma do_schedule_inv:
  assumes inv: "sched_inv smp s" and c: "c < unat smp"
  obtains s' sw where "do_schedule smp s c sp = Some (s', sw)" "sched_inv smp s'"
proof (cases "task_count s = smp")
  case True
  then show ?thesis using that inv by (simp add: do_schedule_def)
next
  case False
  from sched_inv_current [OF inv c]
  obtain t where t: "current s c = Some t" "t < unat (task_count s)" "state_of s t = RUNNING" .
  have wf: "tasks_wf s" using inv by (simp add: sched_inv_def)
  have "unat smp < unat (task_count s)"
    using sched_inv_ready(1) [OF inv] False by (simp add: word_unat_eq_iff)
  with sched_inv_ready(2) [OF inv] t obtain k
    where k: "first_ready (task_list s) (unat (task_count s)) t 1 = Some k"
    by (meson first_ready_complete)
  then have "state_of s ((t + k) mod unat (task_count s)) \<noteq> RUNNING"
    by (simp add: first_ready_Some_iff)
  with inv c t have "sched_inv smp (dispatch s c t ((t + k) mod unat (task_count s)))"
    by (intro sched_inv_dispatch) auto
  with that do_schedule_cases [OF wf t(1,2) False] k show ?thesis by (simp add: Let_def)
qed

lemma timer_tick_inv:
  assumes inv: "sched_inv smp s" and c: "c < unat smp"
  obtains s' sw where "timer_tick_schedule smp s c sp = Some (s', sw)" "sched_inv smp s'"
proof -
  obtain t where t: "current s c = Some t" using sched_inv_current [OF inv c] .
  let ?s = "upd_task t (\<lambda>t. t\<lparr>tcb_counter := tcb_counter t - 1\<rparr>) s"
  let ?s' = "upd_task t (\<lambda>t. t\<lparr>tcb_counter := SYS_TASK_TICK\<rparr>) ?s"
  have inv': "sched_inv smp ?s" "sched_inv smp ?s'" using inv by (simp_all add: sched_inv_counter)
  obtain r sw where "do_schedule smp ?s' c sp = Some (r, sw)" "sched_inv smp r"
    using do_schedule_inv [OF inv'(2) c] .
  then show ?thesis using that inv' t
    by (cases "0 < tcb_counter (task_list ?s ! t)") (simp_all add: timer_tick_schedule_def Let_def)
qed

lemma tasks_wf_grow:
  assumes "tasks_wf s" "unat (task_count s) < MAX_TASKS"
  shows "unat (task_count s + 1) = Suc (unat (task_count s))"
  using assms(2) by (simp add: unat_plus_if_size MAX_TASKS_def word_size)

text \<open>What both ways to create a task do to the task table: one more waiting task.\<close>

definition grown :: "kstate \<Rightarrow> kstate \<Rightarrow> bool" where
  "grown s s' \<longleftrightarrow>
     task_list s' = (task_list s)[unat (task_count s) :=
       (task_list s ! unat (task_count s))\<lparr>tcb_id := task_count s, tcb_state := WAITING,
          tcb_cpu_info := unat (task_count s), tcb_counter := SYS_TASK_TICK\<rparr>] \<and>
     task_count s' = task_count s + 1 \<and> threads s' = threads s \<and>
     length (g_cpu_dec s') = length (g_cpu_dec s) \<and>
     length (cpu_sysregs s') = length (cpu_sysregs s)"

lemma create_task_grown:
  assumes "unat (task_count s) < MAX_TASKS" "length (task_list s) = MAX_TASKS"
  shows "grown s (fst (create_task s f st))" "grown s (fst (craete_vm_task s f))"
  using assms by (simp_all add: grown_def create_task_def craete_vm_task_def Let_def)

lemma create_task_full:
  assumes "\<not> unat (task_count s) < MAX_TASKS"
  shows "create_task s f st = (s, None)" "craete_vm_task s f = (s, None)"
  using assms by (simp_all add: create_task_def craete_vm_task_def Let_def)

lemma tasks_wf_grown:
  assumes "tasks_wf s" "unat (task_count s) < MAX_TASKS" "grown s s'"
  shows "tasks_wf s'"
  using assms by (auto simp: tasks_wf_def tasks_wf_grow grown_def less_Suc_eq)

lemma sched_inv_grown:
  assumes inv: "sched_inv smp s" and room: "unat (task_count s) < MAX_TASKS" and g: "grown s s'"
  shows "sched_inv smp s'"
proof -
  have wf: "tasks_wf s" using inv by (simp add: sched_inv_def)
  have less: "Some (unat (task_count s)) \<notin> current s ` {..<unat smp}"
    using inv by (fastforce simp: sched_inv_def)
  have thr: "threads s' = threads s" and cnt: "task_count s' = task_count s + 1"
    using g by (simp_all add: grown_def)
  have "state_of s' t = RUNNING \<longleftrightarrow> Some t \<in> current s ` {..<unat smp}"
    if "t < Suc (unat (task_count s))" for t
  proof (cases "t = unat (task_count s)")
    case True
    then show ?thesis using g less wf room by (simp add: tasks_wf_def grown_def)
  next
    case False
    with that inv g show ?thesis by (simp add: sched_inv_def grown_def)
  qed
  moreover have "\<exists>t < Suc (unat (task_count s)). current s c = Some t" if "c < unat smp" for c
    using inv that by (auto simp: sched_inv_def intro: less_SucI)
  ultimately show ?thesis using inv tasks_wf_grown [OF wf room g]
    unfolding sched_inv_def cnt thr tasks_wf_grow [OF wf room] by blast
qed

lemma create_task_inv:
  assumes "sched_inv smp s"
  shows "sched_inv smp (fst (create_task s f st))" "sched_inv smp (fst (craete_vm_task s f))"
proof -
  have "length (task_list s) = MAX_TASKS" using assms by (simp add: sched_inv_def tasks_wf_def)
  then show "sched_inv smp (fst (create_task s f st))" "sched_inv smp (fst (craete_vm_task s f))"
    using assms create_task_grown create_task_full sched_inv_grown
    by (cases "unat (task_count s) < MAX_TASKS"; simp)+
qed

subsection \<open>Steps of the system\<close>

text \<open>
  What the cores do to the scheduler's state: a timer tick, saving the interrupted context, leaving a virtual machine, creating a task. Any core may do the next
  step.
\<close>

inductive sched_step :: "u32 \<Rightarrow> kstate \<Rightarrow> kstate \<Rightarrow> bool" for smp where
  step_tick: "c < unat smp \<Longrightarrow> timer_tick_schedule smp s c sp = Some (s', sw) \<Longrightarrow> sched_step smp s s'"
| step_save: "c < unat smp \<Longrightarrow> save_cpu_ctx s c a f = Some s' \<Longrightarrow> sched_step smp s s'"
| step_vm_out: "c < unat smp \<Longrightarrow> vm_out s c hw = Some s' \<Longrightarrow> sched_step smp s s'"
| step_create: "create_task s f st = (s', r) \<Longrightarrow> sched_step smp s s'"
| step_create_vm: "craete_vm_task s f = (s', r) \<Longrightarrow> sched_step smp s s'"

lemma vm_out_inv: "sched_inv smp s \<Longrightarrow> vm_out s c hw = Some s' \<Longrightarrow> sched_inv smp s'"
  by (erule sched_inv_cong) (auto simp: vm_out_def split: bind_splits)

lemma save_cpu_ctx_inv: "sched_inv smp s \<Longrightarrow> save_cpu_ctx s c a f = Some s' \<Longrightarrow> sched_inv smp s'"
  by (auto simp: save_cpu_ctx_def sched_inv_upd_cpu split: bind_splits)

lemma sched_step_inv: "sched_step smp s s' \<Longrightarrow> sched_inv smp s \<Longrightarrow> sched_inv smp s'"
proof (induction rule: sched_step.induct)
  case (step_tick c s sp s' sw)
  then show ?case using timer_tick_inv [of smp s c sp] by auto
next
  case (step_create s f st s' r)
  then show ?case using create_task_inv(1) [of smp s f st] by simp
next
  case (step_create_vm s f s' r)
  then show ?case using create_task_inv(2) [of smp s f] by simp
qed (auto intro: vm_out_inv save_cpu_ctx_inv)

lemma sched_steps_inv: "(sched_step smp)\<^sup>*\<^sup>* s s' \<Longrightarrow> sched_inv smp s \<Longrightarrow> sched_inv smp s'"
  by (induction rule: rtranclp_induct) (auto intro: sched_step_inv)


subsection \<open>Start-up\<close>

text \<open>
  The memory the scheduler starts from: the three tables, no task, and the thread
  information block of each core with the core's number.
\<close>

definition boot_state :: "kstate \<Rightarrow> bool" where
  "boot_state s \<longleftrightarrow>
     length (task_list s) = MAX_TASKS \<and> length (g_cpu_dec s) = MAX_TASKS \<and>
     length (cpu_sysregs s) = MAX_TASKS \<and> task_count s = 0 \<and>
     (\<forall>c < MAX_TASKS. ti_cpu (threads s c) = word_of_nat c)"

fun create_tasks :: "kstate \<Rightarrow> (u64 \<times> u64) list \<Rightarrow> kstate" where
  "create_tasks s [] = s"
| "create_tasks s ((f, st) # fs) = create_tasks (fst (create_task s f st)) fs"

definition start_up :: "kstate \<Rightarrow> (u64 \<times> u64) list \<Rightarrow> nat list \<Rightarrow> kstate" where
  "start_up s fs cores = foldl schedule_init_local (create_tasks (schedule_init s) fs) cores"

lemma create_tasks_wf:
  assumes "tasks_wf s" "\<forall>t < unat (task_count s). state_of s t = WAITING"
    "unat (task_count s) + length fs \<le> MAX_TASKS"
  shows "tasks_wf (create_tasks s fs) \<and> threads (create_tasks s fs) = threads s \<and>
         unat (task_count (create_tasks s fs)) = unat (task_count s) + length fs \<and>
         (\<forall>t < unat (task_count s) + length fs. state_of (create_tasks s fs) t = WAITING)"
  using assms
proof (induction s fs rule: create_tasks.induct)
  case (2 s f st fs)
  let ?s = "fst (create_task s f st)"
  have room: "unat (task_count s) < MAX_TASKS" and len: "length (task_list s) = MAX_TASKS"
    using "2.prems" by (auto simp: tasks_wf_def)
  have g: "grown s ?s" using create_task_grown(1) [OF room len] .
  have cnt: "unat (task_count ?s) = Suc (unat (task_count s))" and thr: "threads ?s = threads s"
    using g tasks_wf_grow [OF "2.prems"(1) room] by (simp_all add: grown_def)
  have "\<forall>t < unat (task_count ?s). state_of ?s t = WAITING"
    using g cnt "2.prems"(2) room len by (auto simp: grown_def less_Suc_eq)
  with "2.IH" tasks_wf_grown [OF "2.prems"(1) room g] "2.prems"(3) cnt thr
  show ?case by simp
qed simp

lemma init_cores:
  assumes "tasks_wf s" "set cores \<subseteq> {..<unat (task_count s)}"
    "\<forall>c \<in> set cores. ti_cpu (threads s c) = word_of_nat c"
    "\<forall>t < unat (task_count s). state_of s t = RUNNING \<longleftrightarrow> t \<in> started"
    "\<forall>c \<in> started. current s c = Some c"
  shows "tasks_wf (foldl schedule_init_local s cores) \<and>
     task_count (foldl schedule_init_local s cores) = task_count s \<and>
     (\<forall>t < unat (task_count s). state_of (foldl schedule_init_local s cores) t = RUNNING \<longleftrightarrow>
        t \<in> started \<union> set cores) \<and>
     (\<forall>c \<in> started \<union> set cores. current (foldl schedule_init_local s cores) c = Some c)"
  using assms
proof (induction cores arbitrary: s started)
  case (Cons c cores)
  let ?s = "schedule_init_local s c"
  have n: "unat (task_count s) \<le> MAX_TASKS" and len: "length (task_list s) = MAX_TASKS"
    and c: "c < unat (task_count s)"
    using Cons.prems(1,2) by (auto simp: tasks_wf_def)
  have cpu: "unat (ti_cpu (threads s c)) = c"
    using Cons.prems(3) c n by (simp add: unat_task_id)
  have s: "task_count ?s = task_count s" "task_list ?s = (task_list s)[c := (task_list s ! c)\<lparr>tcb_state := RUNNING\<rparr>]"
      "g_cpu_dec ?s = g_cpu_dec s" "cpu_sysregs ?s = cpu_sysregs s"
      "\<And>d. current ?s d = (if d = c then Some c else current s d)"
      "\<And>d. ti_cpu (threads ?s d) = ti_cpu (threads s d)"
    by (simp_all add: schedule_init_local_def Let_def cpu)
  have "tasks_wf ?s" using Cons.prems(1) c n len
    by (auto simp: tasks_wf_def s nth_list_update)
  moreover have "\<forall>t < unat (task_count s). state_of ?s t = RUNNING \<longleftrightarrow> t \<in> insert c started"
    using Cons.prems(4) c n len by (auto simp: s nth_list_update)
  moreover have "\<forall>d \<in> insert c started. current ?s d = Some d"
    using Cons.prems(5) by (simp add: s)
  ultimately show ?case
    using Cons.IH [of ?s "insert c started"] Cons.prems(2,3) by (simp add: s(1,6))
qed simp

lemma single_core_inv:
  assumes "tasks_wf k" "0 < unat (task_count k)" "ti_cpu (threads k 0) = 0"
    "\<forall>t < unat (task_count k). state_of k t = WAITING"
  shows "sched_inv 1 (schedule_init_local k 0)"
  using init_cores [of k "[0]" "{}", OF assms(1)] assms(2-4) by (auto simp: sched_inv_def inj_on_def)

lemma start_up_inv:
  assumes boot: "boot_state s" and fs: "unat smp \<le> length fs" "length fs \<le> MAX_TASKS"
    and cores: "set cores = {..<unat smp}"
  shows "sched_inv smp (start_up s fs cores)"
proof -
  let ?s = "schedule_init s" and ?t = "create_tasks (schedule_init s) fs"
  have cnt: "task_count ?s = 0" and thr: "threads ?s = threads s"
    using boot by (simp_all add: schedule_init_def boot_state_def)
  have "tasks_wf ?s" using boot by (simp add: schedule_init_def tasks_wf_def boot_state_def)
  then have t: "tasks_wf ?t" "threads ?t = threads s" "unat (task_count ?t) = length fs"
      "\<forall>k < unat (task_count ?t). state_of ?t k = RUNNING \<longleftrightarrow> k \<in> {}"
    using create_tasks_wf [of ?s fs] fs cnt thr by simp_all
  have ids: "\<forall>c < MAX_TASKS. ti_cpu (threads ?t c) = word_of_nat c"
    using boot t(2) by (simp add: boot_state_def)
  let ?r = "start_up s fs cores"
  from init_cores [of ?t cores "{}", OF t(1) _ _ t(4)] ids fs cores t(3)
  have r: "tasks_wf ?r" "task_count ?r = task_count ?t"
      "\<And>k. k < length fs \<Longrightarrow> state_of ?r k = RUNNING \<longleftrightarrow> k < unat smp"
      "\<And>c. c < unat smp \<Longrightarrow> current ?r c = Some c"
    by (simp_all add: start_up_def)
  have "current ?r ` {..<unat smp} = Some ` {..<unat smp}" using r(4) by (simp add: image_def)
  moreover have "inj_on (current ?r) {..<unat smp}" using r(4) by (simp add: inj_on_def)
  ultimately show ?thesis using r t(3) fs
    by (auto simp: sched_inv_def intro: less_le_trans)
qed

text \<open>The start of \<^verbatim>\<open>main.c\<close> with its two tasks, from zeroed tables.\<close>

definition boot0 :: kstate where
  "boot0 = \<lparr>task_list = replicate MAX_TASKS \<lparr>tcb_cpu_info = 0, tcb_state = RUNNING, tcb_counter = 0,
                tcb_priority = 0, tcb_id = 0\<rparr>,
            g_cpu_dec = replicate MAX_TASKS \<lparr>cpu_ctx = \<lparr>tf_r = replicate NUM_REGS 0, tf_usp = 0,
                tf_elr = 0, tf_spsr = 0\<rparr>, cpu_pctx = 0, cpu_sys_reg = None\<rparr>,
            cpu_sysregs = replicate MAX_TASKS zero_sysregs,
            task_count = 0,
            threads = (\<lambda>c. \<lparr>ti_cpu = word_of_nat c, ti_flags = 0, ti_pgtable = 0, ti_current = None\<rparr>)\<rparr>"

definition boot_tasks :: "(u64 \<times> u64) list" where
  "boot_tasks = [(0x80000000, 0x80004000), (0x90000000, 0x90004000)]"

definition demo :: kstate where
  "demo = start_up boot0 boot_tasks [0]"

lemma boot_state_boot0: "boot_state boot0"
  by (simp add: boot_state_def boot0_def)

lemma demo_inv: "sched_inv 1 demo"
  unfolding demo_def
  by (rule start_up_inv [OF boot_state_boot0]) (auto simp: boot_tasks_def MAX_TASKS_def)

lemma demo_values: "current demo 0 = Some 0" "task_count demo = 2"
  by (simp_all add: demo_def start_up_def boot_tasks_def boot0_def schedule_init_def create_task_def
      schedule_init_local_def Let_def MAX_TASKS_def)

subsection \<open>Properties\<close>

text \<open>
  C1. After start-up with at least as many tasks as cores, whatever steps the cores take in
  whatever order, every core, a single one included, has a current task, that task is in state
  RUNNING, no other core has the same one, and the core's timer tick does not fault and leads
  to a state with the same property. A task in state RUNNING is the current task of some core.
\<close>

theorem sched_exclusive:
  assumes "boot_state s" "unat smp \<le> length fs" "length fs \<le> MAX_TASKS"
    and "set cores = {..<unat smp}"
    and "(sched_step smp)\<^sup>*\<^sup>* (start_up s fs cores) s'"
    and "c < unat smp"
  shows "(\<exists>t. current s' c = Some t \<and> t < unat (task_count s') \<and> state_of s' t = RUNNING \<and>
      (\<forall>d < unat smp. d \<noteq> c \<longrightarrow> current s' d \<noteq> Some t)) \<and>
     (\<forall>t < unat (task_count s'). state_of s' t = RUNNING \<longrightarrow> (\<exists>d < unat smp. current s' d = Some t)) \<and>
     (\<exists>s'' sw. timer_tick_schedule smp s' c sp = Some (s'', sw) \<and> sched_inv smp s'')"
proof -
  have inv: "sched_inv smp s'"
    using sched_steps_inv [OF assms(5) start_up_inv [OF assms(1-4)]] .
  obtain t where t: "current s' c = Some t" "t < unat (task_count s')" "state_of s' t = RUNNING"
    using sched_inv_current [OF inv assms(6)] by blast
  have "inj_on (current s') {..<unat smp}" using inv by (simp add: sched_inv_def)
  then have "current s' d \<noteq> Some t" if "d < unat smp" "d \<noteq> c" for d
    using inj_onD [of "current s'" "{..<unat smp}" c d] assms(6) t(1) that by auto
  moreover have "\<exists>d < unat smp. current s' d = Some u" if "u < unat (task_count s')" "state_of s' u = RUNNING" for u
    using inv that by (auto simp: sched_inv_def)
  moreover obtain s'' sw where "timer_tick_schedule smp s' c sp = Some (s'', sw)" "sched_inv smp s''"
    using timer_tick_inv [OF inv assms(6)] by blast
  ultimately show ?thesis using t by blast
qed

text \<open>Two cores and two tasks; core 1 initialises itself first.\<close>

theorem sched_exclusive_witness:
  "let s' = start_up boot0 boot_tasks [1, 0] in
     (\<exists>t. current s' 1 = Some t \<and> t < unat (task_count s') \<and> state_of s' t = RUNNING \<and>
      (\<forall>d < unat (2 :: u32). d \<noteq> 1 \<longrightarrow> current s' d \<noteq> Some t)) \<and>
     (\<forall>t < unat (task_count s'). state_of s' t = RUNNING \<longrightarrow> (\<exists>d < unat (2 :: u32). current s' d = Some t)) \<and>
     (\<exists>s'' sw. timer_tick_schedule 2 s' 1 None = Some (s'', sw) \<and> sched_inv 2 s'')"
  unfolding Let_def
  by (rule sched_exclusive [OF boot_state_boot0, of 2 boot_tasks "[1, 0]"])
     (auto simp: boot_tasks_def MAX_TASKS_def)

lemma sched_inv_pick:
  assumes inv: "sched_inv smp s" and c: "c < unat smp" and cur: "current s c = Some t"
    and more: "smp < task_count s"
  obtains k where "first_ready (task_list s) (unat (task_count s)) t 1 = Some k"
    and "do_schedule smp s c sp =
      (let u = (t + k) mod unat (task_count s) in Some (dispatch s c t u, switch_to s sp t u))"
proof -
  have t: "t < unat (task_count s)" "state_of s t = RUNNING"
    using sched_inv_current [OF inv c] cur by auto
  obtain k where k: "first_ready (task_list s) (unat (task_count s)) t 1 = Some k"
    using sched_inv_ready(2) [OF inv] more t by (meson first_ready_complete word_less_nat_alt)
  have "do_schedule smp s c sp =
      (let u = (t + k) mod unat (task_count s) in Some (dispatch s c t u, switch_to s sp t u))"
    using do_schedule_cases [of s c t smp sp] inv cur t(1) more k by (auto simp: sched_inv_def)
  with k show ?thesis using that by blast
qed

text \<open>
  C2. With more tasks than cores \<^verbatim>\<open>_schedule\<close> always finds the next task: the first in
  cyclic order after the current one that is waiting. The old task becomes waiting, the new
  one running and current on this core, and the trap frame receives the saved context of the
  new task. Nothing else changes: no other member of the two task control blocks (their
  counters and numbers included), no other block, no saved context, no saved system register
  and no other core.
\<close>

theorem schedule_round_robin:
  assumes "sched_inv smp s" "c < unat smp" "current s c = Some t" "smp < task_count s"
  shows "\<exists>k s'. let n = unat (task_count s); u = (t + k) mod n in
     1 \<le> k \<and> k < n \<and> u \<noteq> t \<and> state_of s u = WAITING \<and>
     (\<forall>j \<in> {1..<k}. state_of s ((t + j) mod n) = RUNNING) \<and>
     do_schedule smp s c (Some f) = Some (s', Switch_frame (ctx_of s u)) \<and>
     s' = s\<lparr>task_list := (task_list s)[t := (task_list s ! t)\<lparr>tcb_state := WAITING\<rparr>,
                                       u := (task_list s ! u)\<lparr>tcb_state := RUNNING\<rparr>],
            threads := (threads s)(c := (threads s c)\<lparr>ti_current := Some u\<rparr>)\<rparr> \<and>
     sched_inv smp s'"
proof -
  let ?n = "unat (task_count s)"
  obtain k where k: "first_ready (task_list s) ?n t 1 = Some k" and
    d: "do_schedule smp s c (Some f) =
      (let u = (t + k) mod ?n in Some (dispatch s c t u, switch_to s (Some f) t u))"
    using sched_inv_pick [OF assms] .
  have t: "t < ?n" "state_of s t = RUNNING" using sched_inv_current [OF assms(1,2)] assms(3) by auto
  have u: "1 \<le> k" "k < ?n" "state_of s ((t + k) mod ?n) \<noteq> RUNNING"
      "\<forall>j \<in> {1..<k}. state_of s ((t + j) mod ?n) = RUNNING"
    using k by (auto simp: first_ready_Some_iff)
  have w: "state_of s ((t + k) mod ?n) = WAITING" using u(3) by (cases "state_of s ((t + k) mod ?n)") auto
  have ne: "(t + k) mod ?n \<noteq> t" using t u(3) by auto
  moreover have "sched_inv smp (dispatch s c t ((t + k) mod ?n))"
    using sched_inv_dispatch [OF assms(1-3) _ u(3)] t by simp
  moreover have "dispatch s c t ((t + k) mod ?n) =
      s\<lparr>task_list := (task_list s)[t := (task_list s ! t)\<lparr>tcb_state := WAITING\<rparr>,
          (t + k) mod ?n := (task_list s ! ((t + k) mod ?n))\<lparr>tcb_state := RUNNING\<rparr>],
        threads := (threads s)(c := (threads s c)\<lparr>ti_current := Some ((t + k) mod ?n)\<rparr>)\<rparr>"
    using ne by (simp add: dispatch_def upd_task_def Let_def)
  ultimately show ?thesis using d u w
    by (intro exI [of _ k] exI [of _ "dispatch s c t ((t + k) mod ?n)"])
       (simp add: Let_def switch_to_def)
qed

theorem schedule_round_robin_witness:
  "\<exists>k s'. let n = unat (task_count demo); u = (0 + k) mod n in
     1 \<le> k \<and> k < n \<and> u \<noteq> 0 \<and> state_of demo u = WAITING \<and>
     (\<forall>j \<in> {1..<k}. state_of demo ((0 + j) mod n) = RUNNING) \<and>
     do_schedule 1 demo 0 (Some (ctx_of demo 0)) = Some (s', Switch_frame (ctx_of demo u)) \<and>
     s' = demo\<lparr>task_list := (task_list demo)[0 := (task_list demo ! 0)\<lparr>tcb_state := WAITING\<rparr>,
                                             u := (task_list demo ! u)\<lparr>tcb_state := RUNNING\<rparr>],
               threads := (threads demo)(0 := (threads demo 0)\<lparr>ti_current := Some u\<rparr>)\<rparr> \<and>
     sched_inv 1 s'"
  by (rule schedule_round_robin [OF demo_inv]) (simp_all add: demo_values)

text \<open>Repeated calls of \<^verbatim>\<open>_schedule\<close> on one core.\<close>

fun sched_rounds :: "u32 \<Rightarrow> nat \<Rightarrow> kstate \<Rightarrow> nat \<Rightarrow> trap_frame_t \<Rightarrow> kstate option" where
  "sched_rounds smp 0 s c f = Some s"
| "sched_rounds smp (Suc k) s c f =
     (case do_schedule smp s c (Some f) of
        Some (s', Switch_frame f') \<Rightarrow> sched_rounds smp k s' c f'
      | _ \<Rightarrow> None)"

lemma first_ready_single:
  assumes "sched_inv 1 s" "current s 0 = Some t" "1 < task_count s"
  shows "first_ready (task_list s) (unat (task_count s)) t 1 = Some 1"
proof -
  let ?n = "unat (task_count s)"
  have n: "1 < ?n" using assms(3) by (simp add: word_less_nat_alt)
  have "t < ?n" using assms(1,2) sched_inv_current [of 1 s 0] by auto
  with n have "(t + 1) mod ?n \<noteq> t" "(t + 1) mod ?n < ?n"
    by (auto simp: mod_Suc mod_if)
  moreover from this assms(1,2) have "state_of s ((t + 1) mod ?n) \<noteq> RUNNING"
    by (auto simp: sched_inv_def lessThan_Suc)
  ultimately show ?thesis using n by (simp add: first_ready_Some_iff)
qed

lemma rounds_step:
  assumes "sched_inv 1 s" "current s 0 = Some t" "1 < task_count s"
  obtains f' where "do_schedule 1 s 0 (Some f) =
    Some (dispatch s 0 t ((t + 1) mod unat (task_count s)), Switch_frame f')"
    and "sched_inv 1 (dispatch s 0 t ((t + 1) mod unat (task_count s)))"
proof -
  obtain k where k: "first_ready (task_list s) (unat (task_count s)) t 1 = Some k" and
    d: "do_schedule 1 s 0 (Some f) = (let u = (t + k) mod unat (task_count s)
          in Some (dispatch s 0 t u, switch_to s (Some f) t u))"
    using sched_inv_pick [OF assms(1) _ assms(2,3)] by auto
  have "k = 1" using first_ready_single [OF assms] k by simp
  moreover obtain s' sw where "do_schedule 1 s 0 (Some f) = Some (s', sw)" "sched_inv 1 s'"
    using do_schedule_inv [OF assms(1), of 0] by auto
  ultimately show ?thesis
    using d by (intro that [of "ctx_of s ((t + 1) mod unat (task_count s))"]) (simp_all add: Let_def switch_to_def)
qed

text \<open>
  C4. On a single core the scheduler is fair: after \<open>k\<close> switches from task \<open>t\<close> the
  current task is \<open>(t + k) mod n\<close>, so each of the \<open>n\<close> tasks runs once in every \<open>n\<close>
  switches.
\<close>

theorem single_core_fair:
  assumes "sched_inv 1 s" "current s 0 = Some t" "1 < task_count s"
  shows "\<exists>s'. sched_rounds 1 k s 0 f = Some s' \<and>
     current s' 0 = Some ((t + k) mod unat (task_count s))"
  using assms
proof (induction k arbitrary: s t f)
  case 0
  then have "t < unat (task_count s)" using sched_inv_current [of 1 s 0] by auto
  with 0 show ?case by simp
next
  case (Suc k)
  obtain f' where d: "do_schedule 1 s 0 (Some f) =
      Some (dispatch s 0 t ((t + 1) mod unat (task_count s)), Switch_frame f')"
    and inv: "sched_inv 1 (dispatch s 0 t ((t + 1) mod unat (task_count s)))"
    using rounds_step [OF Suc.prems] .
  from Suc.IH [OF inv, of "(t + 1) mod unat (task_count s)" f'] Suc.prems(3) d
  show ?case by (simp add: mod_simps)
qed

theorem single_core_fair_witness:
  "\<exists>s'. sched_rounds 1 5 demo 0 (ctx_of demo 0) = Some s' \<and>
     current s' 0 = Some ((0 + 5) mod unat (task_count demo))"
  by (rule single_core_fair [OF demo_inv]) (simp_all add: demo_values)


subsection \<open>Saved contexts\<close>

lemma do_schedule_frame:
  assumes "do_schedule smp s c sp = Some (s', sw)"
  shows "g_cpu_dec s' = g_cpu_dec s" "cpu_sysregs s' = cpu_sysregs s" "task_count s' = task_count s"
  using assms by (auto simp: do_schedule_def Let_def split: if_splits bind_splits prod.splits option.splits)

lemma timer_tick_frame:
  assumes "timer_tick_schedule smp s c sp = Some (s', sw)"
  shows "g_cpu_dec s' = g_cpu_dec s" "task_count s' = task_count s"
  using assms
  by (auto simp: timer_tick_schedule_def Let_def split: if_splits bind_splits dest: do_schedule_frame)

text \<open>A switch of the frame installs the saved context of the task that becomes current.\<close>

lemma tick_switch:
  assumes inv: "sched_inv smp s" and c: "c < unat smp"
    and tick: "timer_tick_schedule smp s c (Some f) = Some (s', Switch_frame h)"
  shows "\<exists>u. current s' c = Some u \<and> h = ctx_of s u"
proof -
  obtain t where t: "current s c = Some t" using sched_inv_current [OF inv c] .
  let ?s = "upd_task t (\<lambda>t. t\<lparr>tcb_counter := SYS_TASK_TICK\<rparr>)
              (upd_task t (\<lambda>t. t\<lparr>tcb_counter := tcb_counter t - 1\<rparr>) s)"
  have inv': "sched_inv smp ?s" using inv by (simp add: sched_inv_counter)
  have d: "do_schedule smp ?s c (Some f) = Some (s', Switch_frame h)"
    using tick t by (simp add: timer_tick_schedule_def Let_def split: if_splits)
  have "task_count ?s \<noteq> smp" using d by (auto simp: do_schedule_def split: if_splits)
  then have "smp < task_count ?s"
    using sched_inv_ready(1) [OF inv'] by (simp add: word_less_nat_alt word_unat_eq_iff)
  moreover have "current ?s c = Some t" using t by simp
  ultimately obtain k where "do_schedule smp ?s c (Some f) =
      (let u = (t + k) mod unat (task_count ?s) in Some (dispatch ?s c t u, switch_to ?s (Some f) t u))"
    using sched_inv_pick [OF inv' c] by blast
  with d show ?thesis by (auto simp: Let_def switch_to_def)
qed

lemma save_cpu_ctx_ctx:
  assumes inv: "sched_inv smp s" and c: "c < unat smp" and cur: "current s c = Some t"
    and save: "save_cpu_ctx s c a f = Some s'"
  shows "g_cpu_dec s' = (g_cpu_dec s)[t := (g_cpu_dec s ! t)\<lparr>cpu_ctx := f, cpu_pctx := a\<rparr>]"
    and "t < length (g_cpu_dec s)" and "current s' = current s" and "task_count s' = task_count s"
proof -
  have t: "t < unat (task_count s)" using sched_inv_current [OF inv c] cur by auto
  then have "tcb_cpu_info (task_list s ! t) = t" and len: "t < length (g_cpu_dec s)"
    using inv by (auto simp: sched_inv_def tasks_wf_def)
  then show "g_cpu_dec s' = (g_cpu_dec s)[t := (g_cpu_dec s ! t)\<lparr>cpu_ctx := f, cpu_pctx := a\<rparr>]"
      "t < length (g_cpu_dec s)" "current s' = current s" "task_count s' = task_count s"
    using save cur by (auto simp: save_cpu_ctx_def)
qed

text \<open>A step leaves the saved context of a task that is not running as it is.\<close>

lemma sched_step_ctx:
  assumes "sched_step smp s s'" "sched_inv smp s" "state_of s t \<noteq> RUNNING" "t < unat (task_count s)"
  shows "ctx_of s' t = ctx_of s t \<and> t < unat (task_count s')"
  using assms
proof (induction rule: sched_step.induct)
  case (step_tick c s sp s' sw)
  then show ?case by (simp add: timer_tick_frame [OF step_tick(2)])
next
  case (step_save c s a f s')
  obtain u where u: "current s c = Some u" "state_of s u = RUNNING"
    using sched_inv_current [OF step_save.prems(1) step_save.hyps(1)] by blast
  with step_save.prems have "u \<noteq> t" by auto
  with step_save.prems save_cpu_ctx_ctx [OF step_save.prems(1) step_save.hyps(1) u(1) step_save.hyps(2)]
  show ?case by simp
next
  case (step_vm_out c s hw s')
  then show ?case by (auto simp: vm_out_def split: bind_splits)
next
  case (step_create s f st s' r)
  then show ?case
    by (auto simp: create_task_def Let_def MAX_TASKS_def unat_plus_if_size word_size split: if_splits)
next
  case (step_create_vm s f s' r)
  then show ?case
    by (auto simp: craete_vm_task_def Let_def MAX_TASKS_def unat_plus_if_size word_size split: if_splits)
qed

text \<open>Runs of the system in which task \<open>t\<close> is not running before any step.\<close>

inductive steps_off :: "u32 \<Rightarrow> nat \<Rightarrow> kstate \<Rightarrow> kstate \<Rightarrow> bool" for smp t where
  off_refl: "steps_off smp t s s"
| off_step: "steps_off smp t s s' \<Longrightarrow> state_of s' t \<noteq> RUNNING \<Longrightarrow> sched_step smp s' s'' \<Longrightarrow>
     steps_off smp t s s''"

lemma steps_off_ctx:
  assumes "steps_off smp t s s'" "sched_inv smp s" "t < unat (task_count s)"
  shows "ctx_of s' t = ctx_of s t \<and> t < unat (task_count s') \<and> sched_inv smp s'"
  using assms
proof (induction rule: steps_off.induct)
  case (off_step s s' s'')
  then have *: "ctx_of s' t = ctx_of s t" "t < unat (task_count s')" "sched_inv smp s'" by simp_all
  show ?case
    using sched_step_ctx [OF off_step.hyps(3) *(3) off_step.hyps(2) *(2)]
      sched_step_inv [OF off_step.hyps(3) *(3)] *(1) by simp
qed simp

text \<open>
  C3. A preempted task resumes where it was interrupted: when a timer interrupt on core
  \<open>c\<close> saves frame \<open>f\<close> of task \<open>t\<close> and ticks, then after any steps of any cores that do not
  run \<open>t\<close>, a tick on whatever core \<open>d\<close> that switches to \<open>t\<close> loads exactly \<open>f\<close>.
\<close>

theorem preempted_resumes:
  assumes "sched_inv smp s" "c < unat smp" "current s c = Some t"
    and "save_cpu_ctx s c a f = Some s1"
    and "timer_tick_schedule smp s1 c (Some f) = Some (s2, sw)"
    and "steps_off smp t s2 s3" "d < unat smp"
    and "timer_tick_schedule smp s3 d (Some g) = Some (s4, Switch_frame h)"
    and "current s4 d = Some t"
  shows "h = f"
proof -
  note sv = save_cpu_ctx_ctx [OF assms(1-4)]
  have inv1: "sched_inv smp s1" using save_cpu_ctx_inv [OF assms(1,4)] .
  have inv2: "sched_inv smp s2" using timer_tick_inv [OF inv1 assms(2)] assms(5) by (metis Pair_inject option.inject)
  have "t < unat (task_count s)" using sched_inv_current [OF assms(1,2)] assms(3) by auto
  then have t: "t < unat (task_count s2)" "ctx_of s2 t = f"
    using sv timer_tick_frame [OF assms(5)] by simp_all
  from steps_off_ctx [OF assms(6) inv2 t(1)] have "ctx_of s3 t = f" and inv3: "sched_inv smp s3"
    by (simp_all add: t)
  with tick_switch [OF inv3 assms(7,8)] assms(9) show ?thesis by simp
qed

lemma demo_task: "tcb_counter (task_list demo ! 0) = 20" "tcb_cpu_info (task_list demo ! 0) = 0"
  by (simp_all add: demo_def start_up_def boot_tasks_def boot0_def schedule_init_def create_task_def
      schedule_init_local_def Let_def MAX_TASKS_def SYS_TASK_TICK_def)

text \<open>Two ticks in a row at which a time slice ends: task 0 is preempted, then resumed.\<close>

definition demo_last :: kstate where
  "demo_last = upd_task 1 (\<lambda>t. t\<lparr>tcb_counter := 1\<rparr>) (upd_task 0 (\<lambda>t. t\<lparr>tcb_counter := 1\<rparr>) demo)"

definition demo_frame :: trap_frame_t where
  "demo_frame = \<lparr>tf_r = replicate NUM_REGS 7, tf_usp = 1, tf_elr = 2, tf_spsr = 3\<rparr>"

lemma demo_last_inv: "sched_inv 1 demo_last"
  by (simp add: demo_last_def sched_inv_counter demo_inv)

lemma slice_ends:
  assumes inv: "sched_inv 1 s" and cur: "current s 0 = Some t" and n: "task_count s = 2"
    and cnt: "tcb_counter (task_list s ! t) = 1"
  obtains s' h where "timer_tick_schedule 1 s 0 (Some f) = Some (s', Switch_frame h)"
    "current s' 0 = Some ((t + 1) mod 2)" "sched_inv 1 s'" "task_count s' = 2"
    "\<And>u. u \<noteq> t \<Longrightarrow> tcb_counter (task_list s' ! u) = tcb_counter (task_list s ! u)"
proof -
  let ?s = "upd_task t (\<lambda>t. t\<lparr>tcb_counter := SYS_TASK_TICK\<rparr>)
              (upd_task t (\<lambda>t. t\<lparr>tcb_counter := tcb_counter t - 1\<rparr>) s)"
  have inv': "sched_inv 1 ?s" using inv by (simp add: sched_inv_counter)
  have t: "t < length (task_list s)"
    using sched_inv_current [OF inv, of 0] cur inv by (auto simp: sched_inv_def tasks_wf_def)
  have "(t + 1) mod 2 < length (task_list s)" using inv by (simp add: sched_inv_def tasks_wf_def MAX_TASKS_def)
  moreover obtain h where "do_schedule 1 ?s 0 (Some f) = Some (dispatch ?s 0 t ((t + 1) mod 2), Switch_frame h)"
      "sched_inv 1 (dispatch ?s 0 t ((t + 1) mod 2))"
    using rounds_step [OF inv', of t f] cur n by auto
  ultimately show ?thesis using cur n cnt t
    by (intro that [of "dispatch ?s 0 t ((t + 1) mod 2)" h])
       (simp_all add: timer_tick_schedule_def Let_def nth_list_update)
qed

theorem preempted_resumes_witness:
  "\<exists>s1 s2 s4 sw h. save_cpu_ctx demo_last 0 0 demo_frame = Some s1 \<and>
     timer_tick_schedule 1 s1 0 (Some demo_frame) = Some (s2, sw) \<and>
     timer_tick_schedule 1 s2 0 (Some (ctx_of demo 1)) = Some (s4, Switch_frame h) \<and>
     current s4 0 = Some 0 \<and> h = demo_frame"
proof -
  have cur: "current demo_last 0 = Some 0" by (simp add: demo_last_def demo_values)
  have len: "length (task_list demo) = MAX_TASKS"
    using demo_inv by (simp add: sched_inv_def tasks_wf_def)
  let ?s1 = "upd_cpu 0 (\<lambda>p. p\<lparr>cpu_ctx := demo_frame, cpu_pctx := 0\<rparr>) demo_last"
  have s1: "save_cpu_ctx demo_last 0 0 demo_frame = Some ?s1"
    using cur len by (simp add: save_cpu_ctx_def demo_last_def demo_task MAX_TASKS_def)
  have inv1: "sched_inv 1 ?s1" by (simp add: sched_inv_upd_cpu demo_last_inv)
  have f1: "current ?s1 0 = Some 0" "task_count ?s1 = 2" "tcb_counter (task_list ?s1 ! 0) = 1"
      "tcb_counter (task_list ?s1 ! 1) = 1"
    using len by (simp_all add: demo_last_def demo_values MAX_TASKS_def)
  obtain s2 h2 where s2: "timer_tick_schedule 1 ?s1 0 (Some demo_frame) = Some (s2, Switch_frame h2)"
      "current s2 0 = Some ((0 + 1) mod 2)" "sched_inv 1 s2" "task_count s2 = 2"
      "\<And>u. u \<noteq> 0 \<Longrightarrow> tcb_counter (task_list s2 ! u) = tcb_counter (task_list ?s1 ! u)"
    using slice_ends [OF inv1 f1(1-3), of demo_frame] by metis
  have "tcb_counter (task_list s2 ! ((0 + 1) mod 2)) = 1" using s2(5) [of 1] f1(4) by simp
  then obtain s4 h where s4: "timer_tick_schedule 1 s2 0 (Some (ctx_of demo 1)) = Some (s4, Switch_frame h)"
      "current s4 0 = Some 0"
    using slice_ends [OF s2(3,2,4), of "ctx_of demo 1"] by (metis add_self_mod_2 mod_add_left_eq add_0)
  have "h = demo_frame"
    by (rule preempted_resumes [OF demo_last_inv _ cur s1 s2(1) off_refl _ s4]) simp_all
  with s1 s2(1) s4 show ?thesis by blast
qed


subsection \<open>Time slices\<close>

text \<open>Timer ticks on core \<open>c\<close> none of which switches.\<close>

fun quiet_ticks :: "u32 \<Rightarrow> nat \<Rightarrow> kstate \<Rightarrow> nat \<Rightarrow> trap_frame_t option \<Rightarrow> kstate option" where
  "quiet_ticks smp 0 s c sp = Some s"
| "quiet_ticks smp (Suc k) s c sp =
     (case timer_tick_schedule smp s c sp of
        Some (s', No_switch) \<Rightarrow> quiet_ticks smp k s' c sp
      | _ \<Rightarrow> None)"

lemma upd_task_id: "i < length (task_list s) \<Longrightarrow> f (task_list s ! i) = task_list s ! i \<Longrightarrow> upd_task i f s = s"
  by (simp add: upd_task_def)

lemma upd_counter_twice:
  "i < length (task_list s) \<Longrightarrow>
     upd_task i (\<lambda>t. t\<lparr>tcb_counter := g t\<rparr>) (upd_task i (\<lambda>t. t\<lparr>tcb_counter := f t\<rparr>) s) =
     upd_task i (\<lambda>t. t\<lparr>tcb_counter := g (t\<lparr>tcb_counter := f t\<rparr>)\<rparr>) s"
  by (simp add: upd_task_def)

text \<open>
  A time slice is exact: with \<open>k + 1\<close> ticks left, \<open>k\<close> ticks only count down, and the
  next one refills the slice and calls \<^verbatim>\<open>_schedule\<close>.
\<close>

theorem slice_exact:
  assumes "current s c = Some t" "t < length (task_list s)"
    and "unat (tcb_counter (task_list s ! t)) = Suc k"
  shows "\<exists>s'. quiet_ticks smp k s c sp = Some s' \<and>
     timer_tick_schedule smp s' c sp =
       do_schedule smp (upd_task t (\<lambda>t. t\<lparr>tcb_counter := SYS_TASK_TICK\<rparr>) s) c sp"
  using assms
proof (induction k arbitrary: s)
  case 0
  then have "tcb_counter (task_list s ! t) = 1" by (simp add: word_unat_eq_iff)
  with 0 show ?case
    by (simp add: timer_tick_schedule_def Let_def upd_counter_twice)
next
  case (Suc k)
  let ?s = "upd_task t (\<lambda>t. t\<lparr>tcb_counter := tcb_counter t - 1\<rparr>) s"
  have nz: "tcb_counter (task_list s ! t) \<noteq> 0" using Suc.prems(3) by auto
  then have u: "unat (tcb_counter (task_list s ! t) - 1) = Suc k"
    using Suc.prems(3) by (simp add: unat_minus_one)
  then have "0 < tcb_counter (task_list s ! t) - 1" by (auto simp: word_less_nat_alt)
  then have "timer_tick_schedule smp s c sp = Some (?s, No_switch)"
    using Suc.prems(1,2) by (simp add: timer_tick_schedule_def Let_def)
  moreover have "\<exists>s'. quiet_ticks smp k ?s c sp = Some s' \<and> timer_tick_schedule smp s' c sp =
       do_schedule smp (upd_task t (\<lambda>t. t\<lparr>tcb_counter := SYS_TASK_TICK\<rparr>) ?s) c sp"
    using Suc.prems u by (intro Suc.IH) simp_all
  ultimately show ?case using Suc.prems(2) by (simp add: upd_counter_twice)
qed

lemma demo_len: "length (task_list demo) = MAX_TASKS"
  using demo_inv by (simp add: sched_inv_def tasks_wf_def)

theorem slice_exact_witness:
  "\<exists>s'. quiet_ticks 1 19 demo 0 None = Some s' \<and>
     timer_tick_schedule 1 s' 0 None =
       do_schedule 1 (upd_task 0 (\<lambda>t. t\<lparr>tcb_counter := SYS_TASK_TICK\<rparr>) demo) 0 None"
  by (rule slice_exact) (simp_all add: demo_values demo_task demo_len MAX_TASKS_def)

subsection \<open>Fewer tasks than cores\<close>

text \<open>
  When no task is waiting and the number of tasks is not the number of cores, the search
  ends on its last candidate although that task is running: the trap frame is overwritten
  with the saved context of a task that runs on another core, while the current task of this
  core stays the same.
\<close>

theorem overcommit_switch:
  assumes "tasks_wf s" "current s c = Some t" "t < unat (task_count s)"
    and "1 < task_count s" "task_count s \<noteq> smp"
    and "\<forall>u < unat (task_count s). state_of s u = RUNNING"
  shows "\<exists>u. u \<noteq> t \<and> state_of s u = RUNNING \<and>
     do_schedule smp s c (Some f) = Some (s, Switch_frame (ctx_of s u))"
proof -
  let ?n = "unat (task_count s)"
  let ?u = "(t + (?n - 1)) mod ?n"
  have n: "1 < ?n" using assms(4) by (simp add: word_less_nat_alt)
  have "first_ready (task_list s) ?n t 1 = None"
    using assms(3,6) by (simp add: first_ready_None_iff)
  then have "do_schedule smp s c (Some f) = Some (s, Switch_frame (ctx_of s ?u))"
    using do_schedule_cases [OF assms(1-3,5)] n by (simp add: switch_to_def)
  moreover have "?u \<noteq> t" "?u < ?n" using assms(3) n by (auto simp: mod_if)
  ultimately show ?thesis using assms(6) by blast
qed

text \<open>Two tasks on three cores.\<close>

definition demo3 :: kstate where
  "demo3 = start_up boot0 boot_tasks [0, 1, 2]"

lemma demo3_values: "current demo3 0 = Some 0" "task_count demo3 = 2"
    "state_of demo3 0 = RUNNING" "state_of demo3 1 = RUNNING" "length (task_list demo3) = 64"
    "length (g_cpu_dec demo3) = 64" "length (cpu_sysregs demo3) = 64"
    "tcb_id (task_list demo3 ! 0) = 0" "tcb_id (task_list demo3 ! 1) = 1"
    "tcb_cpu_info (task_list demo3 ! 0) = 0" "tcb_cpu_info (task_list demo3 ! 1) = 1"
  by (simp_all add: demo3_def start_up_def boot_tasks_def boot0_def schedule_init_def create_task_def
      schedule_init_local_def Let_def MAX_TASKS_def)

theorem overcommit_switch_witness:
  "\<exists>u. u \<noteq> 0 \<and> state_of demo3 u = RUNNING \<and>
     do_schedule 3 demo3 0 (Some demo_frame) = Some (demo3, Switch_frame (ctx_of demo3 u))"
proof (rule overcommit_switch)
  show "tasks_wf demo3" by (auto simp: tasks_wf_def demo3_values demo3_values [simplified] MAX_TASKS_def less_2_cases_iff)
  show "\<forall>u < unat (task_count demo3). state_of demo3 u = RUNNING"
    by (auto simp: demo3_values demo3_values [simplified] less_2_cases_iff)
qed (simp_all add: demo3_values)

subsection \<open>Virtual machines\<close>

text \<open>
  C5. Leaving a virtual machine and entering it again gives the guest its system registers
  back, whatever ran on the core in between: every register \<^verbatim>\<open>save_sysregs\<close> stores is reloaded,
  the two identification registers into the registers that shadow them.
\<close>

theorem vm_out_in_roundtrip:
  assumes "vm_out s c hw = Some s'"
    and "current s c = Some t" "cpu_sys_reg (g_cpu_dec s ! tcb_cpu_info (task_list s ! t)) = Some k"
    and "k < length (cpu_sysregs s)"
    and "midr_el1 hw' = midr_el1 hw" "mpidr_el1 hw' = mpidr_el1 hw"
  shows "\<exists>r. vm_in s' c hw' = Some r \<and> save_sysregs r = save_sysregs hw \<and>
     vpidr_el2 r = midr_el1 hw \<and> vmpidr_el2 r = mpidr_el1 hw"
proof -
  have s': "s' = s\<lparr>cpu_sysregs := (cpu_sysregs s)[k := save_sysregs hw]\<rparr>"
    using assms(1-3) by (simp add: vm_out_def)
  then have "vm_in s' c hw' = Some (restore_sysregs (save_sysregs hw) hw')"
    using assms(2-4) by (simp add: vm_in_def)
  then show ?thesis using assms(5,6)
    by (simp add: restore_save save_sysregs_def) (simp add: restore_sysregs_def)
qed

definition demo_vm :: kstate where
  "demo_vm = schedule_init_local (fst (craete_vm_task (schedule_init boot0) 0x70200000)) 0"

definition demo_core :: core_regs where
  "demo_core = restore_sysregs zero_sysregs
     (cpu_sysregs_t.extend (zero_sysregs\<lparr>midr_el1 := 5, mpidr_el1 := 6\<rparr>) (core_regs.fields 0 0))"

theorem vm_out_in_roundtrip_witness:
  "\<exists>s' r. vm_out demo_vm 0 demo_core = Some s' \<and>
     vm_in s' 0 (demo_core\<lparr>ttbr0_el1 := 9, sp_el1 := 8\<rparr>) = Some r \<and>
     save_sysregs r = save_sysregs demo_core \<and>
     vpidr_el2 r = midr_el1 demo_core \<and> vmpidr_el2 r = mpidr_el1 demo_core"
proof -
  have vm: "current demo_vm 0 = Some 0" "tcb_cpu_info (task_list demo_vm ! 0) = 0"
      "cpu_sys_reg (g_cpu_dec demo_vm ! 0) = Some 0" "length (cpu_sysregs demo_vm) = 64"
    by (simp_all add: demo_vm_def boot0_def schedule_init_def craete_vm_task_def
        schedule_init_local_def Let_def MAX_TASKS_def)
  obtain s' where s': "vm_out demo_vm 0 demo_core = Some s'"
    using vm by (simp add: vm_out_def)
  with vm_out_in_roundtrip [OF s' vm(1), of 0 "demo_core\<lparr>ttbr0_el1 := 9, sp_el1 := 8\<rparr>"] vm
  show ?thesis by auto
qed


end
