(* ===== verification/Mmio.thy ===== *)
theory Mmio
  imports Prelude
begin

text \<open>
  Memory-mapped device registers (the accessors of \<^verbatim>\<open>include/io.h\<close>). The hardware is a
  parameter: a device answers a read with a value that may depend on all accesses made
  before, so every behaviour of every device is some function of type \<open>dev\<close>. The state
  a driver threads is the history of accesses, oldest first.
\<close>

datatype access =
    Rd u64
  | Wr8 u64 u8
  | Wr16 u64 "16 word"
  | Wr32 u64 u32
  | Wr64 u64 u64

type_synonym hist = "access list"
type_synonym dev = "hist \<Rightarrow> u64 \<Rightarrow> u64"

definition read8 :: "dev \<Rightarrow> u64 \<Rightarrow> hist \<Rightarrow> u8 \<times> hist" where
  "read8 dev addr h = (ucast (dev h addr), h @ [Rd addr])"

definition write8 :: "u8 \<Rightarrow> u64 \<Rightarrow> hist \<Rightarrow> hist" where
  "write8 val addr h = h @ [Wr8 addr val]"

definition read16 :: "dev \<Rightarrow> u64 \<Rightarrow> hist \<Rightarrow> 16 word \<times> hist" where
  "read16 dev addr h = (ucast (dev h addr), h @ [Rd addr])"

definition write16 :: "16 word \<Rightarrow> u64 \<Rightarrow> hist \<Rightarrow> hist" where
  "write16 val addr h = h @ [Wr16 addr val]"

definition read32 :: "dev \<Rightarrow> u64 \<Rightarrow> hist \<Rightarrow> u32 \<times> hist" where
  "read32 dev addr h = (ucast (dev h addr), h @ [Rd addr])"

definition write32 :: "u32 \<Rightarrow> u64 \<Rightarrow> hist \<Rightarrow> hist" where
  "write32 val addr h = h @ [Wr32 addr val]"

definition read64 :: "dev \<Rightarrow> u64 \<Rightarrow> hist \<Rightarrow> u64 \<times> hist" where
  "read64 dev addr h = (dev h addr, h @ [Rd addr])"

definition write64 :: "u64 \<Rightarrow> u64 \<Rightarrow> hist \<Rightarrow> hist" where
  "write64 val addr h = h @ [Wr64 addr val]"

lemmas mmio_defs =
  read8_def write8_def read16_def write16_def read32_def write32_def read64_def write64_def

text \<open>The writes of a history: what the device is told.\<close>

fun is_write :: "access \<Rightarrow> bool" where
  "is_write (Rd a) = False"
| "is_write _ = True"

definition writes :: "hist \<Rightarrow> hist" where
  "writes h = filter is_write h"

lemma writes_append [simp]: "writes (h @ h') = writes h @ writes h'"
  by (simp add: writes_def)

lemma writes_simps [simp]:
  "writes [] = []" "writes (Rd a # h) = writes h"
  "writes (Wr8 a b # h) = Wr8 a b # writes h" "writes (Wr16 a c # h) = Wr16 a c # writes h"
  "writes (Wr32 a v # h) = Wr32 a v # writes h" "writes (Wr64 a w # h) = Wr64 a w # writes h"
  by (simp_all add: writes_def)


subsection \<open>Waiting for a device\<close>

text \<open>
  A loop that reads a status register until the answer satisfies a condition, and then finishes: it
  polls exactly until the first such answer.
\<close>

locale polling =
  fixes dev :: dev and status :: u64 and done_flag :: "u64 \<Rightarrow> bool" and finish :: "hist \<Rightarrow> 'a option" and loop :: "hist \<Rightarrow> 'a option"
  assumes loop_eq: "loop h = (if done_flag (dev h status) then finish (h @ [Rd status]) else loop (h @ [Rd status]))"
begin

lemma polls:
  assumes "\<forall>j < k. \<not> done_flag (dev (h @ replicate j (Rd status)) status)" "done_flag (dev (h @ replicate k (Rd status)) status)"
  shows "loop h = finish (h @ replicate (Suc k) (Rd status))"
  using assms
proof (induction k arbitrary: h)
  case 0
  then show ?case by (simp add: loop_eq [of h])
next
  case (Suc k)
  have "\<not> done_flag (dev h status)" using Suc.prems(1) by (auto dest: spec [of _ 0])
  then have "loop h = loop (h @ [Rd status])" by (simp add: loop_eq [of h])
  also have "\<dots> = finish ((h @ [Rd status]) @ replicate (Suc k) (Rd status))"
    using Suc.prems by (intro Suc.IH) (auto dest: spec [of _ "Suc _"])
  finally show ?case by simp
qed

end

lemma ucast_flag: "n < 32 \<Longrightarrow> bit (ucast (w :: u64) :: u32) n = bit w n"
  by (simp add: bit_ucast_iff)

end
