(* ===== verification/Gic.thy ===== *)
theory Gic
  imports Mmio
begin

text \<open>
  The driver of the interrupt controller (\<^verbatim>\<open>exception/gic/gic.c\<close>, \<^verbatim>\<open>include/gic.h\<close>). A C
  \<^verbatim>\<open>int\<close> is a 32-bit word that is read as signed: its right shift is
  \<open>signed_drop_bit\<close>, its conversion to an address \<open>scast\<close>. Console output is left out.
\<close>

subsection \<open>Registers\<close>

definition GICD_BASE_ADDR :: u64 where "GICD_BASE_ADDR = 0x8000000"

definition GICC_BASE_ADDR :: u64 where "GICC_BASE_ADDR = 0x8010000"

definition GICH_BASE_ADDR :: u64 where "GICH_BASE_ADDR = 0x8030000"

definition GICD_CTLR :: u64 where "GICD_CTLR = GICD_BASE_ADDR + 0x000"

definition GICD_TYPER :: u64 where "GICD_TYPER = GICD_BASE_ADDR + 0x004"

definition GICD_IIDR :: u64 where "GICD_IIDR = GICD_BASE_ADDR + 0x008"

definition GICD_ISENABLER :: "u32 \<Rightarrow> u64" where
  "GICD_ISENABLER x = GICD_BASE_ADDR + scast (0x100 + 0x004 * x)"

definition GICD_ICENABLER :: "u32 \<Rightarrow> u64" where
  "GICD_ICENABLER x = GICD_BASE_ADDR + scast (0x180 + 0x004 * x)"

definition GICD_ISPENDER :: "u32 \<Rightarrow> u64" where
  "GICD_ISPENDER x = GICD_BASE_ADDR + scast (0x200 + 0x004 * x)"

definition GICD_ICPENDER :: "u32 \<Rightarrow> u64" where
  "GICD_ICPENDER x = GICD_BASE_ADDR + scast (0x280 + 0x004 * x)"

definition GICD_IPRIORITYR :: "u32 \<Rightarrow> u64" where
  "GICD_IPRIORITYR x = GICD_BASE_ADDR + scast (0x400 + 0x004 * x)"

definition GICD_ITARGETSR :: "u32 \<Rightarrow> u64" where
  "GICD_ITARGETSR x = GICD_BASE_ADDR + scast (0x800 + 0x004 * x)"

definition GICD_ICFGR :: "u32 \<Rightarrow> u64" where
  "GICD_ICFGR x = GICD_BASE_ADDR + scast (0xc00 + 0x004 * x)"

definition GICD_SGIR :: u64 where "GICD_SGIR = GICD_BASE_ADDR + 0xf00"

definition GICD_TYPER_IRQS :: "u32 \<Rightarrow> u32" where
  "GICD_TYPER_IRQS typer = ((typer AND 0x1f) + 1) * 32"

definition GICD_TYPER_CPU_NUM :: "u32 \<Rightarrow> u32" where
  "GICD_TYPER_CPU_NUM typer = ((drop_bit 5 typer) AND 0b111) + 1"

definition GICC_CTLR :: u64 where "GICC_CTLR = GICC_BASE_ADDR + 0x0000"

definition GICC_PMR :: u64 where "GICC_PMR = GICC_BASE_ADDR + 0x0004"

definition GICC_IAR :: u64 where "GICC_IAR = GICC_BASE_ADDR + 0x000c"

definition GICC_EOIR :: u64 where "GICC_EOIR = GICC_BASE_ADDR + 0x0010"

definition GICC_DIR :: u64 where "GICC_DIR = GICC_BASE_ADDR + 0x1000"

definition GICH_HCR :: u64 where "GICH_HCR = GICH_BASE_ADDR + 0x0000"

definition GICH_VMCR :: u64 where "GICH_VMCR = GICH_BASE_ADDR + 0x0008"

definition GICH_ELSR0 :: u64 where "GICH_ELSR0 = GICH_BASE_ADDR + 0x0030"

definition GICH_APR :: u64 where "GICH_APR = GICH_BASE_ADDR + 0x00f0"

definition GICH_LR :: "u32 \<Rightarrow> u64" where
  "GICH_LR x = GICH_BASE_ADDR + 0x0100 + scast (0x4 * x)"

definition GICC_IAR_INT_ID_MASK :: u32 where "GICC_IAR_INT_ID_MASK = 0x3ff"

definition GIC_NR_PRIVATE_IRQS :: u32 where "GIC_NR_PRIVATE_IRQS = 32"

definition SPI_ID_MAX :: u32 where "SPI_ID_MAX = 512"

definition GICH_LR_NUM :: nat where "GICH_LR_NUM = 4"

lemmas gic_regs =
  GICD_BASE_ADDR_def GICC_BASE_ADDR_def GICH_BASE_ADDR_def GICD_CTLR_def GICD_TYPER_def
  GICD_IIDR_def GICD_ISENABLER_def GICD_ICENABLER_def GICD_ISPENDER_def GICD_ICPENDER_def
  GICD_IPRIORITYR_def GICD_ITARGETSR_def GICD_ICFGR_def GICD_SGIR_def GICC_CTLR_def GICC_PMR_def
  GICC_IAR_def GICC_EOIR_def GICC_DIR_def GICH_HCR_def GICH_VMCR_def GICH_ELSR0_def GICH_APR_def
  GICH_LR_def

subsection \<open>Operations\<close>

record gic_t =
  irq_nr :: u32

definition cpu_num :: "dev \<Rightarrow> hist \<Rightarrow> u32 \<times> hist" where
  "cpu_num dev h = (let (v, h) = read32 dev GICD_TYPER h in (GICD_TYPER_CPU_NUM v, h))"

text \<open>\<^verbatim>\<open>gic_test_init\<close>: the two enabled flags and the number of cores it reports.\<close>

definition gic_test_init :: "dev \<Rightarrow> hist \<Rightarrow> (bool \<times> bool \<times> u32) \<times> hist" where
  "gic_test_init dev h =
     (let (d, h) = read32 dev GICD_CTLR h;
          (c, h) = read32 dev GICC_CTLR h;
          (n, h) = cpu_num dev h
      in ((d \<noteq> 0, c \<noteq> 0, n), h))"

definition gicc_init :: "hist \<Rightarrow> hist" where
  "gicc_init h = write32 (push_bit 0 1) GICC_CTLR (write32 (0xff - 7) GICC_PMR h)"

definition gic_init :: "dev \<Rightarrow> gic_t \<Rightarrow> hist \<Rightarrow> gic_t \<times> hist" where
  "gic_init dev g h =
     (let (typer, h) = read32 dev GICD_TYPER h;
          g = g\<lparr>irq_nr := GICD_TYPER_IRQS typer\<rparr>;
          g = (if irq_nr g > 1020 then g\<lparr>irq_nr := 1020\<rparr> else g);
          h = write32 (push_bit 0 1 OR push_bit 1 1) GICD_CTLR h;
          h = gicc_init h;
          (_, h) = gic_test_init dev h
      in (g, h))"

definition gic_read_iar :: "dev \<Rightarrow> hist \<Rightarrow> u32 \<times> hist" where
  "gic_read_iar dev h = read32 dev GICC_IAR h"

definition gic_iar_irqnr :: "u32 \<Rightarrow> u32" where
  "gic_iar_irqnr iar = iar AND GICC_IAR_INT_ID_MASK"

definition gic_write_eoir :: "u32 \<Rightarrow> hist \<Rightarrow> hist" where
  "gic_write_eoir irqstat h = write32 irqstat GICC_EOIR h"

definition gic_write_dir :: "u32 \<Rightarrow> hist \<Rightarrow> hist" where
  "gic_write_dir irqstat h = write32 irqstat GICC_DIR h"

definition gic_ipi_send_single :: "u32 \<Rightarrow> u32 \<Rightarrow> hist \<Rightarrow> hist" where
  "gic_ipi_send_single irq cpu h = write32 (push_bit (unat (cpu + 16)) 1 OR irq) GICD_SGIR h"

definition gic_enable_int :: "u32 \<Rightarrow> u32 \<Rightarrow> hist \<Rightarrow> hist" where
  "gic_enable_int vector pri h =
     (let reg = signed_drop_bit 5 vector;
          msk = push_bit (unat (vector AND (push_bit 5 1 - 1))) 1;
          h = write32 msk (GICD_ISENABLER reg) h;
          n = signed_drop_bit 2 vector;
          m = vector AND (push_bit 2 1 - 1)
      in write8 (ucast (push_bit 3 pri OR push_bit 7 1)) (GICD_IPRIORITYR n + scast m) h)"

definition gic_disable_int :: "u32 \<Rightarrow> hist \<Rightarrow> hist" where
  "gic_disable_int vector h =
     (let reg = signed_drop_bit 5 vector;
          msk = push_bit (unat (vector AND (push_bit 5 1 - 1))) 1
      in write32 msk (GICD_ICENABLER reg) h)"

text \<open>
  \<^verbatim>\<open>return val & mask != 0\<close>: in C the comparison binds tighter than the bitwise and.
\<close>

definition gic_get_enable :: "dev \<Rightarrow> u32 \<Rightarrow> hist \<Rightarrow> u32 \<times> hist" where
  "gic_get_enable dev vector h =
     (let reg = signed_drop_bit 5 vector;
          msk = push_bit (unat (vector AND (push_bit 5 1 - 1))) (1 :: u32);
          (val, h) = read32 dev (GICD_ISENABLER reg) h
      in (val AND (if msk \<noteq> 0 then 1 else 0), h))"

definition gic_set_isenabler :: "u32 \<Rightarrow> u32 \<Rightarrow> hist \<Rightarrow> hist" where
  "gic_set_isenabler n val h = write32 val (GICD_BASE_ADDR + ucast (0x100 + 0x004 * n)) h"

definition gic_set_ipriority :: "u32 \<Rightarrow> u32 \<Rightarrow> hist \<Rightarrow> hist" where
  "gic_set_ipriority n val h = write32 val (GICD_BASE_ADDR + ucast (0x400 + 0x004 * n)) h"

definition gic_set_icenabler :: "u32 \<Rightarrow> u32 \<Rightarrow> hist \<Rightarrow> hist" where
  "gic_set_icenabler n val h = write32 val (GICD_BASE_ADDR + ucast (0x180 + 0x004 * n)) h"

text \<open>The loop of \<^verbatim>\<open>gic_virtual_init\<close> that enables the private interrupts, from \<open>i\<close> on.\<close>

function enable_private :: "u32 \<Rightarrow> hist \<Rightarrow> hist" where
  "enable_private i h =
     (if i < GIC_NR_PRIVATE_IRQS then enable_private (i + 1) (gic_enable_int i 0 h) else h)"
  by pat_completeness auto
termination
  by (relation "measure (\<lambda>(i, h). unat GIC_NR_PRIVATE_IRQS - unat i)") (auto simp: loop_measure)

declare enable_private.simps [simp del]

definition gic_virtual_init :: "dev \<Rightarrow> gic_t \<Rightarrow> hist \<Rightarrow> gic_t \<times> hist" where
  "gic_virtual_init dev g h =
     (let (typer, h) = read32 dev GICD_TYPER h;
          g = g\<lparr>irq_nr := GICD_TYPER_IRQS typer\<rparr>;
          g = (if irq_nr g > 1020 then g\<lparr>irq_nr := 1020\<rparr> else g);
          h = write32 (push_bit 0 1 OR push_bit 1 1) GICD_CTLR h;
          h = write32 (0xff - 7) GICC_PMR h;
          h = write32 (push_bit 0 1 OR push_bit 9 1) GICC_CTLR h;
          h = write32 (push_bit 0 1) GICH_HCR h;
          h = write32 (push_bit 0 1) GICH_VMCR h;
          h = enable_private 0 h;
          (_, h) = gic_test_init dev h;
          (_, h) = read32 dev GICH_HCR h
      in (g, h))"

definition gic_make_virtual_hardware_interrupt :: "u32 \<Rightarrow> u32 \<Rightarrow> u32 \<Rightarrow> bool \<Rightarrow> u32" where
  "gic_make_virtual_hardware_interrupt vector pintvec pri grp1 =
     0x90000000 OR (push_bit 20 (pri AND 0xf8) OR (vector AND 0x1ff) OR
       push_bit 10 (pintvec AND 0x1ff) OR push_bit 30 (of_bool grp1))"

definition gic_make_virtual_software_interrupt :: "u32 \<Rightarrow> u32 \<Rightarrow> bool \<Rightarrow> u32" where
  "gic_make_virtual_software_interrupt vector pri grp1 =
     0x10000000 OR (push_bit 20 (pri AND 0xf8) OR (vector AND 0x1ff) OR push_bit 30 (of_bool grp1))"

definition gic_make_virtual_software_sgi :: "u32 \<Rightarrow> u32 \<Rightarrow> u32 \<Rightarrow> bool \<Rightarrow> u32" where
  "gic_make_virtual_software_sgi vector cpu_id pri grp1 =
     0x10000000 OR (push_bit 20 (pri AND 0xf8) OR (vector AND 0x1ff) OR push_bit 30 (of_bool grp1) OR
       push_bit 10 cpu_id)"

definition gic_read_lr :: "dev \<Rightarrow> u32 \<Rightarrow> hist \<Rightarrow> u32 \<times> hist" where
  "gic_read_lr dev n h = read32 dev (GICH_LR n) h"

definition gic_lr_read_pri :: "u32 \<Rightarrow> u32" where
  "gic_lr_read_pri lr_value = drop_bit 20 (lr_value AND push_bit 20 0xf8)"

definition gic_lr_read_vid :: "u32 \<Rightarrow> u32" where
  "gic_lr_read_vid lr_value = lr_value AND 0x1ff"

definition gic_apr :: "dev \<Rightarrow> hist \<Rightarrow> u32 \<times> hist" where
  "gic_apr dev h = read32 dev GICH_APR h"

definition gic_elsr0 :: "dev \<Rightarrow> hist \<Rightarrow> u32 \<times> hist" where
  "gic_elsr0 dev h = read32 dev GICH_ELSR0 h"

definition gic_write_lr :: "u32 \<Rightarrow> u32 \<Rightarrow> hist \<Rightarrow> hist" where
  "gic_write_lr n msk h = write32 msk (GICH_LR n) h"

definition gic_set_np_int :: "dev \<Rightarrow> hist \<Rightarrow> hist" where
  "gic_set_np_int dev h =
     (let (v, h) = read32 dev GICH_HCR h in write32 (v OR push_bit 3 1) GICH_HCR h)"

definition gic_clear_np_int :: "dev \<Rightarrow> hist \<Rightarrow> hist" where
  "gic_clear_np_int dev h =
     (let (v, h) = read32 dev GICH_HCR h in write32 (v AND NOT (push_bit 3 1)) GICH_HCR h)"

subsection \<open>List registers\<close>

lemma lr_consts:
  "(0x90000000 :: u32) = push_bit 31 1 OR push_bit 28 1" "(0x10000000 :: u32) = push_bit 28 1"
  "(0x1ff :: u32) = mask 9" "(0xf8 :: u32) = push_bit 3 (mask 5)"
  by (simp_all add: mask_eq_exp_minus_1)

lemma bit_pri_mask: "bit (pri AND (0xf8 :: u32)) n \<longleftrightarrow> 3 \<le> n \<and> n < 8 \<and> bit pri n"
  by (auto simp: lr_consts bit_simps)

lemma bit_vid_mask: "bit (v AND (0x1ff :: u32)) n \<longleftrightarrow> n < 9 \<and> bit v n"
  by (auto simp: lr_consts bit_simps)

lemma bit_lr_fields:
  "bit (push_bit 20 (pri AND 0xf8 :: u32)) n \<longleftrightarrow> 23 \<le> n \<and> n < 28 \<and> bit pri (n - 20)"
  "bit (push_bit 10 (p AND 0x1ff :: u32)) n \<longleftrightarrow> 10 \<le> n \<and> n < 19 \<and> bit p (n - 10)"
  "bit (push_bit 30 (of_bool g :: u32)) n \<longleftrightarrow> n = 30 \<and> g"
  "bit (0x90000000 :: u32) n \<longleftrightarrow> n = 28 \<or> n = 31" "bit (0x10000000 :: u32) n \<longleftrightarrow> n = 28"
  subgoal unfolding bit_push_bit_iff bit_pri_mask by auto
  subgoal unfolding bit_push_bit_iff bit_vid_mask by auto
  subgoal unfolding bit_push_bit_iff by (auto simp: bit_simps)
  subgoal unfolding lr_consts(1) bit_or_iff bit_push_bit_iff bit_1_iff by auto
  subgoal unfolding lr_consts(2) bit_or_iff bit_push_bit_iff bit_1_iff by auto
  done

lemma bit_hw_lr:
  "bit (gic_make_virtual_hardware_interrupt vector pintvec pri grp1) n \<longleftrightarrow>
     (n < 9 \<and> bit vector n) \<or> (10 \<le> n \<and> n < 19 \<and> bit pintvec (n - 10)) \<or>
     (23 \<le> n \<and> n < 28 \<and> bit pri (n - 20)) \<or> n = 28 \<or> (n = 30 \<and> grp1) \<or> n = 31"
  unfolding gic_make_virtual_hardware_interrupt_def bit_or_iff bit_lr_fields bit_vid_mask by blast

lemma bit_sw_lr:
  "bit (gic_make_virtual_software_interrupt vector pri grp1) n \<longleftrightarrow>
     (n < 9 \<and> bit vector n) \<or> (23 \<le> n \<and> n < 28 \<and> bit pri (n - 20)) \<or> n = 28 \<or> (n = 30 \<and> grp1)"
  unfolding gic_make_virtual_software_interrupt_def bit_or_iff bit_lr_fields bit_vid_mask by blast

lemma bit_lr_pri: "bit (gic_lr_read_pri lr) n \<longleftrightarrow> 3 \<le> n \<and> n < 8 \<and> bit lr (n + 20)"
  by (auto simp: gic_lr_read_pri_def lr_consts bit_simps add.commute dest: bit_imp_le_length)

lemma bit_lr_vid: "bit (gic_lr_read_vid lr) n \<longleftrightarrow> n < 9 \<and> bit lr n"
  by (auto simp: gic_lr_read_vid_def lr_consts bit_simps)

text \<open>
  A list register built for a hardware interrupt decodes to what it was built from: the
  virtual number, the physical number and the five upper bits of the priority, in state
  pending, with the hardware bit and the group bit as given.
\<close>

theorem lr_hardware_roundtrip:
  "let lr = gic_make_virtual_hardware_interrupt vector pintvec pri grp1 in
     gic_lr_read_vid lr = vector AND 0x1ff \<and> gic_lr_read_pri lr = pri AND 0xf8 \<and>
     bitfield 10 10 lr = pintvec AND 0x1ff \<and> bitfield 28 2 lr = 1 \<and>
     bit lr 31 \<and> (bit lr 30 \<longleftrightarrow> grp1)"
  unfolding Let_def
proof (intro conjI)
  let ?lr = "gic_make_virtual_hardware_interrupt vector pintvec pri grp1"
  show "gic_lr_read_vid ?lr = vector AND 0x1ff"
    by (rule bit_word_eqI) (auto simp: bit_lr_vid bit_vid_mask bit_hw_lr)
  show "gic_lr_read_pri ?lr = pri AND 0xf8"
    by (rule bit_word_eqI) (auto simp: bit_lr_pri bit_pri_mask bit_hw_lr)
  show "bitfield 10 10 ?lr = pintvec AND 0x1ff"
    by (rule bit_word_eqI) (auto simp: bit_bitfield bit_vid_mask bit_hw_lr)
  show "bitfield 28 2 ?lr = 1"
    by (rule bit_word_eqI) (auto simp: bit_bitfield bit_hw_lr bit_1_iff)
  show "bit ?lr 31" "bit ?lr 30 \<longleftrightarrow> grp1" by (simp_all add: bit_hw_lr)
qed

subsection \<open>Enabling and disabling interrupts\<close>

text \<open>
  The set-enable and clear-enable registers of the distributor by the GICv2 architecture: a
  one written to bit \<open>b\<close> of word \<open>k\<close> enables or disables interrupt \<open>32 * k + b\<close>, a zero
  has no effect.
\<close>

definition ints_of :: "u64 \<Rightarrow> u32 \<Rightarrow> nat set" where
  "ints_of off v = {8 * unat off + b | b. bit v b}"

fun en_step :: "nat set \<Rightarrow> access \<Rightarrow> nat set" where
  "en_step S (Wr32 a v) =
     (if 0x8000100 \<le> a \<and> a < 0x8000180 then S \<union> ints_of (a - 0x8000100) v
      else if 0x8000180 \<le> a \<and> a < 0x8000200 then S - ints_of (a - 0x8000180) v else S)"
| "en_step S _ = S"

definition enabled_ints :: "hist \<Rightarrow> nat set" where
  "enabled_ints h = foldl en_step {} h"

lemma enabled_ints_append: "enabled_ints (h @ es) = foldl en_step (enabled_ints h) es"
  by (simp add: enabled_ints_def)

lemma small_vector:
  fixes v :: u32
  assumes "unat v < 1024"
  shows "signed_drop_bit 5 v = v div 32" "signed_drop_bit 2 v = v div 4"
    and "unat (v AND (push_bit 5 1 - 1)) = unat v mod 32" "v AND (push_bit 2 1 - 1) = v mod 4"
proof -
  have "unat v < 2 ^ 31" using assms by simp
  then show "signed_drop_bit 5 v = v div 32" "signed_drop_bit 2 v = v div 4"
    by (simp_all add: signed_drop_bit_small drop_bit_eq_div)
  have "v AND (push_bit k 1 - 1) = v mod 2 ^ k" for k
    by (simp add: take_bit_eq_mask mask_eq_exp_minus_1 flip: take_bit_eq_mod)
  from this [of 5] this [of 2]
  show "unat (v AND (push_bit 5 1 - 1)) = unat v mod 32" "v AND (push_bit 2 1 - 1) = v mod 4"
    by (simp_all add: unat_mod_distrib)
qed

text \<open>The offset of the word of an enable register that holds interrupt \<open>k\<close>.\<close>

definition word_off :: "nat \<Rightarrow> u64" where
  "word_off k = word_of_nat (4 * (k div 32))"

lemma unat_word_off: "k < 1024 \<Longrightarrow> unat (word_off k) = 4 * (k div 32)"
  by (simp add: word_off_def unat_of_nat del: of_nat_mult)

lemma word_div_of_nat: "v div 32 = word_of_nat (unat v div 32)" "v div 4 = word_of_nat (unat v div 4)"
    "v mod 4 = word_of_nat (unat v mod 4)" for v :: u32
proof -
  have "unat (v div 32) = unat v div 32" "unat (v div 4) = unat v div 4" "unat (v mod 4) = unat v mod 4"
    by (simp_all add: unat_div_distrib unat_mod_distrib)
  then show "v div 32 = word_of_nat (unat v div 32)" "v div 4 = word_of_nat (unat v div 4)"
      "v mod 4 = word_of_nat (unat v mod 4)"
    by (simp_all flip: \<open>unat (v div 32) = unat v div 32\<close> \<open>unat (v div 4) = unat v div 4\<close>
        \<open>unat (v mod 4) = unat v mod 4\<close>)
qed

lemma gicd_word_addr:
  assumes "unat v < 1024"
  shows "GICD_ISENABLER (v div 32) = 0x8000100 + word_off (unat v)"
    and "GICD_ICENABLER (v div 32) = 0x8000180 + word_off (unat v)"
    and "GICD_IPRIORITYR (v div 4) + scast (v mod 4) = 0x8000400 + word_of_nat (unat v)"
proof -
  have enab: "(scast (b + 4 * (v div 32)) :: u64) = ucast b + word_off (unat v)" if "unat b < 1024" for b :: u32
  proof -
    have "b + 4 * (v div 32) = word_of_nat (unat b + 4 * (unat v div 32))"
      by (simp add: word_div_of_nat)
    moreover have "unat b + 4 * (unat v div 32) < 2 ^ 31" using assms that by simp
    ultimately have "(scast (b + 4 * (v div 32)) :: u64) = word_of_nat (unat b + 4 * (unat v div 32))"
      by (simp only: scast_nat)
    then show ?thesis by (simp add: word_off_def)
  qed
  show "GICD_ISENABLER (v div 32) = 0x8000100 + word_off (unat v)"
    "GICD_ICENABLER (v div 32) = 0x8000180 + word_off (unat v)"
    using enab [of "0x100"] enab [of "0x180"]
    by (simp_all add: GICD_ISENABLER_def GICD_ICENABLER_def GICD_BASE_ADDR_def)
  have "(0x400 + 4 * (v div 4) :: u32) = word_of_nat (0x400 + 4 * (unat v div 4))"
    by (simp add: word_div_of_nat)
  then have "GICD_IPRIORITYR (v div 4) + scast (v mod 4) =
      0x8000000 + word_of_nat (0x400 + 4 * (unat v div 4)) + word_of_nat (unat v mod 4)"
    using assms by (simp add: GICD_IPRIORITYR_def GICD_BASE_ADDR_def scast_nat word_div_of_nat(3)
        del: of_nat_add of_nat_mult)
  moreover have "(word_of_nat (unat v) :: u64) = 4 * word_of_nat (unat v div 4) + word_of_nat (unat v mod 4)"
    by (metis mult_div_mod_eq of_nat_add of_nat_mult of_nat_numeral)
  ultimately show "GICD_IPRIORITYR (v div 4) + scast (v mod 4) = 0x8000400 + word_of_nat (unat v)"
    by simp
qed

lemma gic_enable_int_writes:
  assumes "unat v < 1024"
  shows "gic_enable_int v pri h = h @
     [Wr32 (0x8000100 + word_off (unat v)) (push_bit (unat v mod 32) 1),
      Wr8 (0x8000400 + word_of_nat (unat v)) (ucast (push_bit 3 pri OR push_bit 7 1))]"
  using small_vector [OF assms] gicd_word_addr [OF assms]
  by (simp add: gic_enable_int_def write32_def write8_def Let_def)

lemma gic_disable_int_writes:
  assumes "unat v < 1024"
  shows "gic_disable_int v h = h @ [Wr32 (0x8000180 + word_off (unat v)) (push_bit (unat v mod 32) 1)]"
  using small_vector [OF assms] gicd_word_addr [OF assms]
  by (simp add: gic_disable_int_def write32_def Let_def)

lemma ints_of_word: "k < 1024 \<Longrightarrow> ints_of (word_off k) (push_bit (k mod 32) 1) = {k}"
  by (auto simp: ints_of_def unat_word_off bit_simps)

lemma enabler_range:
  fixes b :: u64
  assumes "k < 1024" "unat b < 2 ^ 32"
  shows "b \<le> b + word_off k" "b + word_off k < b + 0x80"
  using assms unat_word_off [OF assms(1)]
  by (auto simp: word_le_nat_alt word_less_nat_alt unat_plus_if_size word_size)

text \<open>
  C34. Read through the architecture's set-enable and clear-enable registers, enabling an
  interrupt enables exactly that one and disabling it disables exactly that one, for every
  interrupt number the distributor has.
\<close>

theorem gic_enable_exact:
  assumes "unat v < 1024"
  shows "enabled_ints (gic_enable_int v pri h) = insert (unat v) (enabled_ints h) \<and>
         enabled_ints (gic_disable_int v h) = enabled_ints h - {unat v}"
  using enabler_range [OF assms, of "0x8000100"] enabler_range [OF assms, of "0x8000180"]
    ints_of_word [OF assms]
  by (auto simp: gic_enable_int_writes [OF assms] gic_disable_int_writes [OF assms]
      enabled_ints_append simp del: push_bit_of_1)


lemma enable_adds: "unat v < 1024 \<Longrightarrow> enabled_ints (gic_enable_int v p h) = insert (unat v) (enabled_ints h)"
  using ints_of_word [of "unat v"] enabler_range [of "unat v" "0x8000100"]
  by (simp add: gic_enable_int_writes enabled_ints_append del: push_bit_of_1)

theorem gic_enable_exact_witness:
  "enabled_ints (gic_enable_int 33 0 []) = insert (unat (33 :: u32)) (enabled_ints []) \<and>
   enabled_ints (gic_disable_int 33 []) = enabled_ints [] - {unat (33 :: u32)}"
  by (rule gic_enable_exact) simp

lemma enable_private_enabled:
  "enabled_ints (enable_private i h) = enabled_ints h \<union> {k. unat i \<le> k \<and> k < 32}"
proof (induction i h rule: enable_private.induct)
  case (1 i h)
  show ?case
  proof (cases "i < GIC_NR_PRIVATE_IRQS")
    case True
    then have lt: "unat i < 32" by (simp add: GIC_NR_PRIVATE_IRQS_def word_less_nat_alt)
    have "enabled_ints (enable_private i h) = enabled_ints (enable_private (i + 1) (gic_enable_int i 0 h))"
      using True by (simp add: enable_private.simps [of i h])
    also have "\<dots> = enabled_ints (gic_enable_int i 0 h) \<union> {k. unat (i + 1) \<le> k \<and> k < 32}"
      by (rule "1.IH" [OF True])
    also have "\<dots> = enabled_ints h \<union> insert (unat i) {k. Suc (unat i) \<le> k \<and> k < 32}"
      using lt unat_Suc_less [OF True] by (simp add: enable_adds)
    also have "insert (unat i) {k. Suc (unat i) \<le> k \<and> k < 32} = {k. unat i \<le> k \<and> k < 32}"
      using lt by auto
    finally show ?thesis .
  next
    case False
    then show ?thesis
      by (auto simp: enable_private.simps [of i h] GIC_NR_PRIVATE_IRQS_def word_less_nat_alt)
  qed
qed

lemma enable_private_prefix: "\<exists>t. enable_private i h = h @ t"
proof (induction i h rule: enable_private.induct)
  case (1 i h)
  then show ?case
    by (auto simp: enable_private.simps [of i h] gic_enable_int_def write32_def write8_def Let_def)
qed

lemma unat_typer_irqs: "unat (GICD_TYPER_IRQS typer) = 32 * (unat typer mod 32 + 1)"
proof -
  have "typer AND 0x1f = take_bit 5 typer" by (simp add: take_bit_eq_mask mask_eq_exp_minus_1)
  then have a: "unat (typer AND 0x1f) = unat typer mod 32"
    by (simp add: take_bit_eq_mod unat_mod_distrib)
  have "unat typer mod 32 < 32" by simp
  then have "unat ((typer AND 0x1f) + 1) = unat typer mod 32 + 1"
    using a by (simp add: unat_plus_if_size word_size)
  moreover have "unat (x * 32) = unat x * 32" if "unat x \<le> 32" for x :: u32
    using that by (simp add: unat_word_ariths)
  ultimately show ?thesis using \<open>unat typer mod 32 < 32\<close>
    by (simp only: GICD_TYPER_IRQS_def)
qed

text \<open>
  Whatever the device reports, the initialisation for a hypervisor keeps the number of
  interrupts between 32 and 1020, leaves all private interrupts enabled and no shared one
  that was not, and turns on the distributor, the processor interface with split
  end-of-interrupt, and the virtual interface.
\<close>

theorem gic_virtual_init_correct:
  "case gic_virtual_init dev g h of (g', h') \<Rightarrow>
     32 \<le> irq_nr g' \<and> irq_nr g' \<le> 1020 \<and>
     enabled_ints h' = enabled_ints h \<union> {..<32} \<and>
     {Wr32 GICD_CTLR 3, Wr32 GICC_PMR 0xf8, Wr32 GICC_CTLR 0x201, Wr32 GICH_HCR 1, Wr32 GICH_VMCR 1}
       \<subseteq> set h'"
proof -
  let ?h = "h @ [Rd GICD_TYPER, Wr32 GICD_CTLR 3, Wr32 GICC_PMR 0xf8, Wr32 GICC_CTLR 0x201,
      Wr32 GICH_HCR 1, Wr32 GICH_VMCR 1]"
  let ?typer = "ucast (dev h GICD_TYPER) :: u32"
  let ?g = "g\<lparr>irq_nr := if GICD_TYPER_IRQS ?typer > 1020 then 1020 else GICD_TYPER_IRQS ?typer\<rparr>"
  have init: "gic_virtual_init dev g h = (?g, enable_private 0 ?h @ [Rd GICD_CTLR, Rd GICC_CTLR, Rd GICD_TYPER, Rd GICH_HCR])"
    by (simp add: gic_virtual_init_def gic_test_init_def cpu_num_def read32_def write32_def Let_def)
  have "enabled_ints (enable_private 0 ?h) = enabled_ints h \<union> {k. 0 \<le> k \<and> k < 32}"
    unfolding enable_private_enabled by (simp add: enabled_ints_append gic_regs)
  then have "enabled_ints (enable_private 0 ?h @ [Rd GICD_CTLR, Rd GICC_CTLR, Rd GICD_TYPER, Rd GICH_HCR]) =
      enabled_ints h \<union> {..<32}"
    by (simp add: enabled_ints_append lessThan_def)
  moreover have "32 \<le> irq_nr ?g" "irq_nr ?g \<le> 1020"
    using unat_typer_irqs [of ?typer] by (auto simp: word_le_nat_alt word_less_nat_alt)
  moreover obtain t where "enable_private 0 ?h = ?h @ t" using enable_private_prefix by blast
  ultimately show ?thesis unfolding init by simp
qed

text \<open>
  \<^verbatim>\<open>gic_get_enable\<close> does not report whether the interrupt is enabled: by operator
  precedence it returns bit 0 of the enable word, the state of the first interrupt of the
  group of 32, for every interrupt of the group.
\<close>

theorem gic_get_enable_reports_group:
  assumes "unat v < 1024"
  shows "fst (gic_get_enable dev v h) = of_bool (bit (dev h (GICD_ISENABLER (v div 32))) 0)"
proof -
  have "unat v mod 32 < 32" by simp
  then have "(push_bit (unat v mod 32) 1 :: u32) \<noteq> 0" by simp
  moreover have "(ucast w :: u32) AND 1 = of_bool (bit w 0)" for w :: u64
    by (rule bit_word_eqI) (auto simp: bit_simps)
  ultimately show ?thesis using small_vector [OF assms]
    by (simp only: gic_get_enable_def read32_def Let_def split fst_conv not_False_eq_True if_True)
qed

text \<open>The timer interrupt is reported as disabled by a distributor that has it enabled.\<close>

theorem gic_get_enable_reports_group_witness:
  "fst (gic_get_enable (\<lambda>h a. 2 ^ 30) 30 []) = of_bool (bit ((2 ^ 30 :: u64)) 0) \<and>
   fst (gic_get_enable (\<lambda>h a. 2 ^ 30) 30 []) = 0"
  using gic_get_enable_reports_group [of 30 "\<lambda>h a. 2 ^ 30" "[]"] by (simp add: bit_simps)


end
