(* ===== verification/Vgic.thy ===== *)
theory Vgic
  imports Gic Trap "HOL-Library.Multiset"
begin

text \<open>
  The virtual interrupt controller of \<^verbatim>\<open>hyper/vgic.c\<close>: emulation of a guest's accesses to
  the distributor, and injection of interrupts through the list registers. Which message an
  emulated access prints is the value \<^verbatim>\<open>intc_handler\<close> returns here.
\<close>

subsection \<open>Highest bit\<close>

text \<open>The loop \<^verbatim>\<open>while (_val >>= 1) _i++\<close> of the macro \<^verbatim>\<open>HIGHEST_BIT_POSITION\<close>.\<close>

function hbp_loop :: "u64 \<Rightarrow> u32 \<Rightarrow> u32" where
  "hbp_loop val i = (let val = drop_bit 1 val in if val \<noteq> 0 then hbp_loop val (i + 1) else i)"
  by pat_completeness auto
termination
proof (relation "measure (\<lambda>(val, i). unat val)")
  fix val v' :: u64 and i :: u32
  assume "v' = drop_bit 1 val" "v' \<noteq> 0"
  then have "unat v' = unat val div 2" by (simp add: drop_bit_eq_div unat_div_distrib)
  moreover have "unat v' \<noteq> 0" using \<open>v' \<noteq> 0\<close> by (simp add: unsigned_eq_0_iff)
  ultimately show "((v', i + 1), val, i) \<in> measure (\<lambda>(val, i). unat val)" by simp
qed simp

declare hbp_loop.simps [simp del]

definition HIGHEST_BIT_POSITION :: "u64 \<Rightarrow> u32" where
  "HIGHEST_BIT_POSITION x = hbp_loop x 0"

subsection \<open>Interrupt numbers\<close>

text \<open>The two tables of \<^verbatim>\<open>struct vgic_t\<close> that the code uses.\<close>

record vgic_t =
  ptov :: "u32 list"
  vtop :: "u32 list"

definition virtual_gic_register_int :: "vgic_t \<Rightarrow> u32 \<Rightarrow> u32 \<Rightarrow> vgic_t option" where
  "virtual_gic_register_int vgic pintvec vintvec =
     (if pintvec < SPI_ID_MAX \<and> vintvec < SPI_ID_MAX
      then Some (vgic\<lparr>ptov := (ptov vgic)[unat pintvec := vintvec],
                      vtop := (vtop vgic)[unat vintvec := pintvec]\<rparr>)
      else None)"

subsection \<open>Emulated accesses\<close>

definition vgicd_write ::
    "dev \<Rightarrow> ept_violation_info_t \<Rightarrow> trap_frame_t \<Rightarrow> u64 \<Rightarrow> hist \<Rightarrow> hist" where
  "vgicd_write dev info el2_ctx paddr h =
     (let reg_num = dabt_reg (info_hsr info);
          (_, h) = read64 dev paddr h;
          (_, h) = read64 dev paddr h;
          h = (if reg_num \<noteq> 30 then write64 (frame_reg el2_ctx (unat reg_num)) paddr h else h);
          (_, h) = read64 dev paddr h
      in h)"

definition vgicd_read ::
    "dev \<Rightarrow> ept_violation_info_t \<Rightarrow> trap_frame_t \<Rightarrow> u64 \<Rightarrow> hist \<Rightarrow> trap_frame_t \<times> hist" where
  "vgicd_read dev info el2_ctx paddr h =
     (let reg_num = dabt_reg (info_hsr info);
          (dat, h) = read64 dev paddr h;
          (_, h) = read64 dev paddr h
      in (if reg_num \<noteq> 30 then set_frame_reg el2_ctx (unat reg_num) dat else el2_ctx, h))"

datatype gicd_reg =
    R_CTLR | R_TYPER | R_IIDR | R_ISENABLER0 | R_ISENABLER | R_ICENABLER0 | R_ICENABLER
  | R_ISPENDER0 | R_ISPENDER | R_ICPENDER0 | R_ICPENDER | R_IPRIORITYR_private | R_IPRIORITYR_spi
  | R_ICFGR | R_ITARGETSR | R_SGIR

datatype emu = Emu_write gicd_reg | Emu_read gicd_reg | Unsupported | Silent | Emu_error

definition GIC_FIRST_SPI :: u32 where "GIC_FIRST_SPI = GIC_NR_PRIVATE_IRQS"

definition intc_handler :: "ept_violation_info_t \<Rightarrow> trap_frame_t \<Rightarrow> hist \<Rightarrow> emu \<times> hist" where
  "intc_handler info el2_ctx h =
     (let gpa = info_gpa info in
      if GICD_BASE_ADDR \<le> gpa \<and> gpa \<le> GICD_BASE_ADDR + 0x0010000
      then
        (if dabt_write (info_hsr info) \<noteq> 0
         then
           if gpa = GICD_CTLR then (Emu_write R_CTLR, h)
           else if gpa = GICD_ISENABLER 0
           then
             (let r = ucast (frame_reg el2_ctx (unat (dabt_reg (info_hsr info)))) :: u32
              in (Emu_write R_ISENABLER0, gic_enable_int (HIGHEST_BIT_POSITION (scast r)) 0 h))
           else if GICD_ISENABLER 1 \<le> gpa \<and> gpa < GICD_ICENABLER 0
           then
             (let r = ucast (frame_reg el2_ctx (unat (dabt_reg (info_hsr info)))) :: u32;
                  ident = ucast (((gpa - GICD_ISENABLER 0) div 0x4) * 32) :: u32
              in (Emu_write R_ISENABLER, gic_enable_int (HIGHEST_BIT_POSITION (scast r) + ident) 0 h))
           else if gpa = GICD_ICENABLER 0 then (Emu_write R_ICENABLER0, h)
           else if GICD_ICENABLER 1 \<le> gpa \<and> gpa < GICD_ISPENDER 0 then (Emu_write R_ICENABLER, h)
           else if gpa = GICD_ISPENDER 0 then (Emu_write R_ISPENDER0, h)
           else if GICD_ISPENDER 1 \<le> gpa \<and> gpa < GICD_ICPENDER 0 then (Emu_write R_ISPENDER, h)
           else if gpa = GICD_ICPENDER 0 then (Emu_write R_ICPENDER0, h)
           else if GICD_ICPENDER 1 \<le> gpa \<and> gpa < GICD_IPRIORITYR 0 then (Emu_write R_ICPENDER, h)
           else if GICD_IPRIORITYR 0 \<le> gpa \<and> gpa < GICD_IPRIORITYR (GIC_FIRST_SPI div 4)
           then (Emu_write R_IPRIORITYR_private, h)
           else if GICD_IPRIORITYR (GIC_FIRST_SPI div 4) \<le> gpa \<and> gpa < GICD_IPRIORITYR (SPI_ID_MAX div 4)
           then (Emu_write R_IPRIORITYR_spi, h)
           else if GICD_ICFGR (GIC_FIRST_SPI div 16) \<le> gpa \<and> gpa < GICD_ICFGR (SPI_ID_MAX div 16)
           then (Emu_write R_ICFGR, h)
           else if GICD_ITARGETSR (GIC_FIRST_SPI div 4) \<le> gpa \<and> gpa < GICD_ITARGETSR (SPI_ID_MAX div 4)
           then (Emu_write R_ITARGETSR, h)
           else if gpa = GICD_SGIR then (Emu_write R_SGIR, h)
           else (Unsupported, h)
         else
           if gpa = GICD_CTLR then (Emu_read R_CTLR, h)
           else if gpa = GICD_TYPER then (Emu_read R_TYPER, h)
           else if gpa = GICD_IIDR then (Emu_read R_IIDR, h)
           else if gpa = GICD_ISENABLER 0 then (Emu_read R_ISENABLER0, h)
           else if GICD_ISENABLER 1 \<le> gpa \<and> gpa < GICD_ICENABLER 0 then (Emu_read R_ISENABLER, h)
           else if gpa = GICD_ICENABLER 0 then (Emu_read R_ICENABLER0, h)
           else if GICD_ICENABLER 1 \<le> gpa \<and> gpa < GICD_ISPENDER 0 then (Emu_read R_ICENABLER, h)
           else if gpa = GICD_ISPENDER 0 then (Emu_read R_ISPENDER0, h)
           else if GICD_ISPENDER 1 \<le> gpa \<and> gpa < GICD_ICPENDER 0 then (Emu_read R_ISPENDER, h)
           else if gpa = GICD_ICPENDER 0 then (Emu_read R_ICPENDER0, h)
           else if GICD_ICPENDER 1 \<le> gpa \<and> gpa < GICD_IPRIORITYR 0 then (Emu_read R_ICPENDER, h)
           else if GICD_IPRIORITYR 0 \<le> gpa \<and> gpa < GICD_IPRIORITYR (GIC_FIRST_SPI div 4)
           then (Emu_read R_IPRIORITYR_private, h)
           else if GICD_IPRIORITYR (GIC_FIRST_SPI div 4) \<le> gpa \<and> gpa < GICD_IPRIORITYR (SPI_ID_MAX div 4)
           then (Emu_read R_IPRIORITYR_spi, h)
           else if GICD_ICFGR (GIC_FIRST_SPI div 16) \<le> gpa \<and> gpa < GICD_ICFGR (SPI_ID_MAX div 16)
           then (Emu_read R_ICFGR, h)
           else if GICD_ITARGETSR (GIC_FIRST_SPI div 4) \<le> gpa \<and> gpa < GICD_ITARGETSR (SPI_ID_MAX div 4)
           then (Emu_read R_ITARGETSR, h)
           else (Silent, h))
      else (Emu_error, h))"

subsection \<open>Injection\<close>

text \<open>The loop over the list registers in \<^verbatim>\<open>vgic_inject\<close>, from register \<open>i\<close> on.\<close>

function inject_loop :: "dev \<Rightarrow> u32 \<Rightarrow> nat \<Rightarrow> u32 \<Rightarrow> u32 \<Rightarrow> hist \<Rightarrow> hist" where
  "inject_loop dev is_empty i msk pri h =
     (if i < GICH_LR_NUM
      then if is_empty AND push_bit i 1 \<noteq> 0 then gic_write_lr (word_of_nat i) msk h
      else
        (let (prev_lr, h) = gic_read_lr dev (word_of_nat i) h;
             prev_pri = ucast (gic_lr_read_pri prev_lr) :: u8
         in if pri < ucast prev_pri
            then inject_loop dev is_empty (i + 1) prev_lr (ucast prev_pri)
                   (gic_write_lr (word_of_nat i) msk h)
            else inject_loop dev is_empty (i + 1) msk pri h)
      else h)"
  by pat_completeness auto
termination by (relation "measure (\<lambda>(dev, e, i, m, p, h). GICH_LR_NUM - i)") auto

declare inject_loop.simps [simp del]

definition vgic_inject :: "dev \<Rightarrow> u32 \<Rightarrow> hist \<Rightarrow> hist" where
  "vgic_inject dev vector h =
     (let msk = gic_make_virtual_hardware_interrupt vector vector 0 False;
          h = gic_set_ipriority 6 0xf8000000 h;
          h = gic_set_ipriority 8 0x0000f800 h;
          (is_empty, h) = gic_elsr0 dev h;
          (is_active, h) = gic_apr dev h;
          pri = gic_lr_read_pri msk
      in inject_loop dev is_empty 0 msk pri h)"

definition HV_TIMER_VECTOR :: u32 where "HV_TIMER_VECTOR = 27"

definition PL011_INT :: u32 where "PL011_INT = 33"

definition v_timer_handler :: "dev \<Rightarrow> hist \<Rightarrow> hist" where
  "v_timer_handler dev h = vgic_inject dev HV_TIMER_VECTOR h"

definition fake_console :: "dev \<Rightarrow> hist \<Rightarrow> hist" where
  "fake_console dev h = vgic_inject dev PL011_INT h"

subsection \<open>The highest bit is the logarithm\<close>

lemma hbp_loop_log:
  assumes "x \<noteq> 0"
  shows "\<exists>k. 2 ^ k \<le> unat x \<and> unat x < 2 ^ Suc k \<and> hbp_loop x i = i + word_of_nat k"
  using assms
proof (induction x i rule: hbp_loop.induct)
  case (1 x i)
  have half: "unat (drop_bit 1 x) = unat x div 2" by (simp add: drop_bit_eq_div unat_div_distrib)
  show ?case
  proof (cases "drop_bit 1 x = 0")
    case True
    with half have "unat x div 2 = 0" by simp
    moreover have "unat x \<noteq> 0" using "1.prems" by (simp add: unsigned_eq_0_iff)
    ultimately have "unat x = 1" by linarith
    with True show ?thesis by (intro exI [of _ 0]) (simp add: hbp_loop.simps [of x i] Let_def)
  next
    case False
    with "1.IH" [OF refl] obtain k where "2 ^ k \<le> unat x div 2" "unat x div 2 < 2 ^ Suc k"
        "hbp_loop (drop_bit 1 x) (i + 1) = i + 1 + word_of_nat k"
      unfolding half by blast
    moreover from this(1,2) have "2 ^ Suc k \<le> unat x" "unat x < 2 ^ Suc (Suc k)" by simp_all
    ultimately show ?thesis using False
      by (intro exI [of _ "Suc k"]) (simp add: hbp_loop.simps [of x i] Let_def)
  qed
qed

lemma highest_bit_position:
  assumes "x \<noteq> 0"
  shows "2 ^ unat (HIGHEST_BIT_POSITION x) \<le> unat x"
    and "unat x < 2 ^ Suc (unat (HIGHEST_BIT_POSITION x))"
proof -
  obtain k where k: "2 ^ k \<le> unat x" "unat x < 2 ^ Suc k" "HIGHEST_BIT_POSITION x = word_of_nat k"
    using hbp_loop_log [OF assms, of 0] by (auto simp: HIGHEST_BIT_POSITION_def)
  have "unat x < 2 ^ 64" using unsigned_less [of x] by simp
  with k(1) have "(2 :: nat) ^ k < 2 ^ 64" by linarith
  then have "k < 64" by (rule power_less_imp_less_exp [rotated]) simp
  then have "unat (HIGHEST_BIT_POSITION x) = k" using k(3) by (simp add: unat_of_nat)
  with k show "2 ^ unat (HIGHEST_BIT_POSITION x) \<le> unat x"
      "unat x < 2 ^ Suc (unat (HIGHEST_BIT_POSITION x))" by simp_all
qed

subsection \<open>Injection\<close>

text \<open>
  What the list registers hold after a history, from values \<open>l\<close>, and a device whose list
  registers keep their values until they are written.
\<close>

fun lr_step :: "(nat \<Rightarrow> u32) \<Rightarrow> access \<Rightarrow> nat \<Rightarrow> u32" where
  "lr_step l (Wr32 a v) = (\<lambda>i. if i < GICH_LR_NUM \<and> a = GICH_LR (word_of_nat i) then v else l i)"
| "lr_step l _ = l"

definition lr_after :: "(nat \<Rightarrow> u32) \<Rightarrow> hist \<Rightarrow> nat \<Rightarrow> u32" where
  "lr_after l es = foldl lr_step l es"

definition lr_view :: "dev \<Rightarrow> hist \<Rightarrow> u32 \<Rightarrow> (nat \<Rightarrow> u32) \<Rightarrow> bool" where
  "lr_view dev h e l \<longleftrightarrow>
     (\<forall>es. (\<forall>i < GICH_LR_NUM. \<forall>v. Wr32 (GICH_LR (word_of_nat i)) v \<notin> set es) \<longrightarrow>
        ucast (dev (h @ es) GICH_ELSR0) = e) \<and>
     (\<forall>es. \<forall>i < GICH_LR_NUM. ucast (dev (h @ es) (GICH_LR (word_of_nat i))) = lr_after l es i)"

text \<open>Insertion into the list registers as a function on their values: the register that is dropped, if any.\<close>

function insert_lr :: "u32 \<Rightarrow> nat \<Rightarrow> u32 \<Rightarrow> (nat \<Rightarrow> u32) \<Rightarrow> (nat \<Rightarrow> u32) \<times> u32 option" where
  "insert_lr e i m l =
     (if i < GICH_LR_NUM
      then if bit e i then (l(i := m), None)
           else if gic_lr_read_pri m < gic_lr_read_pri (l i)
           then insert_lr e (i + 1) (l i) (l(i := m))
           else insert_lr e (i + 1) m l
      else (l, Some m))"
  by pat_completeness auto
termination by (relation "measure (\<lambda>(e, i, m, l). GICH_LR_NUM - i)") auto

declare insert_lr.simps [simp del]

lemma GICH_LR_nat: "i < GICH_LR_NUM \<Longrightarrow> GICH_LR (word_of_nat i) = 0x8030100 + word_of_nat (4 * i)"
  using scast_nat [of "4 * i"] by (simp add: GICH_LR_NUM_def GICH_LR_def GICH_BASE_ADDR_def)

lemma GICH_LR_inj:
  assumes "i < GICH_LR_NUM" "j < GICH_LR_NUM"
  shows "GICH_LR (word_of_nat i) = GICH_LR (word_of_nat j) \<longleftrightarrow> i = j"
proof -
  have "unat (word_of_nat (4 * k) :: u64) = 4 * k" if "k < GICH_LR_NUM" for k
    using that by (simp add: unat_of_nat GICH_LR_NUM_def del: of_nat_mult)
  from this [OF assms(1)] this [OF assms(2)] show ?thesis
    unfolding GICH_LR_nat [OF assms(1)] GICH_LR_nat [OF assms(2)]
    by (metis add_left_cancel mult_left_cancel zero_neq_numeral)
qed

lemma pri_byte: "(ucast (ucast (gic_lr_read_pri lr) :: u8) :: u32) = gic_lr_read_pri lr"
  by (rule bit_word_eqI) (auto simp: bit_unsigned_iff bit_lr_pri)

lemma lr_after_write:
  "i < GICH_LR_NUM \<Longrightarrow> lr_after l (es @ [Wr32 (GICH_LR (word_of_nat i)) v]) = (lr_after l es)(i := v)"
  by (auto simp: lr_after_def fun_eq_iff GICH_LR_inj)

lemma lr_after_read: "lr_after l (es @ [Rd a]) = lr_after l es"
  by (simp add: lr_after_def)

lemma inject_loop_refines:
  assumes "\<forall>es. \<forall>j < GICH_LR_NUM. ucast (dev (h @ es) (GICH_LR (word_of_nat j))) = lr_after l es j"
  shows "\<exists>es'. inject_loop dev e i m (gic_lr_read_pri m) (h @ es) = h @ es' \<and>
     lr_after l es' = fst (insert_lr e i m (lr_after l es))"
proof (induction "GICH_LR_NUM - i" arbitrary: i m es)
  case 0
  then show ?case by (auto simp: inject_loop.simps [of dev e i] insert_lr.simps [of e i])
next
  case (Suc k)
  then have i: "i < GICH_LR_NUM" and k: "k = GICH_LR_NUM - (i + 1)" by simp_all
  show ?case
  proof (cases "bit e i")
    case True
    then have "e AND push_bit i 1 \<noteq> 0"
      using i and_single_eq_0_iff [of i e] by (simp add: GICH_LR_NUM_def)
    then have "inject_loop dev e i m (gic_lr_read_pri m) (h @ es) =
        h @ (es @ [Wr32 (GICH_LR (word_of_nat i)) m])"
      using i by (simp add: inject_loop.simps [of dev e i] gic_write_lr_def write32_def)
    moreover have "lr_after l (es @ [Wr32 (GICH_LR (word_of_nat i)) m]) = fst (insert_lr e i m (lr_after l es))"
      using i True by (simp add: lr_after_write insert_lr.simps [of e i])
    ultimately show ?thesis by blast
  next
    case False
    then have "e AND push_bit i 1 = 0"
      using i and_single_eq_0_iff [of i e] by (simp add: GICH_LR_NUM_def)
    then have step: "inject_loop dev e i m (gic_lr_read_pri m) (h @ es) =
      (let p = lr_after l es i in
       if gic_lr_read_pri m < gic_lr_read_pri p
       then inject_loop dev e (i + 1) p (gic_lr_read_pri p)
              (h @ (es @ [Rd (GICH_LR (word_of_nat i))] @ [Wr32 (GICH_LR (word_of_nat i)) m]))
       else inject_loop dev e (i + 1) m (gic_lr_read_pri m) (h @ (es @ [Rd (GICH_LR (word_of_nat i))])))"
      using i assms
      by (simp add: inject_loop.simps [of dev e i] gic_write_lr_def write32_def gic_read_lr_def read32_def
          Let_def pri_byte)
    let ?rd = "es @ [Rd (GICH_LR (word_of_nat i))]"
    let ?wr = "?rd @ [Wr32 (GICH_LR (word_of_nat i)) m]"
    have after: "lr_after l ?wr = (lr_after l es)(i := m)" "lr_after l ?rd = lr_after l es"
      using i by (simp_all only: lr_after_write lr_after_read)
    show ?thesis
    proof (cases "gic_lr_read_pri m < gic_lr_read_pri (lr_after l es i)")
      case True
      then have "inject_loop dev e i m (gic_lr_read_pri m) (h @ es) =
          inject_loop dev e (i + 1) (lr_after l es i) (gic_lr_read_pri (lr_after l es i)) (h @ ?wr)"
        by (simp add: step Let_def)
      moreover have "insert_lr e i m (lr_after l es) =
          insert_lr e (i + 1) (lr_after l es i) (lr_after l ?wr)"
        using True False i unfolding after by (simp add: insert_lr.simps [of e i])
      ultimately show ?thesis using Suc.hyps(1) [OF k, of "lr_after l es i" ?wr] by presburger
    next
      case 2: False
      then have "inject_loop dev e i m (gic_lr_read_pri m) (h @ es) =
          inject_loop dev e (i + 1) m (gic_lr_read_pri m) (h @ ?rd)"
        by (simp add: step Let_def)
      moreover have "insert_lr e i m (lr_after l es) = insert_lr e (i + 1) m (lr_after l ?rd)"
        using 2 False i unfolding after by (simp add: insert_lr.simps [of e i])
      ultimately show ?thesis using Suc.hyps(1) [OF k, of m ?rd] by presburger
    qed
  qed
qed


lemma mset_upd_front:
  fixes l :: "nat \<Rightarrow> 'a"
  shows "i < n \<Longrightarrow> mset (map l [i..<n]) = add_mset (l i) (mset (map l [Suc i..<n]))"
  by (simp add: upt_rec [of i n])

lemma insert_lr_below: "j < i \<Longrightarrow> fst (insert_lr e i m l) j = l j"
proof (induction e i m l rule: insert_lr.induct)
  case (1 e i m l)
  define l' where "l' = l(i := m)"
  have l': "l' j = l j" using "1.prems" by (simp add: l'_def)
  show ?case
  proof (cases "i < GICH_LR_NUM \<and> \<not> bit e i")
    case True
    then show ?thesis using "1.IH"(1) [folded l'_def] "1.IH"(2) "1.prems" l'
      by (simp add: insert_lr.simps [of e i m l] flip: l'_def)
  next
    case False
    then show ?thesis using "1.prems" by (auto simp: insert_lr.simps [of e i m l])
  qed
qed

text \<open>A free register: the interrupt is stored and every occupied register keeps its entry.\<close>

lemma insert_lr_free:
  assumes "i \<le> n" "n < GICH_LR_NUM" "bit e n" "\<And>j. i \<le> j \<Longrightarrow> j < n \<Longrightarrow> \<not> bit e j"
  shows "snd (insert_lr e i m l) = None \<and>
     mset (map (fst (insert_lr e i m l)) [i..<Suc n]) = add_mset m (mset (map l [i..<n])) \<and>
     (\<forall>j > n. fst (insert_lr e i m l) j = l j)"
  using assms
proof (induction e i m l rule: insert_lr.induct)
  case (1 e i m l)
  show ?case
  proof (cases "i = n")
    case True
    then show ?thesis using "1.prems" by (simp add: insert_lr.simps [of e n m l])
  next
    case False
    then have lt: "i < n" "i < GICH_LR_NUM" "\<not> bit e i" using "1.prems" by auto
    show ?thesis
    proof (cases "gic_lr_read_pri m < gic_lr_read_pri (l i)")
      case True
      define l' where "l' = l(i := m)"
      have l': "l' i = m" "mset (map l' [i + 1..<n]) = mset (map l [i + 1..<n])" "\<And>j. j > n \<Longrightarrow> l' j = l j"
        using lt by (auto simp: l'_def intro!: arg_cong [where f = mset] simp del: mset_map)
      have eq: "insert_lr e i m l = insert_lr e (i + 1) (l i) l'"
        using lt True by (simp add: insert_lr.simps [of e i m l] l'_def)
      have IH: "snd (insert_lr e (i + 1) (l i) l') = None \<and>
         mset (map (fst (insert_lr e (i + 1) (l i) l')) [i + 1..<Suc n]) =
           add_mset (l i) (mset (map l' [i + 1..<n])) \<and>
         (\<forall>j > n. fst (insert_lr e (i + 1) (l i) l') j = l' j)"
        using "1.IH"(1) [OF lt(2,3) True, folded l'_def] "1.prems" lt by simp
      with lt l' insert_lr_below [of i "i + 1" e "l i" l'] show ?thesis
        unfolding eq by (simp add: mset_upd_front [of i] add_mset_commute del: upt_Suc mset_map)
    next
      case False
      have eq: "insert_lr e i m l = insert_lr e (i + 1) m l"
        using lt False by (simp add: insert_lr.simps [of e i m l])
      have IH: "snd (insert_lr e (i + 1) m l) = None \<and>
         mset (map (fst (insert_lr e (i + 1) m l)) [i + 1..<Suc n]) = add_mset m (mset (map l [i + 1..<n])) \<and>
         (\<forall>j > n. fst (insert_lr e (i + 1) m l) j = l j)"
        using "1.IH"(2) [OF lt(2,3) False] "1.prems" lt by simp
      with lt insert_lr_below [of i "i + 1" e m l] show ?thesis
        unfolding eq by (simp add: mset_upd_front [of i] add_mset_commute del: upt_Suc mset_map)
    qed
  qed
qed

text \<open>No free register: one entry is dropped, and it has the lowest priority.\<close>

lemma insert_lr_full:
  assumes "i \<le> GICH_LR_NUM" "\<And>j. i \<le> j \<Longrightarrow> j < GICH_LR_NUM \<Longrightarrow> \<not> bit e j"
  shows "\<exists>d. snd (insert_lr e i m l) = Some d \<and>
     add_mset d (mset (map (fst (insert_lr e i m l)) [i..<GICH_LR_NUM])) =
       add_mset m (mset (map l [i..<GICH_LR_NUM])) \<and>
     gic_lr_read_pri m \<le> gic_lr_read_pri d \<and>
     (\<forall>j. i \<le> j \<and> j < GICH_LR_NUM \<longrightarrow> gic_lr_read_pri (fst (insert_lr e i m l) j) \<le> gic_lr_read_pri d)"
  using assms
proof (induction e i m l rule: insert_lr.induct)
  case (1 e i m l)
  let ?N = GICH_LR_NUM and ?P = gic_lr_read_pri
  show ?case
  proof (cases "i < ?N")
    case False
    then show ?thesis by (auto simp: insert_lr.simps [of e i m l])
  next
    case lt: True
    then have nb: "\<not> bit e i" using "1.prems" by auto
    show ?thesis
    proof (cases "?P m < ?P (l i)")
      case True
      define l' where "l' = l(i := m)"
      have l': "l' i = m" "mset (map l' [i + 1..<?N]) = mset (map l [i + 1..<?N])"
        by (auto simp: l'_def intro!: arg_cong [where f = mset] simp del: mset_map)
      have eq: "insert_lr e i m l = insert_lr e (i + 1) (l i) l'"
        using lt nb True by (simp add: insert_lr.simps [of e i m l] l'_def)
      let ?r = "insert_lr e (i + 1) (l i) l'"
      obtain d where d: "snd ?r = Some d"
          "add_mset d (mset (map (fst ?r) [i + 1..<?N])) = add_mset (l i) (mset (map l' [i + 1..<?N]))"
          "?P (l i) \<le> ?P d" "\<And>j. i + 1 \<le> j \<Longrightarrow> j < ?N \<Longrightarrow> ?P (fst ?r j) \<le> ?P d"
        using "1.IH"(1) [OF lt nb True, folded l'_def] "1.prems" lt by auto
      have at: "fst ?r i = m" using insert_lr_below [of i "i + 1"] l' by simp
      then have "add_mset d (mset (map (fst ?r) [i..<?N])) = add_mset m (mset (map l [i..<?N]))"
        using d(2) l'(2) lt by (simp add: mset_upd_front [of i] add_mset_commute [of d] del: mset_map)
      moreover have "?P (fst ?r j) \<le> ?P d" if "i \<le> j" "j < ?N" for j
        using d(3,4) at True that by (cases "j = i") auto
      ultimately show ?thesis unfolding eq using d(1,3) True by auto
    next
      case False
      have eq: "insert_lr e i m l = insert_lr e (i + 1) m l"
        using lt nb False by (simp add: insert_lr.simps [of e i m l])
      let ?r = "insert_lr e (i + 1) m l"
      obtain d where d: "snd ?r = Some d"
          "add_mset d (mset (map (fst ?r) [i + 1..<?N])) = add_mset m (mset (map l [i + 1..<?N]))"
          "?P m \<le> ?P d" "\<And>j. i + 1 \<le> j \<Longrightarrow> j < ?N \<Longrightarrow> ?P (fst ?r j) \<le> ?P d"
        using "1.IH"(2) [OF lt nb False] "1.prems" lt by auto
      have at: "fst ?r i = l i" using insert_lr_below [of i "i + 1"] by simp
      then have "add_mset d (mset (map (fst ?r) [i..<?N])) = add_mset m (mset (map l [i..<?N]))"
        using d(2) lt by (simp add: mset_upd_front [of i] add_mset_commute [of d] add_mset_commute [of m] del: mset_map)
      moreover have "?P (fst ?r j) \<le> ?P d" if "i \<le> j" "j < ?N" for j
        using d(3,4) at False that by (cases "j = i") auto
      ultimately show ?thesis unfolding eq using d(1,3) by auto
    qed
  qed
qed

lemma vgic_inject_refines:
  assumes "lr_view dev h e l"
  shows "\<exists>es. vgic_inject dev v h = h @ es \<and>
     lr_after l es = fst (insert_lr e 0 (gic_make_virtual_hardware_interrupt v v 0 False) l)"
proof -
  let ?m = "gic_make_virtual_hardware_interrupt v v 0 False"
  let ?es = "[Wr32 0x8000418 0xf8000000, Wr32 0x8000420 0xf800]"
  have pre: "gic_set_ipriority 8 0xf800 (gic_set_ipriority 6 0xf8000000 h) = h @ ?es"
    by (simp add: gic_set_ipriority_def write32_def GICD_BASE_ADDR_def)
  have "GICH_LR (word_of_nat i) \<noteq> 0x8000418 \<and> GICH_LR (word_of_nat i) \<noteq> 0x8000420" if "i < GICH_LR_NUM" for i
  proof -
    have "unat (word_of_nat (4 * i) :: u64) = 4 * i" using that
      by (simp add: unat_of_nat GICH_LR_NUM_def del: of_nat_mult)
    with that have "0x8030100 \<le> unat (GICH_LR (word_of_nat i))"
      by (simp only: GICH_LR_nat) (simp add: unat_plus_if_size word_size GICH_LR_NUM_def del: of_nat_mult)
    then show ?thesis by auto
  qed
  then have es: "\<forall>i < GICH_LR_NUM. \<forall>w. Wr32 (GICH_LR (word_of_nat i)) w \<notin> set ?es"
      and after: "lr_after l (?es @ [Rd GICH_ELSR0] @ [Rd GICH_APR]) = l"
    by (auto simp: lr_after_def fun_eq_iff)
  have e: "ucast (dev (h @ ?es) GICH_ELSR0) = e" using assms es by (simp add: lr_view_def del: set_simps)
  have "vgic_inject dev v h = inject_loop dev e 0 ?m (gic_lr_read_pri ?m) (h @ (?es @ [Rd GICH_ELSR0] @ [Rd GICH_APR]))"
    by (simp add: vgic_inject_def pre gic_elsr0_def gic_apr_def read32_def Let_def e)
  moreover have "\<forall>es. \<forall>j < GICH_LR_NUM. ucast (dev (h @ es) (GICH_LR (word_of_nat j))) = lr_after l es j"
    using assms by (simp add: lr_view_def)
  ultimately show ?thesis
    using inject_loop_refines [of dev h l e 0 ?m "?es @ [Rd GICH_ELSR0] @ [Rd GICH_APR]"] after by simp
qed

text \<open>
  C32. Injecting an interrupt while a list register is free loses nothing: with \<open>n\<close> the first
  free register, registers 0 to \<open>n\<close> afterwards hold exactly the entries of registers 0 to
  \<open>n - 1\<close> and the new interrupt, and the registers above are untouched.
\<close>

theorem vgic_inject_free:
  assumes "lr_view dev h e l" "n < GICH_LR_NUM" "bit e n" "\<forall>j < n. \<not> bit e j"
  shows "\<exists>es. vgic_inject dev v h = h @ es \<and>
     mset (map (lr_after l es) [0..<Suc n]) =
       add_mset (gic_make_virtual_hardware_interrupt v v 0 False) (mset (map l [0..<n])) \<and>
     (\<forall>j > n. lr_after l es j = l j)"
proof -
  obtain es where es: "vgic_inject dev v h = h @ es"
      "lr_after l es = fst (insert_lr e 0 (gic_make_virtual_hardware_interrupt v v 0 False) l)"
    using vgic_inject_refines [OF assms(1)] by blast
  from insert_lr_free [of 0 n e _ l] assms(2-4) es show ?thesis by auto
qed

text \<open>
  C33. Injecting an interrupt when all list registers are occupied silently drops exactly one
  entry, and no entry that stays has a lower priority than the dropped one.
\<close>

theorem vgic_inject_full:
  assumes "lr_view dev h e l" "\<forall>j < GICH_LR_NUM. \<not> bit e j"
  shows "\<exists>es d. vgic_inject dev v h = h @ es \<and>
     add_mset d (mset (map (lr_after l es) [0..<GICH_LR_NUM])) =
       add_mset (gic_make_virtual_hardware_interrupt v v 0 False) (mset (map l [0..<GICH_LR_NUM])) \<and>
     (\<forall>j < GICH_LR_NUM. gic_lr_read_pri (lr_after l es j) \<le> gic_lr_read_pri d)"
proof -
  obtain es where es: "vgic_inject dev v h = h @ es"
      "lr_after l es = fst (insert_lr e 0 (gic_make_virtual_hardware_interrupt v v 0 False) l)"
    using vgic_inject_refines [OF assms(1)] by blast
  from insert_lr_full [of 0 e "gic_make_virtual_hardware_interrupt v v 0 False" l] assms(2) es show ?thesis by auto
qed


text \<open>A device with list registers that keep what is written to them.\<close>

definition lr_dev :: "u32 \<Rightarrow> (nat \<Rightarrow> u32) \<Rightarrow> dev" where
  "lr_dev e l h a =
     (if a = GICH_ELSR0 then ucast e else ucast (lr_after l h ((unat a - 0x8030100) div 4)))"

lemma unat_GICH_LR: "i < GICH_LR_NUM \<Longrightarrow> unat (GICH_LR (word_of_nat i)) = 0x8030100 + 4 * i"
proof -
  assume i: "i < GICH_LR_NUM"
  then have "unat (word_of_nat (4 * i) :: u64) = 4 * i"
    by (simp add: unat_of_nat GICH_LR_NUM_def del: of_nat_mult)
  with i show ?thesis
    by (simp only: GICH_LR_nat) (simp add: unat_plus_if_size word_size GICH_LR_NUM_def del: of_nat_mult)
qed

lemma lr_dev_view: "lr_view (lr_dev e l) [] e l"
proof -
  have "ucast (ucast x :: u64) = x" for x :: u32
    by (rule bit_word_eqI) (simp add: bit_unsigned_iff)
  moreover have "GICH_LR (word_of_nat i) \<noteq> GICH_ELSR0" if "i < GICH_LR_NUM" for i
    using unat_GICH_LR [OF that] by (auto simp: GICH_ELSR0_def GICH_BASE_ADDR_def)
  ultimately show ?thesis by (simp add: lr_view_def lr_dev_def unat_GICH_LR)
qed

theorem vgic_inject_free_witness:
  "\<exists>es. vgic_inject (lr_dev 0b1100 (\<lambda>i. 0x90800010)) 27 [] = [] @ es \<and>
     mset (map (lr_after (\<lambda>i. 0x90800010) es) [0..<Suc 2]) =
       add_mset (gic_make_virtual_hardware_interrupt 27 27 0 False) (mset (map (\<lambda>i. 0x90800010) [0..<2])) \<and>
     (\<forall>j > 2. lr_after (\<lambda>i. 0x90800010) es j = 0x90800010)"
  by (rule vgic_inject_free [OF lr_dev_view])
     (auto simp: GICH_LR_NUM_def less_2_cases_iff)

theorem vgic_inject_full_witness:
  "\<exists>es d. vgic_inject (lr_dev 0 (\<lambda>i. 0x90800010)) 27 [] = [] @ es \<and>
     add_mset d (mset (map (lr_after (\<lambda>i. 0x90800010) es) [0..<GICH_LR_NUM])) =
       add_mset (gic_make_virtual_hardware_interrupt 27 27 0 False)
         (mset (map (\<lambda>i. 0x90800010) [0..<GICH_LR_NUM])) \<and>
     (\<forall>j < GICH_LR_NUM. gic_lr_read_pri (lr_after (\<lambda>i. 0x90800010) es j) \<le> gic_lr_read_pri d)"
  by (rule vgic_inject_full [OF lr_dev_view]) simp

subsection \<open>Emulated writes to the set-enable registers\<close>

text \<open>The value a trapped store writes, as the handler reads it: the low half of the register.\<close>

definition stored_int :: "ept_violation_info_t \<Rightarrow> trap_frame_t \<Rightarrow> u32" where
  "stored_int info ctx = ucast (frame_reg ctx (unat (dabt_reg (info_hsr info))))"

lemma intc_isenabler:
  assumes "dabt_write (info_hsr info) \<noteq> 0" "k < 32" "info_gpa info = 0x8000100 + word_of_nat (4 * k)"
  shows "snd (intc_handler info ctx h) =
     gic_enable_int (HIGHEST_BIT_POSITION (scast (stored_int info ctx)) + word_of_nat (32 * k)) 0 h"
proof -
  have u: "unat (word_of_nat (4 * k) :: u64) = 4 * k"
    using assms(2) by (simp add: unat_of_nat del: of_nat_mult)
  have g: "unat (info_gpa info) = 0x8000100 + 4 * k"
    using u assms(2) unfolding assms(3) by (simp add: unat_plus_if_size word_size del: of_nat_mult)
  then have rng: "GICD_BASE_ADDR \<le> info_gpa info" "info_gpa info \<le> GICD_BASE_ADDR + 0x0010000"
      "info_gpa info \<noteq> GICD_CTLR" "info_gpa info < GICD_ICENABLER 0"
    using assms(2) by (auto simp: gic_regs word_le_nat_alt word_less_nat_alt)
  show ?thesis
  proof (cases "k = 0")
    case True
    then have "info_gpa info = GICD_ISENABLER 0" using assms(3) by (simp add: gic_regs)
    with rng assms(1) True show ?thesis by (simp add: intc_handler_def Let_def stored_int_def)
  next
    case False
    then have "info_gpa info \<noteq> GICD_ISENABLER 0" "GICD_ISENABLER 1 \<le> info_gpa info"
      using g by (auto simp: gic_regs word_le_nat_alt)
    moreover have "(ucast (((info_gpa info - GICD_ISENABLER 0) div 0x4) * 32) :: u32) = word_of_nat (32 * k)"
    proof -
      have "info_gpa info - GICD_ISENABLER 0 = word_of_nat (4 * k)"
        unfolding assms(3) by (simp add: gic_regs del: of_nat_mult)
      then have "unat ((info_gpa info - GICD_ISENABLER 0) div 0x4) = k"
        using u by (simp add: unat_div_distrib del: of_nat_mult)
      then have "(info_gpa info - GICD_ISENABLER 0) div 0x4 = word_of_nat k" by auto
      then have "((info_gpa info - GICD_ISENABLER 0) div 0x4) * 32 = word_of_nat (32 * k)" by simp
      then show ?thesis using assms(2)
        by (simp add: word_unat_eq_iff unsigned_ucast_eq unsigned_of_nat take_bit_eq_mod unat_of_nat del: of_nat_mult)
    qed
    ultimately show ?thesis using rng assms(1) by (simp add: intc_handler_def Let_def stored_int_def)
  qed
qed


lemma emu_enables:
  assumes "dabt_write (info_hsr info) \<noteq> 0" "k < 31" "info_gpa info = 0x8000100 + word_of_nat (4 * k)"
    and b: "unat (HIGHEST_BIT_POSITION (scast (stored_int info ctx))) = b" "b < 64"
  shows "enabled_ints (snd (intc_handler info ctx h)) = insert (32 * k + b) (enabled_ints h)"
proof -
  have k: "unat (word_of_nat (32 * k) :: u32) = 32 * k"
    using assms(2) by (simp add: unat_of_nat del: of_nat_mult)
  have v: "unat (HIGHEST_BIT_POSITION (scast (stored_int info ctx)) + word_of_nat (32 * k)) = 32 * k + b"
    using assms(2) b k by (simp add: unat_plus_if_size word_size del: of_nat_mult)
  then show ?thesis using assms(2) b(2)
    by (simp add: intc_isenabler [OF assms(1) _ assms(3)] enable_adds del: of_nat_mult)
qed

text \<open>
  A guest's store of a positive word to the set-enable register of group \<open>k\<close> enables
  exactly one interrupt of that group: the one of the highest bit of the word.
\<close>

theorem emu_isenabler_highest:
  assumes "dabt_write (info_hsr info) \<noteq> 0" "k < 31" "info_gpa info = 0x8000100 + word_of_nat (4 * k)"
    and "stored_int info ctx \<noteq> 0" "\<not> bit (stored_int info ctx) 31"
  shows "\<exists>b < 31. bit (stored_int info ctx) b \<and> (\<forall>c > b. \<not> bit (stored_int info ctx) c) \<and>
     enabled_ints (snd (intc_handler info ctx h)) = insert (32 * k + b) (enabled_ints h)"
proof -
  let ?r = "stored_int info ctx"
  define b where "b = unat (HIGHEST_BIT_POSITION (ucast ?r))"
  have "\<not> bit ?r n" if "31 \<le> n" for n
    using assms(5) that by (cases "n = 31") (auto dest: bit_imp_le_length)
  then have "(scast ?r :: u64) = ucast ?r"
    by (intro bit_word_eqI) (auto simp: bit_simps min_def dest: bit_imp_le_length)
  moreover have u: "unat (ucast ?r :: u64) = unat ?r" by (rule unat_ucast_64)
  moreover have nz: "(ucast ?r :: u64) \<noteq> 0"
    using assms(4) u by (metis unsigned_0 word_unat_eq_iff)
  ultimately have r: "2 ^ b \<le> unat ?r" "unat ?r < 2 ^ Suc b"
      "unat (HIGHEST_BIT_POSITION (scast ?r)) = b"
    using highest_bit_position [OF nz] by (simp_all add: b_def)
  have hi: "\<not> bit ?r c" if "c > b" for c using not_bit_small [OF r(2), of c] that by simp
  have "unat ?r div 2 ^ b = 1" using r(1,2) by (simp add: div_nat_eqI)
  then have "bit (unat ?r) b" by (simp add: bit_iff_odd)
  then have bit: "bit ?r b" by (simp add: bit_unsigned_iff)
  have "b < 31" using bit assms(5) bit_imp_le_length [OF bit] by (cases "b = 31") auto
  with emu_enables [OF assms(1-3) r(3)] bit hi show ?thesis by auto
qed

text \<open>
  A store with bit 31 set enables a wrong interrupt: the word is kept in a signed
  integer, its sign extension has highest bit 63, and interrupt \<open>32 * k + 63\<close>, which belongs
  to the next group, is enabled instead of \<open>32 * k + 31\<close>.
\<close>

theorem emu_isenabler_sign:
  assumes "dabt_write (info_hsr info) \<noteq> 0" "k < 31" "info_gpa info = 0x8000100 + word_of_nat (4 * k)"
    and "bit (stored_int info ctx) 31"
  shows "enabled_ints (snd (intc_handler info ctx h)) = insert (32 * k + 63) (enabled_ints h)"
proof (rule emu_enables [OF assms(1-3)])
  let ?x = "scast (stored_int info ctx) :: u64"
  have b63: "bit ?x 63" using assms(4) by (simp add: bit_simps)
  then have nz: "?x \<noteq> 0" by auto
  have "\<not> unat ?x < 2 ^ 63" using b63 not_bit_small [of ?x 63 63] by blast
  then have "(2 :: nat) ^ 63 < 2 ^ Suc (unat (HIGHEST_BIT_POSITION ?x))"
    using highest_bit_position(2) [OF nz] by linarith
  then have "63 < Suc (unat (HIGHEST_BIT_POSITION ?x))"
    by (rule power_less_imp_less_exp [rotated]) simp
  moreover have "unat ?x < 2 ^ 64" using unsigned_less [of ?x] by simp
  with highest_bit_position(1) [OF nz] have "(2 :: nat) ^ unat (HIGHEST_BIT_POSITION ?x) < 2 ^ 64"
    by linarith
  then have "unat (HIGHEST_BIT_POSITION ?x) < 64" by (rule power_less_imp_less_exp [rotated]) simp
  ultimately show "unat (HIGHEST_BIT_POSITION ?x) = 63" by simp
qed simp

text \<open>A store of register 2 to the set-enable register of the private interrupts.\<close>

definition demo_info :: ept_violation_info_t where
  "demo_info = \<lparr>info_hsr = push_bit 26 0x24 OR push_bit 16 2 OR push_bit 6 1, info_reason = PREFETCH,
                info_gva = 0x8000100, info_gpa = 0x8000100\<rparr>"

definition demo_ctx :: "u64 \<Rightarrow> trap_frame_t" where
  "demo_ctx v = \<lparr>tf_r = (replicate NUM_REGS 0)[2 := v], tf_usp = 0, tf_elr = 0, tf_spsr = 0\<rparr>"

lemma demo_store:
  "dabt_write (info_hsr demo_info) \<noteq> 0" "info_gpa demo_info = 0x8000100 + word_of_nat (4 * 0)"
  "stored_int demo_info (demo_ctx v) = ucast v"
  by (simp_all add: demo_info_def demo_ctx_def stored_int_def dabt_write_def dabt_reg_def bitfield_def
      frame_reg_def NUM_REGS_def)

theorem emu_isenabler_highest_witness:
  "\<exists>b < 31. bit (stored_int demo_info (demo_ctx 0b1010)) b \<and>
     (\<forall>c > b. \<not> bit (stored_int demo_info (demo_ctx 0b1010)) c) \<and>
     enabled_ints (snd (intc_handler demo_info (demo_ctx 0b1010) [])) = insert (32 * 0 + b) (enabled_ints [])"
  by (rule emu_isenabler_highest [OF demo_store(1) _ demo_store(2)])
     (simp_all add: demo_store(3))

theorem emu_isenabler_sign_witness:
  "enabled_ints (snd (intc_handler demo_info (demo_ctx 0x80000000) [])) = insert (32 * 0 + 63) (enabled_ints [])"
  by (rule emu_isenabler_sign [OF demo_store(1) _ demo_store(2)])
     (simp_all add: demo_store(3))


end
