(* ===== verification/Cache.thy ===== *)
theory Cache
  imports Bitmap
begin

text \<open>
  Cache maintenance by address range (\<^verbatim>\<open>include/mem/page.h\<close>) and its use for translation tables
  (\<^verbatim>\<open>apply_ept\<close> of \<^verbatim>\<open>mem/ept.c\<close>). The model is the list of the operations issued; it is \<open>None\<close> when the loop
  is never left. The size of a line is the variable \<^verbatim>\<open>cacheline_bytes\<close>, an argument here. Barriers and
  TLB maintenance, which follow, have no effect on the modelled memory.
  \<^verbatim>\<open>invalidate_dcache_va_range\<close> is not modelled: its inline assembly does not assemble.
\<close>

subsection \<open>Model\<close>

datatype dcache_op = Clean_invalidate u64

text \<open>A loop over the lines from \<open>p\<close> up to \<open>e\<close> with the stride \<^verbatim>\<open>cacheline_bytes\<close>: endless for stride 0.\<close>

partial_function (option) line_loop :: "u64 \<Rightarrow> u64 \<Rightarrow> u64 \<Rightarrow> dcache_op list \<Rightarrow> dcache_op list option" where
  "line_loop line p e ops =
     (if p < e then line_loop line (p + line) e (ops @ [Clean_invalidate p]) else Some ops)"

definition clean_and_invalidate_dcache_va_range :: "u64 \<Rightarrow> u64 \<Rightarrow> u64 \<Rightarrow> dcache_op list option" where
  "clean_and_invalidate_dcache_va_range line p sz = line_loop line p (p + sz) []"

definition apply_ept :: "u64 \<Rightarrow> u64 \<Rightarrow> dcache_op list option" where
  "apply_ept line ept = clean_and_invalidate_dcache_va_range line ept PAGE_SIZE"

subsection \<open>The loop\<close>

lemma ceil_step: "0 < d \<Longrightarrow> 0 < l \<Longrightarrow> (d + l - 1) div l = Suc ((d - l + l - 1) div l)" for d l :: nat
  by (cases "d < l") (auto simp: not_less div_if)

lemma line_loop_some:
  assumes "0 < unat line" "unat e + unat line \<le> 2 ^ 64"
  shows "line_loop line p e ops =
     Some (ops @ map (\<lambda>i. Clean_invalidate (p + of_nat i * line)) [0 ..< (unat e - unat p + unat line - 1) div unat line])"
proof (induction "unat e - unat p" arbitrary: p ops rule: less_induct)
  case less
  show ?case
  proof (cases "p < e")
    case True
    then have lt: "unat p < unat e" by (simp add: word_less_nat_alt)
    then have u: "unat (p + line) = unat p + unat line" using assms by (simp add: unat_plus_if_size word_size)
    let ?n = "\<lambda>d. (d + unat line - 1) div unat line"
    have "?n (unat e - unat p) = Suc (?n (unat e - unat p - unat line))"
      using lt assms(1) by (intro ceil_step) simp_all
    then have "map (\<lambda>i. Clean_invalidate (p + of_nat i * line)) [0..<?n (unat e - unat p)] =
        Clean_invalidate p # map (\<lambda>i. Clean_invalidate (p + line + of_nat i * line)) [0..<?n (unat e - unat p - unat line)]"
      by (simp add: upt_conv_Cons map_Suc_upt [symmetric] algebra_simps del: upt_Suc)
    moreover have "unat e - unat (p + line) < unat e - unat p" using u lt assms(1) by simp
    from less [OF this] have "line_loop line (p + line) e (ops @ [Clean_invalidate p]) = Some ((ops @ [Clean_invalidate p]) @
        map (\<lambda>i. Clean_invalidate (p + line + of_nat i * line)) [0..<?n (unat e - unat p - unat line)])" by (simp add: u)
    ultimately show ?thesis using True by (subst line_loop.simps) simp
  next
    case False
    then have "unat e \<le> unat p" by (simp add: word_less_nat_alt)
    then show ?thesis using False assms(1) by (subst line_loop.simps) simp
  qed
qed

lemma line_loop_stuck: "line_loop 0 p e ops = Some r \<Longrightarrow> \<not> p < e"
proof (rule line_loop.raw_induct [of "\<lambda>line p e ops r. line = 0 \<longrightarrow> \<not> p < e", rule_format])
qed (auto split: if_splits)


text \<open>The lines of a loop whose two ends are multiples of the line size.\<close>

lemma line_loop_aligned:
  fixes line :: u64 and u v :: nat
  assumes "0 < unat line" "unat line * v + unat line \<le> 2 ^ 64" "unat p = unat line * u" "unat e = unat line * v"
  shows "line_loop line p e ops = Some (ops @ map (\<lambda>i. Clean_invalidate (of_nat (unat line * i))) [u..<v])"
proof -
  have "(unat e - unat p + unat line - 1) div unat line = v - u"
  proof -
    have "unat e - unat p + unat line - 1 = unat line * (v - u) + (unat line - 1)"
      using assms(1) by (simp add: assms(3,4) diff_mult_distrib2)
    then show ?thesis using assms(1) by (intro div_nat_eqI) simp_all
  qed
  moreover have "p + of_nat i * line = of_nat (unat line * (u + i))" for i
  proof -
    have "p = of_nat (unat line * u)" by (simp only: flip: assms(3)) simp
    then show ?thesis by (simp add: algebra_simps)
  qed
  ultimately have "line_loop line p e ops = Some (ops @ map (\<lambda>i. Clean_invalidate (of_nat (unat line * (u + i)))) [0..<v - u])"
    using line_loop_some [OF assms(1), of e p ops] assms(2,4) by simp
  also have "map (\<lambda>i. Clean_invalidate (of_nat (unat line * (u + i)))) [0..<v - u] = map (\<lambda>i. Clean_invalidate (of_nat (unat line * i))) [u..<v]"
    by (rule nth_equalityI) simp_all
  finally show ?thesis .
qed

lemma apply_ept_returns:
  assumes "line \<noteq> 0" "unat line \<le> 2 ^ 32" "unat ept < 2 ^ 48"
  shows "\<exists>ops. apply_ept line ept = Some ops"
proof -
  have "unat (ept + 4096) + unat line \<le> 2 ^ 64" using assms by (simp add: unat_plus_if_size word_size)
  then show ?thesis using assms(1) line_loop_some [of line "ept + 4096" ept "[]"]
    by (simp add: apply_ept_def clean_and_invalidate_dcache_va_range_def PAGE_SIZE_def unat_gt_0)
qed

lemma apply_ept_stuck: "unat ept < 2 ^ 48 \<Longrightarrow> apply_ept 0 ept = None"
proof -
  assume "unat ept < 2 ^ 48"
  then have "ept < ept + 4096" by (simp add: word_less_nat_alt unat_plus_if_size word_size)
  then show ?thesis using line_loop_stuck [of ept "ept + 4096" "[]"]
    by (cases "apply_ept 0 ept") (auto simp: apply_ept_def clean_and_invalidate_dcache_va_range_def PAGE_SIZE_def)
qed

subsection \<open>Properties\<close>

text \<open>Two addresses on one line; the address an operation is given.\<close>

definition same_line :: "u64 \<Rightarrow> u64 \<Rightarrow> u64 \<Rightarrow> bool" where
  "same_line line a b \<longleftrightarrow> unat a div unat line = unat b div unat line"

fun op_addr :: "dcache_op \<Rightarrow> u64" where
  "op_addr (Clean_invalidate a) = a"

text \<open>
  C22. \<^verbatim>\<open>clean_and_invalidate_dcache_va_range\<close> over a range that does not reach the end of the address
  space returns exactly if the line size is not 0 or the range is empty: before \<^verbatim>\<open>setup_cache\<close> has
  run, and on a processor where it reads 0, the loop is never left.
\<close>

theorem dcache_clean_terminates:
  assumes "unat p + unat sz + unat line \<le> 2 ^ 64" "unat p + unat sz < 2 ^ 64"
  shows "(\<exists>ops. clean_and_invalidate_dcache_va_range line p sz = Some ops) \<longleftrightarrow> line \<noteq> 0 \<or> sz = 0"
proof (cases "line = 0")
  case False
  moreover have "unat (p + sz) = unat p + unat sz" using assms(2) by (simp add: unat_plus_if_size word_size)
  ultimately show ?thesis using assms(1) line_loop_some [of line "p + sz" p "[]"]
    by (simp add: clean_and_invalidate_dcache_va_range_def unat_gt_0)
next
  case True
  have "p < p + sz \<longleftrightarrow> sz \<noteq> 0" using assms(2) by (simp add: word_less_nat_alt unat_plus_if_size word_size unat_gt_0)
  then show ?thesis using True line_loop_stuck [of p "p + sz" "[]"]
    by (auto simp: clean_and_invalidate_dcache_va_range_def line_loop.simps [of _ p p])
qed

theorem dcache_clean_terminates_witness:
  "(\<exists>ops. clean_and_invalidate_dcache_va_range 0 0x1000 8 = Some ops) \<longleftrightarrow> (0 :: u64) \<noteq> 0 \<or> (8 :: u64) = 0"
  by (rule dcache_clean_terminates) simp_all

text \<open>
  \<^verbatim>\<open>clean_and_invalidate_dcache_va_range\<close> starts at \<open>p\<close> itself and not at its line: a range that
  crosses a line boundary may end on a line that is not maintained.
\<close>

theorem dcache_clean_misses:
  "\<exists>ops. clean_and_invalidate_dcache_va_range 64 60 8 = Some ops \<and> \<not> list_ex (\<lambda>x. same_line 64 64 (op_addr x)) ops"
  using line_loop_some [of 64 68 60 "[]"]
  by (simp add: clean_and_invalidate_dcache_va_range_def same_line_def)


text \<open>
  C23. For a table, which fills a page, and a line size that divides the page size, \<^verbatim>\<open>apply_ept\<close> returns;
  the lines it cleans are exactly the lines of the page: every byte of the page lies on one of them,
  and each operation is at the start of a line inside the page.
\<close>

theorem apply_ept_covers:
  assumes "unat line dvd 4096" "4096 dvd unat ept" "unat ept + 2 * 4096 \<le> 2 ^ 64"
  shows "\<exists>ops. apply_ept line ept = Some ops \<and>
    (\<forall>a. unat ept \<le> unat a \<and> unat a < unat ept + 4096 \<longrightarrow> list_ex (\<lambda>x. same_line line a (op_addr x)) ops) \<and>
    (\<forall>x \<in> set ops. unat (op_addr x) mod unat line = 0 \<and> unat ept \<le> unat (op_addr x) \<and>
       unat (op_addr x) + unat line \<le> unat ept + 4096)"
proof -
  define l where "l = unat line"
  from assms(1) obtain k where k: "4096 = l * k" unfolding l_def by (rule dvdE)
  then have l: "0 < l" "l \<le> 4096" using assms(1) by (auto simp: l_def dest: dvd_imp_le intro: Nat.gr0I)
  from assms(2) obtain j where j: "unat ept = 4096 * j" by auto
  then have u: "unat ept = l * (k * j)" unfolding k by (simp only: mult.assoc)
  have "unat (ept + 4096) = unat ept + 4096" using assms(3) by (simp add: unat_word_ariths)
  then have v: "unat (ept + 4096) = l * (k * j + k)" using u k by (simp add: distrib_left)
  have "l * (k * j + k) + l \<le> 2 ^ 64" using assms(3) u k l(2) by (simp add: distrib_left)
  from line_loop_aligned [of line, folded l_def, OF l(1) this u v, of "[]"]
  have ops: "apply_ept line ept = Some (map (\<lambda>i. Clean_invalidate (of_nat (l * i))) [k * j..<k * j + k])"
    by (simp add: apply_ept_def clean_and_invalidate_dcache_va_range_def PAGE_SIZE_def)
  moreover have "list_ex (\<lambda>x. same_line line a (op_addr x)) (map (\<lambda>i. Clean_invalidate (of_nat (l * i))) [k * j..<k * j + k])"
    if a: "unat ept \<le> unat a" "unat a < unat ept + 4096" for a
  proof -
    let ?q = "unat a div l"
    have "k * j \<le> ?q" using a(1) l(1) unfolding u by (simp add: less_eq_div_iff_mult_less_eq mult.commute)
    moreover have "?q < k * j + k" using a(2) l(1) k unfolding u
      by (simp add: div_less_iff_less_mult distrib_left mult.commute)
    moreover have "same_line line a (of_nat (l * ?q))"
    proof -
      have "l * ?q \<le> unat a" by simp
      also have "\<dots> < 2 ^ 64" using unsigned_less [of a] by simp
      finally have "unat (of_nat (l * ?q) :: u64) = l * ?q" by (intro of_nat_inverse) simp_all
      then show ?thesis using l(1) by (simp add: same_line_def flip: l_def del: of_nat_mult)
    qed
    ultimately show ?thesis by (auto simp: list_ex_iff simp del: of_nat_mult)
  qed
  moreover have "unat (of_nat (l * i) :: u64) mod l = 0 \<and> unat ept \<le> unat (of_nat (l * i) :: u64) \<and>
      unat (of_nat (l * i) :: u64) + l \<le> unat ept + 4096" if i: "k * j \<le> i" "i < k * j + k" for i
  proof -
    have b: "l * (k * j) \<le> l * i" "l * Suc i \<le> l * (k * j + k)"
      using i by (simp_all only: mult_le_mono2 Suc_leI)
    have e: "l * Suc i = l * i + l" "l * (k * j + k) = unat ept + 4096" using u k by (simp_all add: distrib_left)
    have "l * i + l \<le> unat ept + 4096" using b(2) unfolding e .
    moreover from this have "unat (of_nat (l * i) :: u64) = l * i"
      using assms(3) l(1) by (intro of_nat_inverse) simp_all
    ultimately show ?thesis using b(1) u by (simp del: of_nat_mult)
  qed
  ultimately show ?thesis by (auto simp: l_def simp del: of_nat_mult)
qed

theorem apply_ept_covers_witness:
  "\<exists>ops. apply_ept 64 0x44001000 = Some ops \<and>
    (\<forall>a. unat (0x44001000 :: u64) \<le> unat a \<and> unat a < unat (0x44001000 :: u64) + 4096 \<longrightarrow>
       list_ex (\<lambda>x. same_line 64 a (op_addr x)) ops) \<and>
    (\<forall>x \<in> set ops. unat (op_addr x) mod unat (64 :: u64) = 0 \<and> unat (0x44001000 :: u64) \<le> unat (op_addr x) \<and>
       unat (op_addr x) + unat (64 :: u64) \<le> unat (0x44001000 :: u64) + 4096)"
  by (rule apply_ept_covers) simp_all

end
