(* ===== verification/Ept.thy ===== *)
theory Ept
  imports Vgic Cache
begin

text \<open>
  Stage-2 translation of the guest: the tables \<^verbatim>\<open>guest_ept_init\<close> builds (\<^verbatim>\<open>mem/ept.c\<close>),
  the pages \<^verbatim>\<open>mmio_map_gicd\<close> and \<^verbatim>\<open>mmio_map_gicc\<close> (\<^verbatim>\<open>main_hyper.c\<close>) make inaccessible so
  that accesses trap, and the handling of the trapped accesses. Table memory is a function
  from addresses of 64-bit words to their values; the address of \<^verbatim>\<open>ept_L1\<close> comes from the
  linker and is a parameter, as is the size \<open>line\<close> of a cache line. The calls of \<^verbatim>\<open>apply_ept\<close>, which do not
  change the memory but do not return for a line size of 0, are part of the model.
\<close>

type_synonym wmem = "u64 \<Rightarrow> u64"

definition LPAE_ENTRIES :: nat where "LPAE_ENTRIES = 512"

definition LPAE_L1_SIZE :: nat where "LPAE_L1_SIZE = 4"

definition LPAE_L2_SIZE :: nat where "LPAE_L2_SIZE = LPAE_L1_SIZE * LPAE_ENTRIES"

definition LPAE_L3_SIZE :: nat where "LPAE_L3_SIZE = LPAE_L2_SIZE * LPAE_ENTRIES"

lemmas lpae_sizes = LPAE_ENTRIES_def LPAE_L1_SIZE_def LPAE_L2_SIZE_def LPAE_L3_SIZE_def

definition GUEST_RAM_START :: u64 where "GUEST_RAM_START = 0x40000000"

definition GUEST_RAM_END :: u64 where "GUEST_RAM_END = GUEST_RAM_START + 0x40000000"

subsection \<open>Descriptors\<close>

text \<open>The fields of \<^verbatim>\<open>lpae_p2m_t\<close> that the code stores to.\<close>

definition p2m_valid :: "u64 \<Rightarrow> u64 \<Rightarrow> u64" where "p2m_valid = set_bitfield 0 1"

definition p2m_table :: "u64 \<Rightarrow> u64 \<Rightarrow> u64" where "p2m_table = set_bitfield 1 1"

definition p2m_mattr :: "u64 \<Rightarrow> u64 \<Rightarrow> u64" where "p2m_mattr = set_bitfield 2 4"

definition p2m_read :: "u64 \<Rightarrow> u64 \<Rightarrow> u64" where "p2m_read = set_bitfield 6 1"

definition p2m_write :: "u64 \<Rightarrow> u64 \<Rightarrow> u64" where "p2m_write = set_bitfield 7 1"

definition p2m_sh :: "u64 \<Rightarrow> u64 \<Rightarrow> u64" where "p2m_sh = set_bitfield 8 2"

definition p2m_af :: "u64 \<Rightarrow> u64 \<Rightarrow> u64" where "p2m_af = set_bitfield 10 1"

definition p2m_xn :: "u64 \<Rightarrow> u64 \<Rightarrow> u64" where "p2m_xn = set_bitfield 54 1"

lemmas p2m_defs = p2m_valid_def p2m_table_def p2m_mattr_def p2m_read_def p2m_write_def p2m_sh_def
  p2m_af_def p2m_xn_def

definition isInMemory :: "u64 \<Rightarrow> bool" where
  "isInMemory gpa \<longleftrightarrow> GUEST_RAM_START \<le> gpa \<and> gpa < GUEST_RAM_END"

definition table_entry :: "u64 \<Rightarrow> u64" where
  "table_entry next_table = p2m_table 1 (p2m_valid 1 0) OR next_table"

definition page_entry :: "u64 \<Rightarrow> u64" where
  "page_entry gpa =
     (let e = 0;
          e = p2m_valid 1 e;
          e = p2m_table 1 e;
          e = p2m_af 1 e;
          e = p2m_read 1 e;
          e = p2m_write 1 e;
          e = p2m_mattr 0xF e;
          e = p2m_sh 0x03 e;
          e = p2m_xn 0x0 e;
          e = (if isInMemory gpa then p2m_mattr 0xF (p2m_sh 0x03 e)
               else p2m_xn 1 (p2m_sh 0x0 (p2m_mattr 0x1 e)))
      in e OR gpa)"

subsection \<open>Building the tables\<close>

definition elem :: "u64 \<Rightarrow> nat \<Rightarrow> u64" where
  "elem base i = base + word_of_nat (8 * i)"

function l3_loop :: "u64 \<Rightarrow> nat \<Rightarrow> u64 \<Rightarrow> wmem \<Rightarrow> u64 \<times> wmem" where
  "l3_loop ept_l3 i gpa m =
     (if i < LPAE_ENTRIES
      then l3_loop ept_l3 (i + 1) (gpa + 4 * 1024) (m(elem ept_l3 i := page_entry gpa))
      else (gpa, m))"
  by pat_completeness auto
termination by (relation "measure (\<lambda>(b, i, g, m). LPAE_ENTRIES - i)") auto

declare l3_loop.simps [simp del]

text \<open>
  The loops over the two upper levels write the descriptor of a table, fill the table and make it
  visible with \<^verbatim>\<open>apply_ept\<close>; \<open>ops\<close> are the cache operations issued so far. The result is \<open>None\<close> when a call of
  \<^verbatim>\<open>apply_ept\<close> does not return.
\<close>

function l2_loop :: "u64 \<Rightarrow> u64 \<Rightarrow> u64 \<Rightarrow> nat \<Rightarrow> nat \<Rightarrow> u64 \<Rightarrow> wmem \<Rightarrow> dcache_op list \<Rightarrow> (u64 \<times> wmem \<times> dcache_op list) option" where
  "l2_loop line ept_l2 ept_L3_root i1 i2 gpa m ops =
     (if i2 < LPAE_ENTRIES
      then
        (let ept_l3 = elem ept_L3_root (LPAE_ENTRIES * LPAE_ENTRIES * i1 + LPAE_ENTRIES * i2);
             (gpa, m) = l3_loop ept_l3 0 gpa (m(elem ept_l2 i2 := table_entry ept_l3))
         in case apply_ept line ept_l3 of
              None \<Rightarrow> None
            | Some os \<Rightarrow> l2_loop line ept_l2 ept_L3_root i1 (i2 + 1) gpa m (ops @ os))
      else Some (gpa, m, ops))"
  by pat_completeness auto
termination by (relation "measure (\<lambda>(line, b, r, i1, i, g, m, ops). LPAE_ENTRIES - i)") auto

function l1_loop :: "u64 \<Rightarrow> u64 \<Rightarrow> u64 \<Rightarrow> u64 \<Rightarrow> nat \<Rightarrow> u64 \<Rightarrow> wmem \<Rightarrow> dcache_op list \<Rightarrow> (u64 \<times> wmem \<times> dcache_op list) option" where
  "l1_loop line ept_L1 ept_L2_root ept_L3_root i1 gpa m ops =
     (if i1 < LPAE_L1_SIZE
      then
        (let ept_l2 = elem ept_L2_root (LPAE_ENTRIES * i1)
         in case l2_loop line ept_l2 ept_L3_root i1 0 gpa (m(elem ept_L1 i1 := table_entry ept_l2)) ops of
              None \<Rightarrow> None
            | Some (gpa, m, ops) \<Rightarrow>
                (case apply_ept line ept_l2 of
                   None \<Rightarrow> None
                 | Some os \<Rightarrow> l1_loop line ept_L1 ept_L2_root ept_L3_root (i1 + 1) gpa m (ops @ os)))
      else Some (gpa, m, ops))"
  by pat_completeness auto
termination by (relation "measure (\<lambda>(line, a, b, r, i, g, m, ops). LPAE_L1_SIZE - i)") auto

declare l2_loop.simps [simp del] l1_loop.simps [simp del]

text \<open>
  The two table roots, and what \<^verbatim>\<open>guest_ept_init\<close> leaves: them, the tables, the cache operations and
  \<^verbatim>\<open>VTTBR_EL2\<close>.
\<close>

record ept_t =
  ept_L2_root :: u64
  ept_L3_root :: u64
  ept_mem :: wmem
  ept_ops :: "dcache_op list"
  vttbr_el2 :: u64

definition guest_ept_init :: "u64 \<Rightarrow> u64 \<Rightarrow> wmem \<Rightarrow> ept_t option" where
  "guest_ept_init line ept_L1 m =
     (let ept_L1_root = elem ept_L1 LPAE_L1_SIZE;
          l2_root = (ept_L1_root + push_bit 12 1) AND NOT 0xFFF;
          l3_root = elem l2_root LPAE_L2_SIZE
      in case l1_loop line ept_L1 l2_root l3_root 0 0 m [] of
           None \<Rightarrow> None
         | Some (_, m, ops) \<Rightarrow>
             (case apply_ept line ept_L1 of
                None \<Rightarrow> None
              | Some os \<Rightarrow> Some \<lparr>ept_L2_root = l2_root, ept_L3_root = l3_root, ept_mem = m, ept_ops = ops @ os,
                               vttbr_el2 = ept_L1\<rparr>))"

definition get_ept_entry :: "ept_t \<Rightarrow> u64 \<Rightarrow> u64" where
  "get_ept_entry s gpa = ept_L3_root s + 8 * drop_bit 12 gpa"

subsection \<open>Trapped pages\<close>

definition MMIO_AREA_GICD :: u64 where "MMIO_AREA_GICD = 0x8000000"

definition MMIO_AREA_GICC :: u64 where "MMIO_AREA_GICC = 0x8010000"

definition MMIO_ARREA :: u64 where "MMIO_ARREA = 0x50000000"

definition no_access :: "u64 \<Rightarrow> ept_t \<Rightarrow> u64 \<Rightarrow> ept_t option" where
  "no_access line s gpa =
     (let p = get_ept_entry s gpa;
          m = ept_mem s;
          m = m(p := p2m_read 0 (m p));
          m = m(p := p2m_write 0 (m p))
      in case apply_ept line p of
           None \<Rightarrow> None
         | Some os \<Rightarrow> Some (s\<lparr>ept_mem := m, ept_ops := ept_ops s @ os\<rparr>))"

function mmio_map_loop :: "u64 \<Rightarrow> u64 \<Rightarrow> nat \<Rightarrow> ept_t \<Rightarrow> ept_t option" where
  "mmio_map_loop line area i s =
     (if i < 16
      then (case no_access line s (area + word_of_nat (0x1000 * i)) of
              None \<Rightarrow> None
            | Some s \<Rightarrow> mmio_map_loop line area (i + 1) s)
      else Some s)"
  by pat_completeness auto
termination by (relation "measure (\<lambda>(line, a, i, s). 16 - i)") auto

declare mmio_map_loop.simps [simp del]

definition mmio_map_gicd :: "u64 \<Rightarrow> ept_t \<Rightarrow> ept_t option" where
  "mmio_map_gicd line s = mmio_map_loop line MMIO_AREA_GICD 0 s"

definition mmio_map_gicc :: "u64 \<Rightarrow> ept_t \<Rightarrow> ept_t option" where
  "mmio_map_gicc line s = mmio_map_loop line MMIO_AREA_GICC 0 s"

subsection \<open>Data aborts\<close>

definition handle_mmio ::
    "dev \<Rightarrow> ept_violation_info_t \<Rightarrow> trap_frame_t \<Rightarrow> hist \<Rightarrow> trap_frame_t \<times> hist" where
  "handle_mmio dev info el2_ctx h =
     (let gpa = info_gpa info;
          reg_num = dabt_reg (info_hsr info)
      in if dabt_write (info_hsr info) \<noteq> 0
         then (el2_ctx, if reg_num \<noteq> 30 then write64 (frame_reg el2_ctx (unat reg_num)) gpa h else h)
         else (let (dat, h) = read64 dev gpa h
               in (if reg_num \<noteq> 30 then set_frame_reg el2_ctx (unat reg_num) dat else el2_ctx, h)))"

definition data_abort_handler ::
    "dev \<Rightarrow> ept_violation_info_t \<Rightarrow> trap_frame_t \<Rightarrow> hist \<Rightarrow> ept_violation_info_t \<times> trap_frame_t \<times> hist" where
  "data_abort_handler dev info el2_ctx h =
     (if GICD_BASE_ADDR \<le> info_gpa info \<and> info_gpa info \<le> GICD_BASE_ADDR + 0x0010000
      then (info, el2_ctx, snd (intc_handler info el2_ctx h))
      else if GICC_BASE_ADDR \<le> info_gpa info \<and> info_gpa info \<le> GICC_BASE_ADDR + 0x0010000
      then (let info = info\<lparr>info_gpa := info_gpa info + 0x30000\<rparr>
            in (info, handle_mmio dev info el2_ctx h))
      else (info, el2_ctx, h))"

text \<open>
  \<^verbatim>\<open>gva_to_ipa\<close>, with the address translation instruction as a parameter: the value of
  \<^verbatim>\<open>PAR_EL1\<close> it leaves.
\<close>

definition PAR_F :: u64 where "PAR_F = push_bit 0 1"

definition PADDR_MASK :: u64 where "PADDR_MASK = push_bit 40 1 - 1"

definition PAGE_MASK :: u64 where "PAGE_MASK = push_bit 12 1"

definition gva_to_ipa_par :: "(u64 \<Rightarrow> u64) \<Rightarrow> u64 \<Rightarrow> u64" where
  "gva_to_ipa_par at_s1e1r va = at_s1e1r va"

definition gva_to_ipa :: "(u64 \<Rightarrow> u64) \<Rightarrow> u64 \<Rightarrow> u64 option" where
  "gva_to_ipa at_s1e1r va =
     (let par = gva_to_ipa_par at_s1e1r va in
      if par AND PAR_F \<noteq> 0 then None
      else Some ((par AND PADDR_MASK AND PAGE_MASK) OR (va AND NOT PAGE_MASK)))"

subsection \<open>The effect on the memory\<close>

text \<open>
  What the loops do to the memory, without the cache operations: the reference for the loops above, which
  are shown below to compute it whenever \<^verbatim>\<open>apply_ept\<close> returns.
\<close>

function l2_build :: "u64 \<Rightarrow> u64 \<Rightarrow> nat \<Rightarrow> nat \<Rightarrow> u64 \<Rightarrow> wmem \<Rightarrow> u64 \<times> wmem" where
  "l2_build ept_l2 r3 i1 i2 gpa m =
     (if i2 < LPAE_ENTRIES
      then
        (let ept_l3 = elem r3 (LPAE_ENTRIES * LPAE_ENTRIES * i1 + LPAE_ENTRIES * i2);
             (gpa, m) = l3_loop ept_l3 0 gpa (m(elem ept_l2 i2 := table_entry ept_l3))
         in l2_build ept_l2 r3 i1 (i2 + 1) gpa m)
      else (gpa, m))"
  by pat_completeness auto
termination by (relation "measure (\<lambda>(b, r, i1, i, g, m). LPAE_ENTRIES - i)") auto

function l1_build :: "u64 \<Rightarrow> u64 \<Rightarrow> u64 \<Rightarrow> nat \<Rightarrow> u64 \<Rightarrow> wmem \<Rightarrow> u64 \<times> wmem" where
  "l1_build ept_L1 r2 r3 i1 gpa m =
     (if i1 < LPAE_L1_SIZE
      then
        (let ept_l2 = elem r2 (LPAE_ENTRIES * i1);
             (gpa, m) = l2_build ept_l2 r3 i1 0 gpa (m(elem ept_L1 i1 := table_entry ept_l2))
         in l1_build ept_L1 r2 r3 (i1 + 1) gpa m)
      else (gpa, m))"
  by pat_completeness auto
termination by (relation "measure (\<lambda>(a, b, r, i, g, m). LPAE_L1_SIZE - i)") auto

declare l2_build.simps [simp del] l1_build.simps [simp del]

definition ept_build :: "u64 \<Rightarrow> wmem \<Rightarrow> ept_t" where
  "ept_build ept_L1 m =
     (let ept_L1_root = elem ept_L1 LPAE_L1_SIZE;
          l2_root = (ept_L1_root + push_bit 12 1) AND NOT 0xFFF;
          l3_root = elem l2_root LPAE_L2_SIZE;
          (_, m) = l1_build ept_L1 l2_root l3_root 0 0 m
      in \<lparr>ept_L2_root = l2_root, ept_L3_root = l3_root, ept_mem = m, ept_ops = [], vttbr_el2 = ept_L1\<rparr>)"

definition trap_page :: "ept_t \<Rightarrow> u64 \<Rightarrow> ept_t" where
  "trap_page s gpa =
     (let p = get_ept_entry s gpa;
          m = ept_mem s;
          m = m(p := p2m_read 0 (m p));
          m = m(p := p2m_write 0 (m p))
      in s\<lparr>ept_mem := m\<rparr>)"

function trap_loop :: "u64 \<Rightarrow> nat \<Rightarrow> ept_t \<Rightarrow> ept_t" where
  "trap_loop area i s =
     (if i < 16 then trap_loop area (i + 1) (trap_page s (area + word_of_nat (0x1000 * i))) else s)"
  by pat_completeness auto
termination by (relation "measure (\<lambda>(a, i, s). 16 - i)") auto

declare trap_loop.simps [simp del]

definition trap_gicd :: "ept_t \<Rightarrow> ept_t" where
  "trap_gicd s = trap_loop MMIO_AREA_GICD 0 s"

definition trap_gicc :: "ept_t \<Rightarrow> ept_t" where
  "trap_gicc s = trap_loop MMIO_AREA_GICC 0 s"

subsection \<open>Filling tables\<close>

text \<open>The index of an address in the table at \<open>base\<close>, and a table filled from \<open>lo\<close> to \<open>hi\<close>.\<close>

definition idx :: "u64 \<Rightarrow> u64 \<Rightarrow> nat option" where
  "idx base a = (if unat (a - base) mod 8 = 0 then Some (unat (a - base) div 8) else None)"

definition in_tab :: "u64 \<Rightarrow> nat \<Rightarrow> nat \<Rightarrow> u64 \<Rightarrow> bool" where
  "in_tab base lo hi a \<longleftrightarrow> (case idx base a of None \<Rightarrow> False | Some k \<Rightarrow> lo \<le> k \<and> k < hi)"

definition fill :: "u64 \<Rightarrow> nat \<Rightarrow> nat \<Rightarrow> (nat \<Rightarrow> u64) \<Rightarrow> wmem \<Rightarrow> wmem" where
  "fill base lo hi f m = (\<lambda>a. if in_tab base lo hi a then f (the (idx base a)) else m a)"

lemma unat_8: "i < 2 ^ 60 \<Longrightarrow> unat (word_of_nat (8 * i) :: u64) = 8 * i"
  by (simp add: unat_of_nat del: of_nat_mult)

lemma idx_elem: "i < 2 ^ 60 \<Longrightarrow> idx base (elem base i) = Some i"
  by (simp add: idx_def elem_def unat_8 del: of_nat_mult)

lemma idx_Some_iff: "i < 2 ^ 60 \<Longrightarrow> idx base a = Some i \<longleftrightarrow> a = elem base i"
proof
  assume i: "i < 2 ^ 60" and "idx base a = Some i"
  then have "unat (a - base) = 8 * i" by (auto simp: idx_def split: if_splits)
  then have "unat (a - base) = unat (word_of_nat (8 * i) :: u64)" using i by (simp only: unat_8)
  then have "a - base = word_of_nat (8 * i)" by (simp only: word_unat_eq_iff)
  then show "a = elem base i" by (metis add.commute diff_add_cancel elem_def)
qed (simp add: idx_elem)


lemma upd_fill: "i < 2 ^ 60 \<Longrightarrow> m(elem base i := f i) = fill base i (Suc i) f m"
proof (rule ext)
  fix a assume i: "i < 2 ^ 60"
  have "in_tab base i (Suc i) a \<longleftrightarrow> idx base a = Some i"
    by (auto simp: in_tab_def split: option.splits)
  then show "(m(elem base i := f i)) a = fill base i (Suc i) f m a"
    by (simp add: fill_def idx_Some_iff [OF i] idx_elem [OF i])
qed

lemma fill_fill: "i \<le> j \<Longrightarrow> j \<le> k \<Longrightarrow> fill base j k f (fill base i j f m) = fill base i k f m"
  by (rule ext) (auto simp: fill_def in_tab_def split: option.splits)

lemma fill_commute:
  "(\<And>a. in_tab b lo hi a \<Longrightarrow> in_tab b' lo' hi' a \<Longrightarrow> False) \<Longrightarrow>
     fill b lo hi f (fill b' lo' hi' g m) = fill b' lo' hi' g (fill b lo hi f m)"
  by (rule ext) (auto simp: fill_def)

lemma fill_empty [simp]: "fill base i i f m = m"
  by (rule ext) (auto simp: fill_def in_tab_def split: option.splits)

lemma elem_elem: "elem (elem base p) i = elem base (p + i)"
  by (simp add: elem_def)

lemma l3_loop_fill:
  assumes "i \<le> LPAE_ENTRIES" "p + LPAE_ENTRIES < 2 ^ 60"
  shows "l3_loop (elem base p) i (word_of_nat (4096 * (p + i))) m =
     (word_of_nat (4096 * (p + LPAE_ENTRIES)),
      fill base (p + i) (p + LPAE_ENTRIES) (\<lambda>k. page_entry (word_of_nat (4096 * k))) m)"
  using assms
proof (induction "LPAE_ENTRIES - i" arbitrary: i m)
  case 0
  then have "i = LPAE_ENTRIES" by simp
  then show ?case by (simp add: l3_loop.simps [of _ LPAE_ENTRIES])
next
  case (Suc n)
  let ?f = "\<lambda>k. page_entry (word_of_nat (4096 * k))"
  have i: "i < LPAE_ENTRIES" and n: "n = LPAE_ENTRIES - (i + 1)" using Suc.hyps(2) by simp_all
  have "l3_loop (elem base p) i (word_of_nat (4096 * (p + i))) m =
      l3_loop (elem base p) (i + 1) (word_of_nat (4096 * (p + i)) + 4 * 1024)
        (m(elem base (p + i) := ?f (p + i)))"
    using i by (simp add: l3_loop.simps [of _ i] elem_elem)
  also have "word_of_nat (4096 * (p + i)) + 4 * 1024 = (word_of_nat (4096 * (p + (i + 1))) :: u64)"
    by simp
  also have "m(elem base (p + i) := ?f (p + i)) = fill base (p + i) (Suc (p + i)) ?f m"
    using i Suc.prems by (intro upd_fill) simp
  also have "l3_loop (elem base p) (i + 1) (word_of_nat (4096 * (p + (i + 1)))) \<dots> =
     (word_of_nat (4096 * (p + LPAE_ENTRIES)),
      fill base (p + (i + 1)) (p + LPAE_ENTRIES) ?f (fill base (p + i) (Suc (p + i)) ?f m))"
    using i Suc.prems by (intro Suc.hyps(1) [OF n]) simp_all
  also have "\<dots> = (word_of_nat (4096 * (p + LPAE_ENTRIES)), fill base (p + i) (p + LPAE_ENTRIES) ?f m)"
    using i by (simp add: fill_fill)
  finally show ?case .
qed

lemma in_tab_mono: "in_tab b lo hi a \<Longrightarrow> lo' \<le> lo \<Longrightarrow> hi \<le> hi' \<Longrightarrow> in_tab b lo' hi' a"
  by (auto simp: in_tab_def split: option.splits)

text \<open>The final contents of the three levels.\<close>

definition pages :: "nat \<Rightarrow> u64" where
  "pages k = page_entry (word_of_nat (4096 * k))"

definition l3_tables :: "u64 \<Rightarrow> nat \<Rightarrow> u64" where
  "l3_tables L3 k = table_entry (elem L3 (LPAE_ENTRIES * k))"

definition disjoint_tabs :: "u64 \<Rightarrow> nat \<Rightarrow> u64 \<Rightarrow> nat \<Rightarrow> bool" where
  "disjoint_tabs b n b' n' \<longleftrightarrow> (\<forall>a. \<not> (in_tab b 0 n a \<and> in_tab b' 0 n' a))"

lemma fill_commute_disjoint:
  assumes "disjoint_tabs b n b' n'" "hi \<le> n" "hi' \<le> n'"
  shows "fill b lo hi f (fill b' lo' hi' g m) = fill b' lo' hi' g (fill b lo hi f m)"
  using assms by (intro fill_commute) (metis disjoint_tabs_def in_tab_mono le0)

lemma l2_build_fill:
  assumes "j \<le> LPAE_ENTRIES" "i1 < LPAE_L1_SIZE" and dis: "disjoint_tabs L2 LPAE_L2_SIZE L3 LPAE_L3_SIZE"
  shows "l2_build (elem L2 (LPAE_ENTRIES * i1)) L3 i1 j
       (word_of_nat (4096 * (LPAE_ENTRIES * (LPAE_ENTRIES * i1 + j)))) m =
     (word_of_nat (4096 * (LPAE_ENTRIES * (LPAE_ENTRIES * (i1 + 1)))),
      fill L3 (LPAE_ENTRIES * (LPAE_ENTRIES * i1 + j)) (LPAE_ENTRIES * (LPAE_ENTRIES * (i1 + 1))) pages
        (fill L2 (LPAE_ENTRIES * i1 + j) (LPAE_ENTRIES * (i1 + 1)) (l3_tables L3) m))"
  using assms(1)
proof (induction "LPAE_ENTRIES - j" arbitrary: j m)
  case 0
  then have "j = LPAE_ENTRIES" by simp
  then show ?case by (simp add: l2_build.simps [of _ _ _ LPAE_ENTRIES] add.commute)
next
  case (Suc n)
  let ?E = LPAE_ENTRIES
  let ?q = "?E * i1 + j"
  let ?hi = "?E * (i1 + 1)"
  have j: "j < ?E" and n: "n = ?E - (j + 1)" using Suc.hyps(2) by simp_all
  have q: "?q < ?hi" "?hi \<le> LPAE_L2_SIZE" "?E * ?hi \<le> LPAE_L3_SIZE"
    using j assms(2) by (simp_all add: lpae_sizes)
  let ?m1 = "fill L2 ?q (Suc ?q) (l3_tables L3) m"
  let ?m2 = "fill L3 (?E * ?q) (?E * ?q + ?E) pages ?m1"
  have upd: "m(elem (elem L2 (?E * i1)) j := table_entry (elem L3 (?E * ?q))) = ?m1"
    unfolding elem_elem l3_tables_def [symmetric] using q by (intro upd_fill) (simp add: lpae_sizes)
  have l3: "l3_loop (elem L3 (?E * ?q)) 0 (word_of_nat (4096 * (?E * ?q))) ?m1 =
      (word_of_nat (4096 * (?E * (?E * i1 + (j + 1)))), ?m2)"
    using l3_loop_fill [of 0 "?E * ?q" L3 ?m1] q unfolding pages_def
    by (simp add: lpae_sizes algebra_simps)
  have "l2_build (elem L2 (?E * i1)) L3 i1 j (word_of_nat (4096 * (?E * ?q))) m =
      l2_build (elem L2 (?E * i1)) L3 i1 (j + 1) (word_of_nat (4096 * (?E * (?E * i1 + (j + 1))))) ?m2"
    using j l3 upd by (simp add: l2_build.simps [of _ _ _ j] Let_def algebra_simps)
  also have "\<dots> = (word_of_nat (4096 * (?E * ?hi)),
      fill L3 (?E * (?E * i1 + (j + 1))) (?E * ?hi) pages (fill L2 (?E * i1 + (j + 1)) ?hi (l3_tables L3) ?m2))"
    using j by (intro Suc.hyps(1) [OF n]) simp
  also have "fill L2 (?E * i1 + (j + 1)) ?hi (l3_tables L3) ?m2 =
      fill L3 (?E * ?q) (?E * ?q + ?E) pages (fill L2 (?E * i1 + (j + 1)) ?hi (l3_tables L3) ?m1)"
    using q j by (intro fill_commute_disjoint [OF dis]) (simp_all add: lpae_sizes)
  also have "fill L2 (?E * i1 + (j + 1)) ?hi (l3_tables L3) ?m1 = fill L2 ?q ?hi (l3_tables L3) m"
    using fill_fill [of ?q "Suc ?q" ?hi L2] q by simp
  also have "fill L3 (?E * (?E * i1 + (j + 1))) (?E * ?hi) pages
      (fill L3 (?E * ?q) (?E * ?q + ?E) pages (fill L2 ?q ?hi (l3_tables L3) m)) =
      fill L3 (?E * ?q) (?E * ?hi) pages (fill L2 ?q ?hi (l3_tables L3) m)"
    using fill_fill [of "?E * ?q" "?E * ?q + ?E" "?E * ?hi" L3] mult_le_mono2 [OF Suc_leI [OF j], of ?E]
    by (simp add: algebra_simps)
  finally show ?case .
qed


definition l2_tables :: "u64 \<Rightarrow> nat \<Rightarrow> u64" where
  "l2_tables L2 k = table_entry (elem L2 (LPAE_ENTRIES * k))"

lemma l1_build_fill:
  assumes "i \<le> LPAE_L1_SIZE" and d12: "disjoint_tabs L1 LPAE_L1_SIZE L2 LPAE_L2_SIZE"
    and d13: "disjoint_tabs L1 LPAE_L1_SIZE L3 LPAE_L3_SIZE"
    and d23: "disjoint_tabs L2 LPAE_L2_SIZE L3 LPAE_L3_SIZE"
  shows "snd (l1_build L1 L2 L3 i (word_of_nat (4096 * (LPAE_ENTRIES * (LPAE_ENTRIES * i)))) m) =
     fill L1 i LPAE_L1_SIZE (l2_tables L2)
       (fill L3 (LPAE_ENTRIES * (LPAE_ENTRIES * i)) LPAE_L3_SIZE pages
         (fill L2 (LPAE_ENTRIES * i) LPAE_L2_SIZE (l3_tables L3) m))"
  using assms(1)
proof (induction "LPAE_L1_SIZE - i" arbitrary: i m)
  case 0
  then have "i = LPAE_L1_SIZE" by simp
  moreover from this have "l1_build L1 L2 L3 i g m = (g, m)" for g by (subst l1_build.simps) simp
  ultimately show ?case by (simp add: LPAE_L2_SIZE_def LPAE_L3_SIZE_def mult.commute mult.left_commute)
next
  case (Suc n)
  let ?E = LPAE_ENTRIES
  have i: "i < LPAE_L1_SIZE" and n: "n = LPAE_L1_SIZE - (i + 1)" using Suc.hyps(2) by simp_all
  let ?l1 = "l2_tables L2" and ?l2 = "l3_tables L3"
  let ?m1 = "fill L1 i (Suc i) ?l1 m"
  let ?m2 = "fill L3 (?E * (?E * i)) (?E * (?E * (i + 1))) pages (fill L2 (?E * i) (?E * (i + 1)) ?l2 ?m1)"
  have b: "?E * (i + 1) \<le> LPAE_L2_SIZE" "?E * (?E * (i + 1)) \<le> LPAE_L3_SIZE"
    using i by (simp_all add: lpae_sizes)
  have upd: "m(elem L1 i := table_entry (elem L2 (?E * i))) = ?m1"
    unfolding l2_tables_def [symmetric] using i by (intro upd_fill) (simp add: lpae_sizes)
  have l2: "l2_build (elem L2 (?E * i)) L3 i 0 (word_of_nat (4096 * (?E * (?E * i)))) ?m1 =
      (word_of_nat (4096 * (?E * (?E * (i + 1)))), ?m2)"
    using l2_build_fill [OF _ i d23, of 0 ?m1] by simp
  have "l1_build L1 L2 L3 i (word_of_nat (4096 * (?E * (?E * i)))) m =
      l1_build L1 L2 L3 (i + 1) (word_of_nat (4096 * (?E * (?E * (i + 1))))) ?m2"
    using i l2 upd by (simp add: l1_build.simps [of _ _ _ i] Let_def)
  then have "snd (l1_build L1 L2 L3 i (word_of_nat (4096 * (?E * (?E * i)))) m) =
      fill L1 (i + 1) LPAE_L1_SIZE ?l1 (fill L3 (?E * (?E * (i + 1))) LPAE_L3_SIZE pages
        (fill L2 (?E * (i + 1)) LPAE_L2_SIZE ?l2 ?m2))"
    using Suc.hyps(1) [OF n, of ?m2] i by simp
  also have "fill L2 (?E * (i + 1)) LPAE_L2_SIZE ?l2 ?m2 =
      fill L3 (?E * (?E * i)) (?E * (?E * (i + 1))) pages
        (fill L2 (?E * (i + 1)) LPAE_L2_SIZE ?l2 (fill L2 (?E * i) (?E * (i + 1)) ?l2 ?m1))"
    using b by (intro fill_commute_disjoint [OF d23]) simp_all
  also have "fill L2 (?E * (i + 1)) LPAE_L2_SIZE ?l2 (fill L2 (?E * i) (?E * (i + 1)) ?l2 ?m1) =
      fill L2 (?E * i) LPAE_L2_SIZE ?l2 ?m1"
    using b by (intro fill_fill) simp_all
  also have "\<dots> = fill L1 i (Suc i) ?l1 (fill L2 (?E * i) LPAE_L2_SIZE ?l2 m)"
    using i by (intro fill_commute_disjoint [OF d12, symmetric]) simp_all
  also have "fill L3 (?E * (?E * (i + 1))) LPAE_L3_SIZE pages
      (fill L3 (?E * (?E * i)) (?E * (?E * (i + 1))) pages
        (fill L1 i (Suc i) ?l1 (fill L2 (?E * i) LPAE_L2_SIZE ?l2 m))) =
      fill L3 (?E * (?E * i)) LPAE_L3_SIZE pages
        (fill L1 i (Suc i) ?l1 (fill L2 (?E * i) LPAE_L2_SIZE ?l2 m))"
    using b by (intro fill_fill) simp_all
  also have "\<dots> = fill L1 i (Suc i) ?l1 (fill L3 (?E * (?E * i)) LPAE_L3_SIZE pages
        (fill L2 (?E * i) LPAE_L2_SIZE ?l2 m))"
    using i by (intro fill_commute_disjoint [OF d13, symmetric]) simp_all
  also have "fill L1 (i + 1) LPAE_L1_SIZE ?l1 \<dots> = fill L1 i LPAE_L1_SIZE ?l1
      (fill L3 (?E * (?E * i)) LPAE_L3_SIZE pages (fill L2 (?E * i) LPAE_L2_SIZE ?l2 m))"
    using i fill_fill [of i "Suc i" LPAE_L1_SIZE L1 ?l1] by simp
  finally show ?case .
qed

lemma disjoint_tabs_elem:
  assumes "n \<le> p" "p + n' < 2 ^ 60"
  shows "disjoint_tabs b n (elem b p) n'"
  unfolding disjoint_tabs_def
proof (intro allI notI, elim conjE)
  fix a assume "in_tab b 0 n a" "in_tab (elem b p) 0 n' a"
  then obtain k k' where k: "idx b a = Some k" "k < n" "idx (elem b p) a = Some k'" "k' < n'"
    by (auto simp: in_tab_def split: option.splits)
  then have "a = elem b k" "a = elem (elem b p) k'" using assms by (simp_all add: idx_Some_iff)
  then have "idx b (elem b k) = idx b (elem b (p + k'))" by (simp add: elem_elem)
  then have "k = p + k'" using k assms by (simp add: idx_elem)
  with k assms show False by simp
qed

subsection \<open>Descriptors\<close>

lemma bit_table_entry:
  "bit (table_entry t) n \<longleftrightarrow> n = 0 \<or> n = 1 \<or> bit t n"
  by (auto simp: table_entry_def p2m_defs bit_or_iff bit_set_bitfield bit_1_iff)

lemma page_entry_eq: "page_entry gpa = (if isInMemory gpa then 0x7FF else 0x400000000004C7) OR gpa"
  by (simp add: page_entry_def p2m_defs set_bitfield_def mask_eq_exp_minus_1 Let_def)

lemma page_consts:
  "(0x7FF :: u64) = mask 11"
  "(0x400000000004C7 :: u64) = mask 3 OR push_bit 6 (mask 2) OR push_bit 10 1 OR push_bit 54 1"
  by (simp_all add: mask_eq_exp_minus_1)

lemma bit_page_consts:
  "bit (0x7FF :: u64) n \<longleftrightarrow> n < 11"
  "bit (0x400000000004C7 :: u64) n \<longleftrightarrow> n < 3 \<or> n = 6 \<or> n = 7 \<or> n = 10 \<or> n = 54"
  subgoal unfolding page_consts(1) bit_mask_iff by auto
  subgoal unfolding page_consts(2) bit_or_iff bit_push_bit_iff bit_mask_iff bit_1_iff by auto
  done

lemma bit_page_entry:
  "bit (page_entry gpa) n \<longleftrightarrow>
     (if isInMemory gpa then n < 11 else n < 3 \<or> n = 6 \<or> n = 7 \<or> n = 10 \<or> n = 54) \<or> bit gpa n"
  unfolding page_entry_eq by (auto simp only: bit_or_iff bit_page_consts split: if_splits)

text \<open>
  The translation of a 32-bit guest address by the architecture, with a 4 KB granule starting
  at level 1: the address of the level-3 descriptor, when the two levels above are valid
  table descriptors.
\<close>

definition desc_table :: "u64 \<Rightarrow> bool" where
  "desc_table e \<longleftrightarrow> bit e 0 \<and> bit e 1"

definition out_addr :: "u64 \<Rightarrow> u64" where
  "out_addr e = push_bit 12 (bitfield 12 36 e)"

definition stage2_walk :: "wmem \<Rightarrow> u64 \<Rightarrow> u64 \<Rightarrow> u64 option" where
  "stage2_walk m vttbr ipa =
     (let e1 = m (vttbr + 8 * bitfield 30 2 ipa) in
      if desc_table e1
      then (let e2 = m (out_addr e1 + 8 * bitfield 21 9 ipa) in
            if desc_table e2 then Some (out_addr e2 + 8 * bitfield 12 9 ipa) else None)
      else None)"

lemma bit_aligned: "unat w mod 4096 = 0 \<Longrightarrow> n < 12 \<Longrightarrow> \<not> bit w n" for w :: u64
proof -
  assume "unat w mod 4096 = 0" "n < 12"
  then have "take_bit 12 (unat w) = 0" by (simp add: take_bit_eq_mod)
  then have "\<not> bit (take_bit 12 (unat w)) n" by simp
  then show "\<not> bit w n" using \<open>n < 12\<close> by (simp add: bit_take_bit_iff bit_unsigned_iff)
qed

lemma bit_out_addr: "bit (out_addr e) n \<longleftrightarrow> 12 \<le> n \<and> n < 48 \<and> bit e n"
  by (cases "12 \<le> n") (auto simp: out_addr_def bit_push_bit_iff bit_bitfield dest: bit_imp_le_length)

lemma bit_page_range:
  fixes t :: u64
  assumes "unat t mod 4096 = 0" "unat t < 2 ^ 48" "bit t n"
  shows "12 \<le> n" "n < 48"
  using bit_aligned [OF assms(1)] not_bit_small [OF assms(2)] assms(3) not_le by blast+

lemma out_addr_table:
  assumes "unat t mod 4096 = 0" "unat t < 2 ^ 48"
  shows "out_addr (table_entry t) = t" "desc_table (table_entry t)"
  using bit_page_range [OF assms]
  by (auto intro!: bit_word_eqI simp: bit_out_addr bit_table_entry desc_table_def)

lemma out_addr_page:
  assumes "unat g mod 4096 = 0" "unat g < 2 ^ 48"
  shows "out_addr (page_entry g) = g"
  using bit_page_range [OF assms]
  by (auto intro!: bit_word_eqI simp: bit_out_addr bit_page_entry split: if_splits)

text \<open>Where the tables lie, for a page-aligned level-1 table.\<close>

definition ept_base_ok :: "u64 \<Rightarrow> bool" where
  "ept_base_ok b \<longleftrightarrow> unat b mod 4096 = 0 \<and> unat b < 2 ^ 40"

lemma unat_elem: "unat b < 2 ^ 40 \<Longrightarrow> p < 2 ^ 40 \<Longrightarrow> unat (elem b p) = unat b + 8 * p"
  using unat_8 [of p] by (simp add: elem_def unat_plus_if_size word_size del: of_nat_mult)

lemma ept_root_align:
  assumes "ept_base_ok b"
  shows "(elem b LPAE_L1_SIZE + push_bit 12 1) AND NOT 0xFFF = elem b 512"
proof -
  let ?c = "b + 0x1000"
  have c: "unat ?c = unat b + 4096"
    using assms by (simp add: ept_base_ok_def unat_plus_if_size word_size)
  have al: "\<not> bit ?c n" if "n < 12" for n
    using bit_aligned [of ?c n] that c assms by (simp add: ept_base_ok_def)
  have k: "bit (0x20 :: u64) n \<longleftrightarrow> n = 5" "bit (NOT 0xFFF :: u64) n \<longleftrightarrow> 12 \<le> n \<and> n < LENGTH(64)" for n
  proof -
    have "(0x20 :: u64) = push_bit 5 1" "(0xFFF :: u64) = mask 12" by (simp_all add: mask_eq_exp_minus_1)
    then show "bit (0x20 :: u64) n \<longleftrightarrow> n = 5" "bit (NOT 0xFFF :: u64) n \<longleftrightarrow> 12 \<le> n \<and> n < LENGTH(64)"
      by (simp_all only: bit_push_bit_iff bit_1_iff bit_not_iff bit_mask_iff) auto
  qed
  have "?c + 0x20 = ?c OR 0x20"
    by (rule disjunctive_add_eq_or, rule bit_word_eqI) (use al in \<open>auto simp only: bit_and_iff k bit_0_eq bot_apply bot_bool_def\<close>)
  moreover have "(?c OR 0x20) AND NOT 0xFFF = ?c"
    by (rule bit_word_eqI) (use al not_le in \<open>auto simp only: bit_and_iff bit_or_iff k\<close>)
  moreover have "elem b LPAE_L1_SIZE + push_bit 12 1 = ?c + 0x20" by (simp add: elem_def LPAE_L1_SIZE_def)
  ultimately show ?thesis by (simp add: elem_def)
qed

lemma ept_roots:
  assumes "ept_base_ok b"
  shows "ept_L2_root (ept_build b m) = elem b 512"
    "ept_L3_root (ept_build b m) = elem b 2560"
    "vttbr_el2 (ept_build b m) = b"
    "ept_mem (ept_build b m) = fill b 0 4 (l2_tables (elem b 512))
       (fill (elem b 2560) 0 0x100000 pages (fill (elem b 512) 0 2048 (l3_tables (elem b 2560)) m))"
proof -
  note root = ept_root_align [OF assms]
  have l3: "elem (elem b 512) LPAE_L2_SIZE = elem b 2560" by (simp add: elem_elem lpae_sizes)
  show "ept_L2_root (ept_build b m) = elem b 512" "ept_L3_root (ept_build b m) = elem b 2560"
      "vttbr_el2 (ept_build b m) = b"
    unfolding ept_build_def Let_def root l3 by (simp_all split: prod.split)
  have d: "disjoint_tabs b LPAE_L1_SIZE (elem b 512) LPAE_L2_SIZE"
      "disjoint_tabs b LPAE_L1_SIZE (elem b 2560) LPAE_L3_SIZE"
      "disjoint_tabs (elem b 512) LPAE_L2_SIZE (elem b 2560) LPAE_L3_SIZE"
    using disjoint_tabs_elem [of LPAE_L2_SIZE 2048 LPAE_L3_SIZE "elem b 512"]
    by (auto intro!: disjoint_tabs_elem simp: elem_elem lpae_sizes)
  have "ept_mem (ept_build b m) = snd (l1_build b (elem b 512) (elem b 2560) 0 0 m)"
    unfolding ept_build_def Let_def root l3 by (simp split: prod.split)
  then show "ept_mem (ept_build b m) = fill b 0 4 (l2_tables (elem b 512))
       (fill (elem b 2560) 0 0x100000 pages (fill (elem b 512) 0 2048 (l3_tables (elem b 2560)) m))"
    using l1_build_fill [of 0, OF _ d, of m] by (simp add: lpae_sizes)
qed

lemma fill_at: "i < 2 ^ 60 \<Longrightarrow> lo \<le> i \<Longrightarrow> i < hi \<Longrightarrow> fill base lo hi f m (elem base i) = f i"
  by (simp add: fill_def in_tab_def idx_elem)

lemma fill_skip: "disjoint_tabs base n b' n' \<Longrightarrow> hi \<le> n \<Longrightarrow> i < n' \<Longrightarrow> i < 2 ^ 60 \<Longrightarrow>
    fill base lo hi f m (elem b' i) = m (elem b' i)"
  unfolding fill_def disjoint_tabs_def
  by (auto simp: in_tab_def idx_elem split: option.splits dest: spec [of _ "elem b' i"])


lemma unat_bitfield: "unat (bitfield lo k w) = unat w div 2 ^ lo mod 2 ^ k"
  by (simp add: bitfield_def unsigned_take_bit_eq unsigned_drop_bit_eq) (simp add: take_bit_eq_mod drop_bit_eq_div)

lemma elem_word: "b + 8 * w = elem b (unat w)"
  by (simp add: elem_def)

lemma page_of_indices:
  fixes g :: nat
  assumes "g < 2 ^ 32"
  shows "512 * (512 * (g div 2 ^ 30 mod 2 ^ 2) + g div 2 ^ 21 mod 2 ^ 9) + g div 2 ^ 12 mod 2 ^ 9 = g div 4096"
proof -
  have "g div 2 ^ 30 mod 2 ^ 2 = g div 2 ^ 30" using assms by (intro mod_less) (simp add: less_mult_imp_div_less)
  moreover have "g div 2 ^ 30 = g div 2 ^ 21 div 512" "g div 2 ^ 21 = g div 2 ^ 12 div 512"
    by (simp_all flip: div_mult2_eq)
  ultimately show ?thesis by (simp flip: mult_div_mod_eq)
qed

lemma ept_reads:
  fixes m :: wmem
  assumes "ept_base_ok b"
  defines "M \<equiv> ept_mem (ept_build b m)"
  shows "i < 4 \<Longrightarrow> M (elem b i) = table_entry (elem (elem b 512) (512 * i))"
    and "j < 2048 \<Longrightarrow> M (elem (elem b 512) j) = table_entry (elem (elem b 2560) (512 * j))"
    and "p < 0x100000 \<Longrightarrow> M (elem (elem b 2560) p) = page_entry (word_of_nat (4096 * p))"
proof -
  have d12: "disjoint_tabs b 4 (elem b 512) 2048" and d13: "disjoint_tabs b 4 (elem b 2560) 0x100000"
    by (auto intro!: disjoint_tabs_elem)
  have d32: "disjoint_tabs (elem b 2560) 0x100000 (elem b 512) 2048"
    using disjoint_tabs_elem [of 2048 2048 "0x100000" "elem b 512"]
    by (auto simp: elem_elem disjoint_tabs_def)
  show "i < 4 \<Longrightarrow> M (elem b i) = table_entry (elem (elem b 512) (512 * i))"
    by (simp add: M_def ept_roots [OF assms(1)] fill_at l2_tables_def LPAE_ENTRIES_def)
  show "j < 2048 \<Longrightarrow> M (elem (elem b 512) j) = table_entry (elem (elem b 2560) (512 * j))"
    by (simp add: M_def ept_roots [OF assms(1)] fill_skip [OF d12] fill_skip [OF d32] fill_at l3_tables_def
        LPAE_ENTRIES_def)
  show "p < 0x100000 \<Longrightarrow> M (elem (elem b 2560) p) = page_entry (word_of_nat (4096 * p))"
    by (simp add: M_def ept_roots [OF assms(1)] fill_skip [OF d13] fill_at pages_def del: of_nat_mult)
qed

lemma get_ept_entry_elem:
  "ept_base_ok b \<Longrightarrow> get_ept_entry (ept_build b m) gpa = elem (elem b 2560) (unat gpa div 4096)"
  by (simp add: get_ept_entry_def ept_roots elem_word drop_bit_eq_div unat_div_distrib)

lemma next_table:
  assumes "ept_base_ok b" "q < 8" "k < 2048"
  defines "t \<equiv> elem (elem b (512 * q)) (512 * k)"
  shows "out_addr (table_entry t) = t" "desc_table (table_entry t)"
proof -
  have "t = elem b (512 * (q + k))" by (simp add: t_def elem_elem distrib_left)
  then have u: "unat t = unat b + 4096 * (q + k)"
    using assms unat_elem [of b "512 * (q + k)"] by (simp add: ept_base_ok_def)
  then have "unat t < 2 ^ 48" using assms by (simp add: ept_base_ok_def)
  moreover have "unat t mod 4096 = 0"
    unfolding u mod_mult_self2 using assms(1) by (simp add: ept_base_ok_def)
  ultimately have "unat t mod 4096 = 0" "unat t < 2 ^ 48" by simp_all
  from out_addr_table [OF this] show "out_addr (table_entry t) = t" "desc_table (table_entry t)" .
qed

lemma stage2_walk_steps:
  assumes "m (elem b (unat (bitfield 30 2 ipa))) = e1" "desc_table e1"
    "m (elem (out_addr e1) (unat (bitfield 21 9 ipa))) = e2" "desc_table e2"
  shows "stage2_walk m b ipa = Some (elem (out_addr e2) (unat (bitfield 12 9 ipa)))"
  using assms by (simp add: stage2_walk_def elem_word)

lemma walk_tables:
  assumes ok: "ept_base_ok b" and gpa: "unat gpa < 2 ^ 32"
    and l1: "\<And>i. i < 4 \<Longrightarrow> M (elem b i) = table_entry (elem (elem b 512) (512 * i))"
    and l2: "\<And>j. j < 2048 \<Longrightarrow> M (elem (elem b 512) j) = table_entry (elem (elem b 2560) (512 * j))"
  shows "stage2_walk M b gpa = Some (elem (elem b 2560) (unat gpa div 4096))"
proof -
  let ?i1 = "unat gpa div 2 ^ 30 mod 2 ^ 2" and ?i2 = "unat gpa div 2 ^ 21 mod 2 ^ 9"
  let ?i3 = "unat gpa div 2 ^ 12 mod 2 ^ 9"
  have i: "?i1 < 4" "?i2 < 512" by simp_all
  then have i': "512 * ?i1 + ?i2 < 2048" by linarith
  let ?t2 = "elem (elem b 512) (512 * ?i1)"
  let ?t3 = "elem (elem b 2560) (512 * (512 * ?i1 + ?i2))"
  have o: "out_addr (table_entry ?t2) = ?t2" "desc_table (table_entry ?t2)"
      "out_addr (table_entry ?t3) = ?t3" "desc_table (table_entry ?t3)"
    using next_table [OF ok, of 1 ?i1] next_table [OF ok _ i', of 5] i(1) by simp_all
  have e2: "M (elem (out_addr (table_entry ?t2)) ?i2) = table_entry ?t3"
    unfolding o(1) elem_elem [of "elem b 512"] by (rule l2 [OF i'])
  have "stage2_walk M b gpa = Some (elem ?t3 ?i3)"
    using stage2_walk_steps [OF _ o(2) _ o(4), of M b gpa, unfolded unat_bitfield, OF l1 [OF i(1)] e2]
    by (simp only: o(3))
  moreover have "elem ?t3 ?i3 = elem (elem b 2560) (unat gpa div 4096)"
    using page_of_indices [OF gpa] by (simp only: elem_elem add.assoc)
  ultimately show ?thesis by simp
qed

lemma ept_walk:
  assumes "ept_base_ok b" "unat gpa < 2 ^ 32"
  shows "stage2_walk (ept_mem (ept_build b m)) (vttbr_el2 (ept_build b m)) gpa =
     Some (get_ept_entry (ept_build b m) gpa)"
  using walk_tables [OF assms ept_reads(1,2) [OF assms(1)]] assms(1)
  by (simp add: ept_roots get_ept_entry_elem)

lemma isInMemory_page:
  assumes "unat gpa < 2 ^ 32"
  shows "isInMemory (word_of_nat (4096 * (unat gpa div 4096))) = isInMemory gpa"
proof -
  have "unat (word_of_nat (4096 * (unat gpa div 4096)) :: u64) = 4096 * (unat gpa div 4096)"
    using assms by (simp add: unat_of_nat del: of_nat_mult)
  moreover have "0x40000000 \<le> 4096 * (x div 4096) \<longleftrightarrow> 0x40000000 \<le> x"
    "4096 * (x div 4096) < 0x80000000 \<longleftrightarrow> x < 0x80000000" for x :: nat
    using less_eq_div_iff_mult_less_eq [of 4096 262144 x] less_eq_div_iff_mult_less_eq [of 4096 524288 x]
    by (simp_all flip: not_le)
  ultimately show ?thesis
    by (simp add: isInMemory_def GUEST_RAM_START_def GUEST_RAM_END_def word_le_nat_alt word_less_nat_alt
        del: of_nat_mult)
qed

lemma page_aligned_bits:
  fixes k :: nat
  assumes "k < 0x100000"
  shows "unat (word_of_nat (4096 * k) :: u64) mod 4096 = 0" "unat (word_of_nat (4096 * k) :: u64) < 2 ^ 48"
    "n < 12 \<Longrightarrow> \<not> bit (word_of_nat (4096 * k) :: u64) n" "48 \<le> n \<Longrightarrow> \<not> bit (word_of_nat (4096 * k) :: u64) n"
proof -
  have u: "unat (word_of_nat (4096 * k) :: u64) = 4096 * k"
    using assms by (simp add: unat_of_nat del: of_nat_mult)
  show a: "unat (word_of_nat (4096 * k) :: u64) mod 4096 = 0" and b: "unat (word_of_nat (4096 * k) :: u64) < 2 ^ 48"
    unfolding u using assms by simp_all
  show "n < 12 \<Longrightarrow> \<not> bit (word_of_nat (4096 * k) :: u64) n" using bit_aligned [OF a] .
  show "48 \<le> n \<Longrightarrow> \<not> bit (word_of_nat (4096 * k) :: u64) n" using not_bit_small [OF b] .
qed

text \<open>Access rights of a page descriptor, and its memory attributes.\<close>

definition page_attrs :: "u64 \<Rightarrow> bool \<times> bool \<times> bool \<times> u64 \<times> u64" where
  "page_attrs e = (bit e 6, bit e 7, bit e 54, bitfield 2 4 e, bitfield 8 2 e)"

lemma page_attrs_entry:
  assumes "k < 0x100000"
  defines "g \<equiv> word_of_nat (4096 * k)"
  shows "page_attrs (page_entry g) = (True, True, \<not> isInMemory g, if isInMemory g then (0xF, 3) else (1, 0))"
    and "desc_table (page_entry g)" "bit (page_entry g) 10"
proof -
  note lo = page_aligned_bits(3) [OF assms(1), folded g_def] and hi = page_aligned_bits(4) [OF assms(1), folded g_def]
  have f: "(0xF :: u64) = mask 4" "(3 :: u64) = mask 2" by (simp_all add: mask_eq_exp_minus_1)
  have "bitfield 2 4 (page_entry g) = (if isInMemory g then mask 4 else 1)"
    using lo by (intro bit_word_eqI) (auto simp: bit_bitfield bit_page_entry bit_mask_iff bit_1_iff)
  moreover have "bitfield 8 2 (page_entry g) = (if isInMemory g then mask 2 else 0)"
    using lo by (intro bit_word_eqI) (auto simp: bit_bitfield bit_page_entry bit_mask_iff)
  ultimately show "page_attrs (page_entry g) = (True, True, \<not> isInMemory g, if isInMemory g then (0xF, 3) else (1, 0))"
    using lo hi unfolding f by (simp add: page_attrs_def bit_page_entry)
  show "desc_table (page_entry g)" "bit (page_entry g) 10"
    by (simp_all add: desc_table_def bit_page_entry)
qed

subsection \<open>Trapped pages\<close>

definition no_rw :: "u64 \<Rightarrow> u64" where
  "no_rw e = p2m_write 0 (p2m_read 0 e)"

lemma bit_no_rw: "bit (no_rw e) n \<longleftrightarrow> bit e n \<and> n \<noteq> 6 \<and> n \<noteq> 7"
  by (auto simp: no_rw_def p2m_defs bit_set_bitfield)

definition trap_tab :: "u64 \<Rightarrow> nat \<Rightarrow> nat \<Rightarrow> wmem \<Rightarrow> wmem" where
  "trap_tab base lo hi m = (\<lambda>a. if in_tab base lo hi a then no_rw (m a) else m a)"

lemma trap_page_eq:
  assumes "k < 0x100000" "gpa = word_of_nat (4096 * k)"
  shows "trap_page s gpa = s\<lparr>ept_mem := trap_tab (ept_L3_root s) k (Suc k) (ept_mem s)\<rparr>"
proof -
  have "unat (word_of_nat (4096 * k) :: u64) = 4096 * k"
    using assms(1) by (simp add: unat_of_nat del: of_nat_mult)
  then have "unat gpa div 4096 = k" by (simp add: assms(2) del: of_nat_mult)
  then have "get_ept_entry s gpa = elem (ept_L3_root s) k"
    by (simp add: get_ept_entry_def elem_word drop_bit_eq_div unat_div_distrib)
  moreover have "in_tab (ept_L3_root s) k (Suc k) a \<longleftrightarrow> a = elem (ept_L3_root s) k" for a
    using idx_Some_iff [of k "ept_L3_root s" a] assms(1) by (auto simp: in_tab_def split: option.splits)
  ultimately show ?thesis
    by (simp add: trap_page_def Let_def trap_tab_def no_rw_def fun_upd_def fun_eq_iff)
qed

lemma trap_tab_step: "i < hi \<Longrightarrow> trap_tab b (Suc i) hi (trap_tab b i (Suc i) m) = trap_tab b i hi m"
  by (rule ext) (auto simp: trap_tab_def in_tab_def split: option.splits)

lemma trap_tab_empty [simp]: "trap_tab b i i m = m"
  by (rule ext) (auto simp: trap_tab_def in_tab_def split: option.splits)

lemma trap_loop_eq:
  assumes "i \<le> 16" "q + 16 \<le> 0x100000"
  shows "trap_loop (word_of_nat (4096 * q)) i s =
     s\<lparr>ept_mem := trap_tab (ept_L3_root s) (q + i) (q + 16) (ept_mem s)\<rparr>"
  using assms(1)
proof (induction "16 - i" arbitrary: i s)
  case 0
  then have "i = 16" by simp
  then show ?case by (simp add: trap_loop.simps)
next
  case (Suc n)
  have i: "i < 16" and n: "n = 16 - (i + 1)" using Suc.hyps(2) by simp_all
  have "word_of_nat (4096 * q) + word_of_nat (0x1000 * i) = (word_of_nat (4096 * (q + i)) :: u64)" by simp
  then have "trap_loop (word_of_nat (4096 * q)) i s =
      trap_loop (word_of_nat (4096 * q)) (i + 1) (trap_page s (word_of_nat (4096 * (q + i))))"
    using i by (simp only: trap_loop.simps [of _ i] if_True)
  also have "trap_page s (word_of_nat (4096 * (q + i))) =
      s\<lparr>ept_mem := trap_tab (ept_L3_root s) (q + i) (Suc (q + i)) (ept_mem s)\<rparr>"
    using i assms(2) by (intro trap_page_eq) simp_all
  also have "trap_loop (word_of_nat (4096 * q)) (i + 1) \<dots> =
      s\<lparr>ept_mem := trap_tab (ept_L3_root s) (q + (i + 1)) (q + 16)
          (trap_tab (ept_L3_root s) (q + i) (Suc (q + i)) (ept_mem s))\<rparr>"
    using Suc.hyps(1) [OF n] i by simp
  finally show ?case using i trap_tab_step [of "q + i" "q + 16"] by simp
qed

text \<open>Trapping pages changes no descriptor above level 3, so the walk stays the same.\<close>

lemma trap_keeps:
  assumes "i < 2560" "hi \<le> 0x100000"
  shows "trap_tab (elem b 2560) lo hi m (elem b i) = m (elem b i)"
proof -
  have "\<not> in_tab (elem b 2560) lo hi (elem b i)"
    using disjoint_tabs_elem [of 2560 2560 "0x100000" b] assms in_tab_mono [of "elem b 2560" lo hi "elem b i" 0 "0x100000"]
    by (auto simp: disjoint_tabs_def in_tab_def idx_elem dest: spec [of _ "elem b i"])
  then show ?thesis by (simp add: trap_tab_def)
qed

lemma trap_tab_at:
  "p < 0x100000 \<Longrightarrow> trap_tab t lo hi m (elem t p) = (if lo \<le> p \<and> p < hi then no_rw (m (elem t p)) else m (elem t p))"
  by (simp add: trap_tab_def in_tab_def idx_elem)

lemma walk_kept:
  assumes "ept_base_ok b" "unat gpa < 2 ^ 32" "\<And>i. i < 2560 \<Longrightarrow> M (elem b i) = ept_mem (ept_build b m) (elem b i)"
  shows "stage2_walk M b gpa = Some (elem (elem b 2560) (unat gpa div 4096))"
proof (rule walk_tables [OF assms(1,2)])
  show "M (elem b i) = table_entry (elem (elem b 512) (512 * i))" if "i < 4" for i
    using assms(3) [of i] ept_reads(1) [OF assms(1) that] that by simp
  show "M (elem (elem b 512) j) = table_entry (elem (elem b 2560) (512 * j))" if "j < 2048" for j
    using assms(3) [of "512 + j"] ept_reads(2) [OF assms(1) that] that by (simp add: elem_elem)
qed

lemma gic_trap_state:
  fixes m :: wmem and s :: ept_t
  assumes "ept_base_ok b"
  defines "s \<equiv> ept_build b m"
  shows "trap_gicc (trap_gicd s) =
     s\<lparr>ept_mem := trap_tab (elem b 2560) 0x8010 0x8020 (trap_tab (elem b 2560) 0x8000 0x8010 (ept_mem s))\<rparr>"
  using trap_loop_eq [of 0 "0x8000" s] trap_loop_eq [of 0 "0x8010" "trap_gicd s"]
  by (simp add: s_def trap_gicd_def trap_gicc_def MMIO_AREA_GICD_def MMIO_AREA_GICC_def ept_roots [OF assms(1)])

lemma page_range: "q * 4096 < 2 ^ 64 \<Longrightarrow> q \<le> unat gpa div 4096 \<longleftrightarrow> word_of_nat (4096 * q) \<le> gpa" for gpa :: u64
  using less_eq_div_iff_mult_less_eq [of 4096 q "unat gpa"] by (simp add: word_le_nat_alt unat_of_nat mult.commute del: of_nat_mult)

subsection \<open>Data aborts\<close>

lemma data_abort_gicc:
  assumes "0x8010000 < info_gpa info" "info_gpa info \<le> 0x8020000"
  shows "data_abort_handler dev info ctx h =
      (let info = info\<lparr>info_gpa := info_gpa info + 0x30000\<rparr> in (info, handle_mmio dev info ctx h))"
proof -
  have "\<not> info_gpa info \<le> 0x8010000" using assms(1) by (simp only: not_le)
  then show ?thesis using assms by (simp add: data_abort_handler_def gic_regs order.strict_implies_order)
qed

lemma dabt_reg_30: "dabt_reg h = 30 \<longleftrightarrow> unat (dabt_reg h) = 30"
  by (simp add: word_unat_eq_iff)

text \<open>
  A trapped access to the processor interface, past its first register, is carried out on
  the virtual interface 0x30000 above it: a store writes the guest's register there, a load
  puts what is read there into the guest's register and changes no other register. Register
  number 31, the zero register, is the saved stack pointer here, and register 30 is skipped.
\<close>

theorem gicc_access_forwarded:
  assumes "wf_frame ctx" "0x8010000 < info_gpa info" "info_gpa info \<le> 0x8020000"
  shows "let r = unat (dabt_reg (info_hsr info)); a = info_gpa info + 0x30000 in
     case data_abort_handler dev info ctx h of (info', ctx', h') \<Rightarrow>
       (if dabt_write (info_hsr info) \<noteq> 0
        then ctx' = ctx \<and> h' = (if r = 30 then h else h @ [Wr64 a (frame_reg ctx r)])
        else h' = h @ [Rd a] \<and>
             (\<forall>k < 34. frame_reg ctx' k = (if k = r \<and> r \<noteq> 30 then dev h a else frame_reg ctx k)))"
proof -
  have r: "unat (dabt_reg (info_hsr info)) < 34" using dabt_reg_less [of "info_hsr info"] by simp
  show ?thesis using frame_reg_set [OF assms(1) r]
    by (simp add: data_abort_gicc [OF assms(2,3)] dabt_reg_30 handle_mmio_def Let_def read64_def write64_def)
qed

text \<open>
  The first register of the processor interface, its control register at
  \<open>0x8010000\<close>, is not forwarded: the inclusive upper bound of the distributor's range claims
  it, the access has no effect on the device, and the guest's registers stay unchanged.
\<close>

theorem gicc_ctlr_not_forwarded:
  assumes "info_gpa info = GICC_CTLR"
  shows "data_abort_handler dev info ctx h = (info, ctx, h)"
  using assms by (simp add: data_abort_handler_def intc_handler_def Let_def gic_regs GIC_FIRST_SPI_def
      GIC_NR_PRIVATE_IRQS_def SPI_ID_MAX_def)

text \<open>
  \<^verbatim>\<open>gva_to_ipa\<close> does not translate: its page mask is the single bit 12, so of the address
  the hardware reports only bit 12 is used and every other bit, offset and page number alike,
  comes from the virtual address.
\<close>

theorem gva_to_ipa_keeps_va:
  assumes "\<not> bit (at_s1e1r va) 0"
  shows "\<exists>p. gva_to_ipa at_s1e1r va = Some p \<and>
     (\<forall>n. bit p n \<longleftrightarrow> (if n = 12 then bit (at_s1e1r va) 12 else bit va n))"
proof -
  have pm: "bit PAGE_MASK n \<longleftrightarrow> n = 12" for n
    unfolding PAGE_MASK_def bit_push_bit_iff bit_1_iff by auto
  have am: "bit PADDR_MASK n \<longleftrightarrow> n < 40" for n
  proof -
    have p: "PADDR_MASK = mask 40" by (simp add: PADDR_MASK_def mask_eq_exp_minus_1)
    show ?thesis unfolding p bit_mask_iff by auto
  qed
  have "at_s1e1r va AND PAR_F = 0"
    using assms and_single_eq_0_iff [of 0 "at_s1e1r va"] by (simp add: PAR_F_def)
  then show ?thesis
    by (auto simp: gva_to_ipa_def gva_to_ipa_par_def Let_def bit_and_iff bit_or_iff bit_not_iff pm am
        dest: bit_imp_le_length)
qed

definition demo_gicc :: ept_violation_info_t where
  "demo_gicc = demo_info\<lparr>info_gpa := 0x801000c\<rparr>"

theorem gicc_access_forwarded_witness:
  "let r = unat (dabt_reg (info_hsr demo_gicc)); a = info_gpa demo_gicc + 0x30000 in
     case data_abort_handler (\<lambda>h a. 5) demo_gicc (demo_ctx 9) [] of (info', ctx', h') \<Rightarrow>
       (if dabt_write (info_hsr demo_gicc) \<noteq> 0
        then ctx' = demo_ctx 9 \<and> h' = (if r = 30 then [] else [] @ [Wr64 a (frame_reg (demo_ctx 9) r)])
        else h' = [] @ [Rd a] \<and>
             (\<forall>k < 34. frame_reg ctx' k = (if k = r \<and> r \<noteq> 30 then (\<lambda>h a. 5) [] a else frame_reg (demo_ctx 9) k)))"
  by (rule gicc_access_forwarded) (simp_all add: demo_gicc_def wf_frame_def demo_ctx_def)

theorem gicc_ctlr_not_forwarded_witness:
  "data_abort_handler (\<lambda>h a. 5) (demo_info\<lparr>info_gpa := GICC_CTLR\<rparr>) (demo_ctx 9) [] =
     (demo_info\<lparr>info_gpa := GICC_CTLR\<rparr>, demo_ctx 9, [])"
  by (rule gicc_ctlr_not_forwarded) simp

theorem gva_to_ipa_keeps_va_witness:
  "\<exists>p. gva_to_ipa (\<lambda>va. 0x40001000) 0xffff000000080123 = Some p \<and>
     (\<forall>n. bit p n \<longleftrightarrow> (if n = 12 then bit (0x40001000 :: u64) 12 else bit (0xffff000000080123 :: u64) n))"
  using gva_to_ipa_keeps_va [of "\<lambda>va. 0x40001000" "0xffff000000080123"] by simp


subsection \<open>The loops compute the tables\<close>

lemma l2_loop_builds:
  assumes "\<And>p. p < 2 ^ 32 \<Longrightarrow> \<exists>os. apply_ept line (elem r3 p) = Some os" "i1 < LPAE_L1_SIZE"
  shows "\<exists>ops'. l2_loop line t r3 i1 j g m ops = Some (fst (l2_build t r3 i1 j g m), snd (l2_build t r3 i1 j g m), ops')"
proof (induction "LPAE_ENTRIES - j" arbitrary: j g m ops)
  case 0
  then have "\<not> j < LPAE_ENTRIES" by simp
  then show ?case by (simp add: l2_loop.simps [of _ _ _ _ j] l2_build.simps [of _ _ _ j])
next
  case (Suc n)
  then have j: "j < LPAE_ENTRIES" "n = LPAE_ENTRIES - (j + 1)" by simp_all
  let ?p = "LPAE_ENTRIES * LPAE_ENTRIES * i1 + LPAE_ENTRIES * j"
  have "?p < 2 ^ 32" using j assms(2) by (simp add: lpae_sizes)
  from assms(1) [OF this] obtain os where os: "apply_ept line (elem r3 ?p) = Some os" by blast
  obtain g1 m1 where l3: "l3_loop (elem r3 ?p) 0 g (m(elem t j := table_entry (elem r3 ?p))) = (g1, m1)"
    by (cases "l3_loop (elem r3 ?p) 0 g (m(elem t j := table_entry (elem r3 ?p)))")
  have "l2_loop line t r3 i1 j g m ops = l2_loop line t r3 i1 (j + 1) g1 m1 (ops @ os)"
    "l2_build t r3 i1 j g m = l2_build t r3 i1 (j + 1) g1 m1"
    using j(1) os l3 by (simp_all add: l2_loop.simps [of _ _ _ _ j] l2_build.simps [of _ _ _ j] Let_def)
  then show ?case using Suc.hyps(1) [OF j(2), of g1 m1 "ops @ os"] by simp
qed

lemma l1_loop_builds:
  assumes "\<And>p. p < 2 ^ 32 \<Longrightarrow> \<exists>os. apply_ept line (elem r2 p) = Some os"
    and "\<And>p. p < 2 ^ 32 \<Longrightarrow> \<exists>os. apply_ept line (elem r3 p) = Some os"
  shows "\<exists>ops'. l1_loop line t r2 r3 i g m ops = Some (fst (l1_build t r2 r3 i g m), snd (l1_build t r2 r3 i g m), ops')"
proof (induction "LPAE_L1_SIZE - i" arbitrary: i g m ops)
  case 0
  then have "\<not> i < LPAE_L1_SIZE" by simp
  then show ?case by (simp add: l1_loop.simps [of _ _ _ _ i] l1_build.simps [of _ _ _ i])
next
  case (Suc n)
  then have i: "i < LPAE_L1_SIZE" "n = LPAE_L1_SIZE - (i + 1)" by simp_all
  let ?t2 = "elem r2 (LPAE_ENTRIES * i)"
  have "LPAE_ENTRIES * i < 2 ^ 32" using i by (simp add: lpae_sizes)
  from assms(1) [OF this] obtain os where os: "apply_ept line ?t2 = Some os" by blast
  let ?m = "m(elem t i := table_entry ?t2)"
  obtain g1 m1 where b: "l2_build ?t2 r3 i 0 g ?m = (g1, m1)" by (cases "l2_build ?t2 r3 i 0 g ?m")
  obtain ops1 where l2: "l2_loop line ?t2 r3 i 0 g ?m ops = Some (g1, m1, ops1)"
    using l2_loop_builds [OF assms(2) i(1), of ?t2 0 g ?m ops] b by auto
  have "l1_loop line t r2 r3 i g m ops = l1_loop line t r2 r3 (i + 1) g1 m1 (ops1 @ os)"
    "l1_build t r2 r3 i g m = l1_build t r2 r3 (i + 1) g1 m1"
    using i(1) os l2 b by (simp_all add: l1_loop.simps [of _ _ _ _ i] l1_build.simps [of _ _ _ i] Let_def)
  then show ?case using Suc.hyps(1) [OF i(2), of g1 m1 "ops1 @ os"] by simp
qed

text \<open>A line size as \<^verbatim>\<open>setup_cache\<close> may set it.\<close>

definition line_ok :: "u64 \<Rightarrow> bool" where
  "line_ok line \<longleftrightarrow> line \<noteq> 0 \<and> unat line \<le> 2 ^ 32"

lemma apply_tables:
  assumes "line_ok line" "ept_base_ok b" "p < 2 ^ 40"
  shows "\<exists>os. apply_ept line (elem b p) = Some os"
  using assms unat_elem [of b p] by (intro apply_ept_returns) (simp_all add: line_ok_def ept_base_ok_def)

lemma guest_ept_init_builds:
  assumes "line_ok line" "ept_base_ok b"
  shows "\<exists>ops. guest_ept_init line b m = Some ((ept_build b m)\<lparr>ept_ops := ops\<rparr>)"
proof -
  note root = ept_root_align [OF assms(2)]
  have r3: "elem (elem b 512) LPAE_L2_SIZE = elem b 2560" by (simp add: elem_elem lpae_sizes)
  have "\<exists>os. apply_ept line (elem (elem b q) p) = Some os" if "p < 2 ^ 32" "q \<le> 2560" for p q
    using that apply_tables [OF assms, of "q + p"] by (simp add: elem_elem)
  then obtain ops where l: "l1_loop line b (elem b 512) (elem b 2560) 0 0 m [] =
      Some (fst (l1_build b (elem b 512) (elem b 2560) 0 0 m), snd (l1_build b (elem b 512) (elem b 2560) 0 0 m), ops)"
    using l1_loop_builds [of line "elem b 512" "elem b 2560" b 0 0 m "[]"] by auto
  obtain os where os: "apply_ept line b = Some os" using apply_tables [OF assms, of 0] by (auto simp: elem_def)
  show ?thesis unfolding guest_ept_init_def ept_build_def Let_def root r3 l by (simp add: os split: prod.split)
qed

lemma guest_ept_init_stuck:
  assumes "ept_base_ok b"
  shows "guest_ept_init 0 b m = None"
proof -
  note root = ept_root_align [OF assms]
  have r3: "elem (elem b 512) LPAE_L2_SIZE = elem b 2560" by (simp add: elem_elem lpae_sizes)
  have "unat (elem b 2560) < 2 ^ 48" using assms unat_elem [of b 2560] by (simp add: ept_base_ok_def)
  then have a: "apply_ept 0 (elem b 2560) = None" by (rule apply_ept_stuck)
  have "elem (elem b 2560) 0 = elem b 2560" by (simp add: elem_def)
  then have "l2_loop 0 t (elem b 2560) 0 0 g m ops = None" for t g m ops
    using a by (simp add: l2_loop.simps [of _ _ _ _ 0] lpae_sizes split: prod.split)
  then have "l1_loop 0 b (elem b 512) (elem b 2560) 0 0 m [] = None"
    by (simp add: l1_loop.simps [of _ _ _ _ 0] lpae_sizes)
  then show ?thesis unfolding guest_ept_init_def Let_def root r3 by simp
qed

lemma no_access_traps:
  assumes "\<exists>os. apply_ept line (get_ept_entry s gpa) = Some os"
  shows "\<exists>ops'. no_access line s gpa = Some ((trap_page s gpa)\<lparr>ept_ops := ops'\<rparr>)"
  using assms by (auto simp: no_access_def trap_page_def Let_def)

lemma mmio_map_loop_traps:
  assumes "\<And>gpa. unat gpa < 2 ^ 33 \<Longrightarrow> \<exists>os. apply_ept line (ept_L3_root s + 8 * drop_bit 12 gpa) = Some os"
    and "unat area \<le> 2 ^ 32"
  shows "\<exists>ops'. mmio_map_loop line area i (s\<lparr>ept_ops := ops\<rparr>) = Some ((trap_loop area i s)\<lparr>ept_ops := ops'\<rparr>)"
  using assms(1)
proof (induction "16 - i" arbitrary: i s ops)
  case 0
  then have "\<not> i < 16" by simp
  then show ?case by (auto simp: mmio_map_loop.simps [of _ _ i] trap_loop.simps [of _ i])
next
  case (Suc n)
  then have i: "i < 16" "n = 16 - (i + 1)" by simp_all
  let ?g = "area + word_of_nat (0x1000 * i)" and ?s = "s\<lparr>ept_ops := ops\<rparr>"
  have "unat ?g < 2 ^ 33"
  proof -
    have "unat (word_of_nat (0x1000 * i) :: u64) \<le> 0x10000" using i(1) by (simp add: unat_of_nat del: of_nat_mult)
    then show ?thesis using assms(2) by (simp add: unat_plus_if_size word_size del: of_nat_mult)
  qed
  then have "\<exists>os. apply_ept line (get_ept_entry ?s ?g) = Some os" using Suc.prems [of ?g] by (simp add: get_ept_entry_def)
  from no_access_traps [OF this] obtain ops1 where "no_access line ?s ?g = Some ((trap_page ?s ?g)\<lparr>ept_ops := ops1\<rparr>)" by blast
  moreover have "(trap_page ?s ?g)\<lparr>ept_ops := ops1\<rparr> = (trap_page s ?g)\<lparr>ept_ops := ops1\<rparr>"
    by (simp add: trap_page_def get_ept_entry_def Let_def)
  ultimately have "mmio_map_loop line area i ?s = mmio_map_loop line area (i + 1) ((trap_page s ?g)\<lparr>ept_ops := ops1\<rparr>)"
    using i(1) by (simp add: mmio_map_loop.simps [of _ _ i] del: of_nat_mult)
  moreover have "trap_loop area i s = trap_loop area (i + 1) (trap_page s ?g)"
    using i(1) by (simp add: trap_loop.simps [of _ i])
  moreover have "ept_L3_root (trap_page s ?g) = ept_L3_root s" by (simp add: trap_page_def Let_def)
  ultimately show ?case using Suc.hyps(1) [OF i(2), of "trap_page s ?g" ops1] Suc.prems by simp
qed

text \<open>
  C24. For a cache line of at most \<open>2 ^ 32\<close> bytes \<^verbatim>\<open>guest_ept_init\<close> returns unless the size of the line
  is 0, and the tables it leaves translate every 32-bit guest address to itself: the
  architecture's walk from \<^verbatim>\<open>VTTBR_EL2\<close> ends at the very descriptor \<^verbatim>\<open>get_ept_entry\<close> returns,
  that descriptor is a valid, accessed page with the address of the page, readable and
  writable, and it is normal cacheable memory inside the guest's RAM and non-executable
  device memory outside.
\<close>

theorem ept_identity_map:
  assumes "ept_base_ok b" "unat gpa < 2 ^ 32" "unat line \<le> 2 ^ 32"
  shows "case guest_ept_init line b m of
     None \<Rightarrow> line = 0
   | Some s \<Rightarrow> line \<noteq> 0 \<and>
      (let e = ept_mem s (get_ept_entry s gpa) in
     stage2_walk (ept_mem s) (vttbr_el2 s) gpa = Some (get_ept_entry s gpa) \<and>
     desc_table e \<and> bit e 10 \<and> unat (out_addr e) = 4096 * (unat gpa div 4096) \<and>
     page_attrs e = (True, True, \<not> isInMemory gpa, if isInMemory gpa then (0xF, 3) else (1, 0)))"
proof (cases "line = 0")
  case True
  then show ?thesis using guest_ept_init_stuck [OF assms(1)] by simp
next
  case False
  let ?s = "ept_build b m" and ?p = "unat gpa div 4096"
  have p: "?p < 0x100000" using assms(2) by simp
  have e: "ept_mem ?s (get_ept_entry ?s gpa) = page_entry (word_of_nat (4096 * ?p))"
    using ept_reads(3) [OF assms(1) p] get_ept_entry_elem [OF assms(1)] by (simp only:)
  have "out_addr (page_entry (word_of_nat (4096 * ?p))) = word_of_nat (4096 * ?p)"
    using out_addr_page page_aligned_bits(1,2) [OF p] .
  then have o: "unat (out_addr (page_entry (word_of_nat (4096 * ?p)))) = 4096 * ?p"
    using p by (simp add: unat_of_nat del: of_nat_mult)
  have "line_ok line" using False assms(3) by (simp add: line_ok_def)
  from guest_ept_init_builds [OF this assms(1), of m] obtain ops where
    "guest_ept_init line b m = Some (?s\<lparr>ept_ops := ops\<rparr>)" by blast
  moreover have "get_ept_entry (?s\<lparr>ept_ops := ops\<rparr>) gpa = get_ept_entry ?s gpa" by (simp add: get_ept_entry_def)
  ultimately show ?thesis
    using False e o ept_walk [OF assms(1,2)] page_attrs_entry [OF p] isInMemory_page [OF assms(2)]
    by (simp add: Let_def del: of_nat_mult)
qed

theorem ept_identity_map_witness:
  "case guest_ept_init 64 0x40100000 (\<lambda>a. 0) of
     None \<Rightarrow> (64 :: u64) = 0
   | Some s \<Rightarrow> (64 :: u64) \<noteq> 0 \<and>
      (let e = ept_mem s (get_ept_entry s 0x70200123) in
     stage2_walk (ept_mem s) (vttbr_el2 s) 0x70200123 = Some (get_ept_entry s 0x70200123) \<and>
     desc_table e \<and> bit e 10 \<and> unat (out_addr e) = 4096 * (unat (0x70200123 :: u64) div 4096) \<and>
     page_attrs e = (True, True, \<not> isInMemory 0x70200123, if isInMemory 0x70200123 then (0xF, 3) else (1, 0)))"
  by (rule ept_identity_map) (simp_all add: ept_base_ok_def)


end
