(* ===== verification/Uart.thy ===== *)
theory Uart
  imports Gic
begin

text \<open>
  The serial port: the polled driver (\<^verbatim>\<open>io/uart_pl011_early.c\<close>), the interrupt-driven one
  with its two ring buffers (\<^verbatim>\<open>io/uart_pl011.c\<close>), and the selection between them
  (\<^verbatim>\<open>io/io.c\<close>). A loop that waits for the device need not end: it is a partial function,
  \<open>None\<close> when it never ends. A loop that waits for another context to move an index keeps the
  state unchanged until then; \<open>None\<close> stands for waiting.
\<close>

subsection \<open>Registers\<close>

definition UART0_BASE :: u64 where "UART0_BASE = 0x09000000"

definition UART0_DR :: u64 where "UART0_DR = UART0_BASE + 0x00"

definition UART0_FR :: u64 where "UART0_FR = UART0_BASE + 0x18"

definition UART0_IBRD :: u64 where "UART0_IBRD = UART0_BASE + 0x24"

definition UART0_FBRD :: u64 where "UART0_FBRD = UART0_BASE + 0x28"

definition UART0_LCRH :: u64 where "UART0_LCRH = UART0_BASE + 0x2C"

definition UART0_CR :: u64 where "UART0_CR = UART0_BASE + 0x30"

definition UART0_IMSC :: u64 where "UART0_IMSC = UART0_BASE + 0x38"

definition UART0_MIS :: u64 where "UART0_MIS = UART0_BASE + 0x40"

definition UART0_ICR :: u64 where "UART0_ICR = UART0_BASE + 0x44"

lemmas uart_regs = UART0_BASE_def UART0_DR_def UART0_FR_def UART0_IBRD_def UART0_FBRD_def UART0_LCRH_def
  UART0_CR_def UART0_IMSC_def UART0_MIS_def UART0_ICR_def

subsection \<open>Polled driver\<close>

definition uart_early_init :: "hist \<Rightarrow> hist" where
  "uart_early_init h =
     (let h = write32 0x0 UART0_CR h;
          uartclk = 24000000 :: u32;
          baudrate = 115200;
          ibrd = uartclk div (16 * baudrate);
          fbrd = (uartclk mod (16 * baudrate)) * 4 div baudrate;
          h = write32 ibrd UART0_IBRD h;
          h = write32 fbrd UART0_FBRD h;
          h = write32 (push_bit 5 1 OR push_bit 6 1) UART0_LCRH h
      in write32 (push_bit 0 1 OR push_bit 8 1 OR push_bit 9 1) UART0_CR h)"

partial_function (option) uart_early_putc :: "dev \<Rightarrow> u8 \<Rightarrow> hist \<Rightarrow> hist option" where
  "uart_early_putc dev c h =
     (let (fr, h) = read32 dev UART0_FR h in
      if fr AND push_bit 5 1 \<noteq> 0 then uart_early_putc dev c h
      else Some (write32 (ucast c) UART0_DR h))"

partial_function (option) uart_early_getc :: "dev \<Rightarrow> hist \<Rightarrow> (u8 \<times> hist) option" where
  "uart_early_getc dev h =
     (let (fr, h) = read32 dev UART0_FR h in
      if fr AND push_bit 4 1 \<noteq> 0 then uart_early_getc dev h
      else (let (d, h) = read32 dev UART0_DR h in Some (ucast d, h)))"

subsection \<open>Interrupt-driven driver\<close>

definition BUFFER_SIZE :: nat where "BUFFER_SIZE = 1024"

record uart =
  rx_buffer :: "u8 list"
  rx_read_idx :: nat
  rx_write_idx :: nat
  tx_buffer :: "u8 list"
  tx_read_idx :: nat
  tx_write_idx :: nat

definition uart_advance_init :: "hist \<Rightarrow> hist" where
  "uart_advance_init h =
     (let h = write32 0x0 UART0_CR h;
          uartclk = 24000000 :: u32;
          baudrate = 115200;
          ibrd = uartclk div (16 * baudrate);
          fbrd = (uartclk mod (16 * baudrate)) * 4 div baudrate;
          h = write32 ibrd UART0_IBRD h;
          h = write32 fbrd UART0_FBRD h;
          h = write32 (push_bit 5 1 OR push_bit 6 1) UART0_LCRH h;
          h = write32 0 UART0_IMSC h;
          h = write32 (push_bit 4 0b11) UART0_IMSC h
      in write32 (push_bit 0 1 OR push_bit 8 1 OR push_bit 9 1) UART0_CR h)"

definition uart_advance_getc :: "uart \<Rightarrow> (u8 \<times> uart) option" where
  "uart_advance_getc u =
     (if rx_read_idx u = rx_write_idx u then None
      else Some (rx_buffer u ! rx_read_idx u, u\<lparr>rx_read_idx := (rx_read_idx u + 1) mod BUFFER_SIZE\<rparr>))"

definition uart_advance_putc :: "dev \<Rightarrow> u8 \<Rightarrow> uart \<Rightarrow> hist \<Rightarrow> (uart \<times> hist) option" where
  "uart_advance_putc dev c u h =
     (let next_write_idx = (tx_write_idx u + 1) mod BUFFER_SIZE in
      if next_write_idx = tx_read_idx u then None
      else (let u = u\<lparr>tx_buffer := (tx_buffer u)[tx_write_idx u := c], tx_write_idx := next_write_idx\<rparr>;
                (imsc, h) = read32 dev UART0_IMSC h
            in Some (u, write32 (imsc OR 0x20) UART0_IMSC h)))"

partial_function (option) rx_loop :: "dev \<Rightarrow> uart \<Rightarrow> hist \<Rightarrow> (uart \<times> hist) option" where
  "rx_loop dev u h =
     (let (fr, h) = read32 dev UART0_FR h in
      if fr AND 0x10 = 0
      then (let (d, h) = read32 dev UART0_DR h;
                c = ucast d;
                next_write_idx = (rx_write_idx u + 1) mod BUFFER_SIZE;
                u = (if next_write_idx \<noteq> rx_read_idx u
                     then u\<lparr>rx_buffer := (rx_buffer u)[rx_write_idx u := c],
                            rx_write_idx := next_write_idx\<rparr>
                     else u)
            in rx_loop dev u h)
      else Some (u, h))"

partial_function (option) tx_loop :: "dev \<Rightarrow> uart \<Rightarrow> hist \<Rightarrow> (uart \<times> hist) option" where
  "tx_loop dev u h =
     (let (fr, h) = read32 dev UART0_FR h in
      if fr AND 0x20 = 0 \<and> tx_read_idx u \<noteq> tx_write_idx u
      then (let h = write32 (ucast (tx_buffer u ! tx_read_idx u)) UART0_DR h
            in tx_loop dev (u\<lparr>tx_read_idx := (tx_read_idx u + 1) mod BUFFER_SIZE\<rparr>) h)
      else Some (u, h))"

definition uart_rx_part :: "dev \<Rightarrow> uart \<Rightarrow> hist \<Rightarrow> (uart \<times> hist) option" where
  "uart_rx_part dev u h =
     (let (mis, h) = read32 dev UART0_MIS h in
      if mis AND 0x10 \<noteq> 0
      then do { (u, h) \<leftarrow> rx_loop dev u h; Some (u, write32 0x10 UART0_ICR h) }
      else Some (u, h))"

definition uart_tx_part :: "dev \<Rightarrow> uart \<Rightarrow> hist \<Rightarrow> (uart \<times> hist) option" where
  "uart_tx_part dev u h =
     (let (mis, h) = read32 dev UART0_MIS h in
      if mis AND 0x20 \<noteq> 0
      then do {
        (u, h) \<leftarrow> tx_loop dev u h;
        let h = (if tx_read_idx u = tx_write_idx u
                 then (let (imsc, h) = read32 dev UART0_IMSC h in write32 (imsc AND NOT 0x20) UART0_IMSC h)
                 else h);
        Some (u, write32 0x20 UART0_ICR h)
      }
      else Some (u, h))"

definition uart_interrupt_handler :: "dev \<Rightarrow> uart \<Rightarrow> hist \<Rightarrow> (uart \<times> hist) option" where
  "uart_interrupt_handler dev u h = do {
     (u, h) \<leftarrow> uart_rx_part dev u h;
     uart_tx_part dev u h
   }"

subsection \<open>Ring buffers are bounded queues\<close>

definition ring_len :: "nat \<Rightarrow> nat \<Rightarrow> nat" where
  "ring_len r w = (w + BUFFER_SIZE - r) mod BUFFER_SIZE"

definition ring :: "u8 list \<Rightarrow> nat \<Rightarrow> nat \<Rightarrow> u8 list" where
  "ring buf r w = map (\<lambda>i. buf ! ((r + i) mod BUFFER_SIZE)) [0..<ring_len r w]"

definition ring_ok :: "u8 list \<Rightarrow> nat \<Rightarrow> nat \<Rightarrow> bool" where
  "ring_ok buf r w \<longleftrightarrow> length buf = BUFFER_SIZE \<and> r < BUFFER_SIZE \<and> w < BUFFER_SIZE"

lemma ring_len_cases:
  "r < BUFFER_SIZE \<Longrightarrow> w < BUFFER_SIZE \<Longrightarrow> ring_len r w = (if r \<le> w then w - r else w + BUFFER_SIZE - r)"
proof -
  assume "r < BUFFER_SIZE" "w < BUFFER_SIZE"
  moreover have "w + BUFFER_SIZE - r = (w - r) + BUFFER_SIZE" if "r \<le> w" using that by simp
  ultimately show ?thesis by (auto simp only: ring_len_def mod_add_self2 split: if_splits) simp_all
qed

lemma ring_empty_iff: "ring_ok buf r w \<Longrightarrow> ring buf r w = [] \<longleftrightarrow> r = w"
  by (auto simp: ring_def ring_ok_def ring_len_cases)

lemma ring_full_iff:
  "ring_ok buf r w \<Longrightarrow> (w + 1) mod BUFFER_SIZE = r \<longleftrightarrow> length (ring buf r w) = BUFFER_SIZE - 1"
  by (auto simp: ring_def ring_ok_def ring_len_cases mod_Suc BUFFER_SIZE_def)

lemma ring_put:
  assumes "ring_ok buf r w" "(w + 1) mod BUFFER_SIZE \<noteq> r"
  shows "ring (buf[w := c]) r ((w + 1) mod BUFFER_SIZE) = ring buf r w @ [c]"
    and "ring_ok (buf[w := c]) r ((w + 1) mod BUFFER_SIZE)"
proof -
  have len: "ring_len r ((w + 1) mod BUFFER_SIZE) = Suc (ring_len r w)"
    using assms by (auto simp: ring_ok_def ring_len_cases mod_Suc BUFFER_SIZE_def)
  have at: "(r + ring_len r w) mod BUFFER_SIZE = w"
    using assms(1) by (auto simp: ring_ok_def ring_len_cases)
  have other: "(r + i) mod BUFFER_SIZE \<noteq> w" if "i < ring_len r w" for i
  proof (cases "r + i < BUFFER_SIZE")
    case True
    then show ?thesis using assms(1) that by (auto simp: ring_ok_def ring_len_cases split: if_splits)
  next
    case False
    then have "(r + i) mod BUFFER_SIZE = r + i - BUFFER_SIZE"
      using assms(1) that by (simp add: le_mod_geq ring_ok_def ring_len_cases split: if_splits)
    with False show ?thesis using assms(1) that by (auto simp: ring_ok_def ring_len_cases split: if_splits)
  qed
  have "w < length buf" using assms(1) by (simp add: ring_ok_def)
  then show "ring (buf[w := c]) r ((w + 1) mod BUFFER_SIZE) = ring buf r w @ [c]"
    unfolding ring_def len by (simp add: at) (metis other nth_list_update_neq atLeastLessThan_iff)
  show "ring_ok (buf[w := c]) r ((w + 1) mod BUFFER_SIZE)"
    using assms(1) by (simp add: ring_ok_def BUFFER_SIZE_def)
qed

lemma ring_get:
  assumes "ring_ok buf r w" "r \<noteq> w"
  shows "ring buf r w = buf ! r # ring buf ((r + 1) mod BUFFER_SIZE) w"
    and "ring_ok buf ((r + 1) mod BUFFER_SIZE) w"
proof -
  have len: "ring_len r w = Suc (ring_len ((r + 1) mod BUFFER_SIZE) w)"
    using assms by (auto simp: ring_ok_def ring_len_cases mod_Suc BUFFER_SIZE_def)
  have "r mod BUFFER_SIZE = r" using assms(1) by (simp add: ring_ok_def)
  then show "ring buf r w = buf ! r # ring buf ((r + 1) mod BUFFER_SIZE) w"
    unfolding ring_def len upt_conv_Cons [OF zero_less_Suc]
    by (simp add: map_Suc_upt [symmetric] mod_simps del: upt_Suc)
  show "ring_ok buf ((r + 1) mod BUFFER_SIZE) w"
    using assms(1) by (simp add: ring_ok_def BUFFER_SIZE_def)
qed

abbreviation rx_queue :: "uart \<Rightarrow> u8 list" where
  "rx_queue u \<equiv> ring (rx_buffer u) (rx_read_idx u) (rx_write_idx u)"

abbreviation tx_queue :: "uart \<Rightarrow> u8 list" where
  "tx_queue u \<equiv> ring (tx_buffer u) (tx_read_idx u) (tx_write_idx u)"

definition uart_ok :: "uart \<Rightarrow> bool" where
  "uart_ok u \<longleftrightarrow> ring_ok (rx_buffer u) (rx_read_idx u) (rx_write_idx u) \<and>
     ring_ok (tx_buffer u) (tx_read_idx u) (tx_write_idx u)"

text \<open>
  A device with characters \<open>cs\<close> waiting: the receive-empty flag is clear before each of them
  and set after the last, and the data register delivers them in order.
\<close>

primrec rx_source :: "dev \<Rightarrow> u8 list \<Rightarrow> hist \<Rightarrow> bool" where
  "rx_source dev [] h \<longleftrightarrow> bit (dev h UART0_FR) 4"
| "rx_source dev (c # cs) h \<longleftrightarrow>
     \<not> bit (dev h UART0_FR) 4 \<and> ucast (ucast (dev (h @ [Rd UART0_FR]) UART0_DR) :: u32) = c \<and>
     rx_source dev cs (h @ [Rd UART0_FR, Rd UART0_DR])"

lemma flag_clear: "(ucast w :: u32) AND 0x10 = 0 \<longleftrightarrow> \<not> bit w 4" "(ucast w :: u32) AND 0x20 = 0 \<longleftrightarrow> \<not> bit w 5"
    for w :: u64
  using and_single_eq_0_iff [of 4 "ucast w :: u32"] and_single_eq_0_iff [of 5 "ucast w :: u32"]
  by (simp_all add: bit_unsigned_iff)

lemma rx_loop_fifo:
  assumes "uart_ok u" "rx_source dev cs h"
  shows "\<exists>u' h'. rx_loop dev u h = Some (u', h') \<and> uart_ok u' \<and>
     rx_queue u' = rx_queue u @ take (BUFFER_SIZE - 1 - length (rx_queue u)) cs \<and>
     tx_queue u' = tx_queue u"
  using assms
proof (induction cs arbitrary: u h)
  case Nil
  then show ?case by (subst rx_loop.simps) (simp add: read32_def flag_clear Let_def)
next
  case (Cons c cs)
  let ?nx = "(rx_write_idx u + 1) mod BUFFER_SIZE"
  let ?h = "h @ [Rd UART0_FR, Rd UART0_DR]"
  let ?u = "if ?nx \<noteq> rx_read_idx u
            then u\<lparr>rx_buffer := (rx_buffer u)[rx_write_idx u := c], rx_write_idx := ?nx\<rparr> else u"
  have ok: "ring_ok (rx_buffer u) (rx_read_idx u) (rx_write_idx u)" using Cons.prems(1) by (simp add: uart_ok_def)
  have step: "rx_loop dev u h = rx_loop dev ?u ?h"
    using Cons.prems(2) by (subst rx_loop.simps) (simp add: read32_def flag_clear Let_def)
  have u: "uart_ok ?u" "tx_queue ?u = tx_queue u" using Cons.prems(1) ring_put(2) [OF ok] by (simp_all add: uart_ok_def)
  from Cons.IH [OF u(1), of ?h] Cons.prems(2) obtain u' h' where
    r: "rx_loop dev ?u ?h = Some (u', h')" "uart_ok u'"
      "rx_queue u' = rx_queue ?u @ take (BUFFER_SIZE - 1 - length (rx_queue ?u)) cs" "tx_queue u' = tx_queue ?u"
    by auto
  have "rx_queue ?u @ take (BUFFER_SIZE - 1 - length (rx_queue ?u)) cs =
      rx_queue u @ take (BUFFER_SIZE - 1 - length (rx_queue u)) (c # cs)"
  proof (cases "?nx = rx_read_idx u")
    case True
    then have "length (rx_queue u) = BUFFER_SIZE - 1" using ring_full_iff [OF ok] by simp
    with True show ?thesis by simp
  next
    case False
    then have "length (rx_queue u) \<noteq> BUFFER_SIZE - 1" using ring_full_iff [OF ok] by simp
    moreover have "length (rx_queue u) < BUFFER_SIZE" by (simp add: ring_def ring_len_def BUFFER_SIZE_def)
    ultimately have "BUFFER_SIZE - 1 - length (rx_queue u) = Suc (BUFFER_SIZE - 1 - Suc (length (rx_queue u)))"
      by simp
    with False show ?thesis using ring_put(1) [OF ok False] by simp
  qed
  with r u(2) show ?case unfolding step by metis
qed


text \<open>The values written to the data register.\<close>

fun sent_chars :: "hist \<Rightarrow> u32 list" where
  "sent_chars [] = []"
| "sent_chars (Wr32 a v # h) = (if a = UART0_DR then v # sent_chars h else sent_chars h)"
| "sent_chars (_ # h) = sent_chars h"

lemma sent_chars_append [simp]: "sent_chars (h @ h') = sent_chars h @ sent_chars h'"
  by (induction h rule: sent_chars.induct) auto

lemma tx_loop_fifo:
  assumes "uart_ok u"
  shows "\<exists>u' h' sent. tx_loop dev u h = Some (u', h') \<and> uart_ok u' \<and>
     tx_queue u = sent @ tx_queue u' \<and> sent_chars h' = sent_chars h @ map ucast sent \<and>
     rx_queue u' = rx_queue u"
  using assms
proof (induction "length (tx_queue u)" arbitrary: u h)
  case 0
  then have "tx_queue u = []" by (simp only: length_0_conv [symmetric])
  moreover from this have "tx_read_idx u = tx_write_idx u"
    using 0 ring_empty_iff by (auto simp: uart_ok_def)
  ultimately show ?case using 0 by (subst tx_loop.simps) (simp add: read32_def Let_def)
next
  case (Suc n)
  have ok: "ring_ok (tx_buffer u) (tx_read_idx u) (tx_write_idx u)" using Suc.prems by (simp add: uart_ok_def)
  have ne: "tx_read_idx u \<noteq> tx_write_idx u" using Suc.hyps(2) ring_empty_iff [OF ok] by auto
  let ?h = "h @ [Rd UART0_FR]"
  show ?case
  proof (cases "bit (dev h UART0_FR) 5")
    case True
    then have "tx_loop dev u h = Some (u, ?h)"
      by (subst tx_loop.simps) (simp add: read32_def flag_clear Let_def)
    then show ?thesis using Suc.prems by auto
  next
    case False
    let ?c = "tx_buffer u ! tx_read_idx u"
    let ?u = "u\<lparr>tx_read_idx := (tx_read_idx u + 1) mod BUFFER_SIZE\<rparr>"
    have step: "tx_loop dev u h = tx_loop dev ?u (?h @ [Wr32 UART0_DR (ucast ?c)])"
      using False ne by (subst tx_loop.simps) (simp add: read32_def write32_def flag_clear Let_def)
    have q: "tx_queue u = ?c # tx_queue ?u" "uart_ok ?u" "rx_queue ?u = rx_queue u"
      using ring_get [OF ok ne] Suc.prems by (simp_all add: uart_ok_def)
    then have "n = length (tx_queue ?u)" using Suc.hyps(2) by simp
    from Suc.hyps(1) [OF this q(2), of "?h @ [Wr32 UART0_DR (ucast ?c)]"] obtain u' h' sent where
      "tx_loop dev ?u (?h @ [Wr32 UART0_DR (ucast ?c)]) = Some (u', h')" "uart_ok u'"
      "tx_queue ?u = sent @ tx_queue u'" "sent_chars h' = sent_chars (?h @ [Wr32 UART0_DR (ucast ?c)]) @ map ucast sent"
      "rx_queue u' = rx_queue ?u" by blast
    with step q show ?thesis by (intro exI [of _ u'] exI [of _ h'] exI [of _ "?c # sent"]) simp
  qed
qed

lemma uart_tx_part_fifo:
  assumes "uart_ok u"
  shows "\<exists>u' h' sent. uart_tx_part dev u h = Some (u', h') \<and> uart_ok u' \<and>
     tx_queue u = sent @ tx_queue u' \<and> sent_chars h' = sent_chars h @ map ucast sent \<and>
     rx_queue u' = rx_queue u"
proof (cases "(ucast (dev h UART0_MIS) :: u32) AND 0x20 = 0")
  case True
  then show ?thesis using assms by (simp add: uart_tx_part_def read32_def Let_def)
next
  case False
  have regs: "UART0_IMSC \<noteq> UART0_DR" "UART0_ICR \<noteq> UART0_DR" by (simp_all add: uart_regs)
  from tx_loop_fifo [OF assms, of dev "h @ [Rd UART0_MIS]"] obtain u' h' sent where
    "tx_loop dev u (h @ [Rd UART0_MIS]) = Some (u', h')" "uart_ok u'"
    "tx_queue u = sent @ tx_queue u'" "sent_chars h' = sent_chars h @ map ucast sent" "rx_queue u' = rx_queue u"
    by auto
  with False regs show ?thesis
    by (auto simp: uart_tx_part_def read32_def write32_def Let_def)
qed

text \<open>Reading leaves the data register's writes alone.\<close>

lemma rx_loop_sent:
  assumes "rx_loop dev u h = Some (u', h')"
  shows "sent_chars h' = sent_chars h"
  by (rule rx_loop.raw_induct [where P = "\<lambda>dev u h r. sent_chars (snd r) = sent_chars h",
        OF _ assms, simplified])
     (auto simp: read32_def Let_def split: if_splits prod.splits)

text \<open>
  C30. The serial interrupt handler returns and moves characters in order and without loss up
  to the capacity of the ring: when the device has characters \<open>cs\<close> waiting, those that fit
  are appended to the receive queue and the others are discarded; the characters written to the
  data register are a prefix of the transmit queue, and the rest of it stays queued.
\<close>

theorem uart_interrupt_fifo:
  assumes "uart_ok u"
    and "if bit (dev h UART0_MIS) 4 then rx_source dev cs (h @ [Rd UART0_MIS]) else cs = []"
  shows "\<exists>u' h' sent. uart_interrupt_handler dev u h = Some (u', h') \<and> uart_ok u' \<and>
     rx_queue u' = rx_queue u @ take (BUFFER_SIZE - 1 - length (rx_queue u)) cs \<and>
     tx_queue u = sent @ tx_queue u' \<and> sent_chars h' = sent_chars h @ map ucast sent"
proof -
  have icr: "UART0_ICR \<noteq> UART0_DR" by (simp add: uart_regs)
  obtain u1 h1 where r: "uart_rx_part dev u h = Some (u1, h1)" "uart_ok u1"
    "rx_queue u1 = rx_queue u @ take (BUFFER_SIZE - 1 - length (rx_queue u)) cs"
    "tx_queue u1 = tx_queue u" "sent_chars h1 = sent_chars h"
  proof (cases "bit (dev h UART0_MIS) 4")
    case True
    with assms(2) have "rx_source dev cs (h @ [Rd UART0_MIS])" by simp
    from rx_loop_fifo [OF assms(1) this] obtain u' h' where
      l: "rx_loop dev u (h @ [Rd UART0_MIS]) = Some (u', h')" "uart_ok u'"
        "rx_queue u' = rx_queue u @ take (BUFFER_SIZE - 1 - length (rx_queue u)) cs" "tx_queue u' = tx_queue u"
      by blast
    with True rx_loop_sent [OF l(1)] icr show ?thesis
      by (intro that [of u' "h' @ [Wr32 UART0_ICR 0x10]"])
         (simp_all add: uart_rx_part_def read32_def write32_def flag_clear Let_def)
  next
    case False
    with assms show ?thesis
      by (intro that [of u "h @ [Rd UART0_MIS]"]) (simp_all add: uart_rx_part_def read32_def flag_clear Let_def)
  qed
  from uart_tx_part_fifo [OF r(2), of dev h1] obtain u2 h2 sent where
    "uart_tx_part dev u1 h1 = Some (u2, h2)" "uart_ok u2" "tx_queue u1 = sent @ tx_queue u2"
    "sent_chars h2 = sent_chars h1 @ map ucast sent" "rx_queue u2 = rx_queue u1" by blast
  with r show ?thesis
    by (intro exI [of _ u2] exI [of _ h2] exI [of _ sent]) (simp add: uart_interrupt_handler_def)
qed

text \<open>
  C31. \<^verbatim>\<open>uart_advance_putc\<close> waits exactly while 1023 characters are queued and otherwise appends
  its character to the transmit queue and unmasks the transmit interrupt;
  \<^verbatim>\<open>uart_advance_getc\<close> waits exactly while the receive queue is empty and otherwise removes its
  first character.
\<close>

theorem uart_queue_ops:
  assumes "uart_ok u"
  shows "(case uart_advance_putc dev c u h of
            None \<Rightarrow> length (tx_queue u) = 1023
          | Some (u', h') \<Rightarrow> length (tx_queue u) < 1023 \<and> uart_ok u' \<and> tx_queue u' = tx_queue u @ [c] \<and>
              rx_queue u' = rx_queue u \<and>
              h' = h @ [Rd UART0_IMSC, Wr32 UART0_IMSC (ucast (dev h UART0_IMSC) OR 0x20)]) \<and>
         (case uart_advance_getc u of
            None \<Rightarrow> rx_queue u = []
          | Some (c', u') \<Rightarrow> rx_queue u = c' # rx_queue u' \<and> uart_ok u' \<and> tx_queue u' = tx_queue u)"
proof (rule conjI)
  have tx: "ring_ok (tx_buffer u) (tx_read_idx u) (tx_write_idx u)"
    and rx: "ring_ok (rx_buffer u) (rx_read_idx u) (rx_write_idx u)"
    using assms by (simp_all add: uart_ok_def)
  have "length (tx_queue u) < 1024" by (simp add: ring_def ring_len_def BUFFER_SIZE_def)
  then show "case uart_advance_putc dev c u h of
            None \<Rightarrow> length (tx_queue u) = 1023
          | Some (u', h') \<Rightarrow> length (tx_queue u) < 1023 \<and> uart_ok u' \<and> tx_queue u' = tx_queue u @ [c] \<and>
              rx_queue u' = rx_queue u \<and>
              h' = h @ [Rd UART0_IMSC, Wr32 UART0_IMSC (ucast (dev h UART0_IMSC) OR 0x20)]"
    using ring_full_iff [OF tx] ring_put [OF tx] rx
    by (auto simp: uart_advance_putc_def uart_ok_def Let_def read32_def write32_def BUFFER_SIZE_def)
  show "case uart_advance_getc u of
            None \<Rightarrow> rx_queue u = []
          | Some (c', u') \<Rightarrow> rx_queue u = c' # rx_queue u' \<and> uart_ok u' \<and> tx_queue u' = tx_queue u"
    using ring_empty_iff [OF rx] ring_get [OF rx] tx
    by (auto simp: uart_advance_getc_def uart_ok_def)
qed

definition demo_uart :: uart where
  "demo_uart = \<lparr>rx_buffer = replicate 1024 0, rx_read_idx = 1023, rx_write_idx = 1023,
               tx_buffer = replicate 1024 65, tx_read_idx = 1022, tx_write_idx = 1\<rparr>"

definition demo_serial :: dev where
  "demo_serial h a =
     (if a = UART0_MIS then 0x30 else if a = UART0_FR then (if Rd UART0_DR \<in> set h then 0x10 else 0) else 66)"

lemma demo_uart_ok: "uart_ok demo_uart"
  by (simp add: uart_ok_def ring_ok_def demo_uart_def BUFFER_SIZE_def)

theorem uart_interrupt_fifo_witness:
  "\<exists>u' h' sent. uart_interrupt_handler demo_serial demo_uart [] = Some (u', h') \<and> uart_ok u' \<and>
     rx_queue u' = rx_queue demo_uart @ take (BUFFER_SIZE - 1 - length (rx_queue demo_uart)) [66] \<and>
     tx_queue demo_uart = sent @ tx_queue u' \<and> sent_chars h' = sent_chars [] @ map ucast sent"
  by (rule uart_interrupt_fifo [OF demo_uart_ok]) (simp add: demo_serial_def uart_regs)

theorem uart_queue_ops_witness:
  "(case uart_advance_putc demo_serial 67 demo_uart [] of
            None \<Rightarrow> length (tx_queue demo_uart) = 1023
          | Some (u', h') \<Rightarrow> length (tx_queue demo_uart) < 1023 \<and> uart_ok u' \<and> tx_queue u' = tx_queue demo_uart @ [67] \<and>
              rx_queue u' = rx_queue demo_uart \<and>
              h' = [] @ [Rd UART0_IMSC, Wr32 UART0_IMSC (ucast (demo_serial [] UART0_IMSC) OR 0x20)]) \<and>
         (case uart_advance_getc demo_uart of
            None \<Rightarrow> rx_queue demo_uart = []
          | Some (c', u') \<Rightarrow> rx_queue demo_uart = c' # rx_queue u' \<and> uart_ok u' \<and> tx_queue u' = tx_queue demo_uart)"
  by (rule uart_queue_ops [OF demo_uart_ok])


end
