(* ===== verification/Printf.thy ===== *)
theory Printf
  imports Kstring "HOL-Library.Signed_Division"
begin

text \<open>
  Formatted output (\<^verbatim>\<open>io/printf.c\<close>) on byte memory. A stream is the structure \<^verbatim>\<open>pstream_t\<close>:
  the address of the next byte, the room that is left and the number of characters added,
  written or not. The array \<^verbatim>\<open>buf\<close> local to \<^verbatim>\<open>print_int\<close> and \<^verbatim>\<open>print_unsigned\<close> is at an address
  \<open>stk\<close> that is an argument of the model, and the variable arguments are the list of their
  64-bit slots. \<open>None\<close> stands for a call that does not return or reads outside of the digit
  table or past the last argument.
\<close>

subsection \<open>Streams\<close>

definition BUFSZ :: u32 where "BUFSZ = 1024"

definition digits :: "u8 list" where
  "digits = [48, 49, 50, 51, 52, 53, 54, 55, 56, 57, 97, 98, 99, 100, 101, 102]"

record pstream_t =
  ps_buffer :: u64
  ps_remain :: u32
  ps_added :: u32

record strprops_t =
  pad :: u8
  npad :: u32
  alternate :: bool

definition addchar :: "u8 \<Rightarrow> pstream_t \<times> mem \<Rightarrow> pstream_t \<times> mem" where
  "addchar c = (\<lambda>(p, m).
     let (p, m) = (if ps_remain p \<noteq> 0
                   then (p\<lparr>ps_buffer := ps_buffer p + 1, ps_remain := ps_remain p - 1\<rparr>, m(ps_buffer p := c))
                   else (p, m))
     in (p\<lparr>ps_added := ps_added p + 1\<rparr>, m))"

function pad_left :: "u8 \<Rightarrow> u32 \<Rightarrow> pstream_t \<times> mem \<Rightarrow> u32 \<times> pstream_t \<times> mem" where
  "pad_left c n st = (if 0 < sint n then pad_left c (n - 1) (addchar c st) else (n, st))"
  by pat_completeness auto
termination
proof (relation "measure (\<lambda>(c, n, st). unat n)")
  fix n :: u32 assume "0 < sint n"
  then have "n \<noteq> 0" by auto
  then show "((c, n - 1, addchar c st), (c, n, st)) \<in> measure (\<lambda>(c, n, st). unat n)" for c st
    by (simp add: countdown_measure)
qed simp

function pad_right :: "u8 \<Rightarrow> u32 \<Rightarrow> pstream_t \<times> mem \<Rightarrow> pstream_t \<times> mem" where
  "pad_right c n st = (if sint n < 0 then pad_right c (n + 1) (addchar c st) else st)"
  by pat_completeness auto
termination
proof (relation "measure (\<lambda>(c, n, st). unat (- n))")
  fix n :: u32 assume "sint n < 0"
  then have "- n \<noteq> 0" by auto
  then have "unat (- n - 1) < unat (- n)" by (rule countdown_measure)
  then show "((c, n + 1, addchar c st), (c, n, st)) \<in> measure (\<lambda>(c, n, st). unat (- n))" for c st
    by simp
qed simp

declare pad_left.simps [simp del] pad_right.simps [simp del]

partial_function (option) put_loop :: "u64 \<Rightarrow> pstream_t \<times> mem \<Rightarrow> (pstream_t \<times> mem) option" where
  "put_loop s st = (if snd st s = 0 then Some st else put_loop (s + 1) (addchar (snd st s) st))"

definition print_str :: "u64 \<Rightarrow> strprops_t \<Rightarrow> pstream_t \<times> mem \<Rightarrow> (pstream_t \<times> mem) option" where
  "print_str s props st = do {
     let n = npad props;
     (n, st) \<leftarrow> (if 0 < sint n
                 then do { len \<leftarrow> strlen (snd st) s; Some (pad_left (pad props) (n - ucast len) st) }
                 else Some (n, st));
     st \<leftarrow> put_loop s st;
     if sint n < 0
     then do { len \<leftarrow> strlen (snd st) s; Some (pad_right 32 (n + ucast len) st) }
     else Some st
   }"

subsection \<open>Numbers\<close>

partial_function (option) int_digits :: "int \<Rightarrow> u64 \<Rightarrow> u64 \<Rightarrow> mem \<Rightarrow> (u64 \<times> mem) option" where
  "int_digits base n p m =
     (if n = 0 then Some (p, m)
      else if 0 \<le> sint n smod base \<and> sint n smod base < 16
      then int_digits base (word_of_int (sint n sdiv base)) (p + 1)
             (m(p := digits ! nat (sint n smod base)))
      else None)"

function reverse_loop :: "u64 \<Rightarrow> u64 \<Rightarrow> u64 \<Rightarrow> mem \<Rightarrow> mem" where
  "reverse_loop buf p i m =
     (if i < (p - buf) div 2
      then reverse_loop buf p (i + 1) (m(buf + i := m (p - 1 - i), p - 1 - i := m (buf + i)))
      else m)"
  by pat_completeness auto
termination
  by (relation "measure (\<lambda>(buf, p, i, m). unat ((p - buf) div 2) - unat i)") (auto simp: loop_measure)

declare reverse_loop.simps [simp del]

definition print_int ::
    "u64 \<Rightarrow> u64 \<Rightarrow> int \<Rightarrow> strprops_t \<Rightarrow> pstream_t \<times> mem \<Rightarrow> (pstream_t \<times> mem) option" where
  "print_int stk n base props st = do {
     let s = sint n < 0;
     let n = (if s then - n else n);
     (p, m) \<leftarrow> int_digits base n stk (snd st);
     let (p, m) = (if s then (p + 1, m(p := 45)) else (p, m));
     let (p, m) = (if p = stk then (p + 1, m(p := 48)) else (p, m));
     let m = reverse_loop stk p 0 m;
     let m = m(p := 0);
     print_str stk props (fst st, m)
   }"

partial_function (option) uint_digits :: "u32 \<Rightarrow> u32 \<Rightarrow> u64 \<Rightarrow> mem \<Rightarrow> (u64 \<times> mem) option" where
  "uint_digits base n p m =
     (if n = 0 then Some (p, m)
      else uint_digits base (n div base) (p + 1) (m(p := digits ! unat (n mod base))))"

definition print_unsigned ::
    "u64 \<Rightarrow> u32 \<Rightarrow> u32 \<Rightarrow> strprops_t \<Rightarrow> pstream_t \<times> mem \<Rightarrow> (pstream_t \<times> mem) option" where
  "print_unsigned stk n base props st = do {
     (p, m) \<leftarrow> uint_digits base n stk (snd st);
     let (p, props, st) =
       (if p = stk then (p + 1, props, (fst st, m(p := 48)))
        else if alternate props \<and> base = 16
        then (if pad props = 48
              then (let st = addchar 120 (addchar 48 (fst st, m));
                        props = (if 0 < sint (npad props)
                                 then props\<lparr>npad := (if 0 < sint (npad props - 2) then npad props - 2 else 0)\<rparr>
                                 else props)
                    in (p, props, st))
              else (p + 2, props, (fst st, m(p := 120, p + 1 := 48))))
        else (p, props, (fst st, m)));
     let m = reverse_loop stk p 0 (snd st);
     let m = m(p := 0);
     print_str stk props (fst st, m)
   }"

partial_function (option) num_end :: "mem \<Rightarrow> u64 \<Rightarrow> u64 \<Rightarrow> u64 option" where
  "num_end m f len = (if 48 \<le> m f \<and> m f \<le> 57 then num_end m (f + 1) (len + 1) else Some len)"

definition fmtnum :: "mem \<Rightarrow> u64 \<Rightarrow> (u32 \<times> u64) option" where
  "fmtnum m fmt = do {
     let (f, len) = (if m fmt = 45 then (fmt + 1, 1) else (fmt, 0));
     len \<leftarrow> num_end m f len;
     num \<leftarrow> atol m fmt;
     Some (ucast num, fmt + len)
   }"

subsection \<open>Formats\<close>

definition load32 :: "mem \<Rightarrow> u64 \<Rightarrow> u32" where
  "load32 m a =
     ucast (m a) OR push_bit 8 (ucast (m (a + 1))) OR push_bit 16 (ucast (m (a + 2))) OR
     push_bit 24 (ucast (m (a + 3)))"

text \<open>The next variable argument.\<close>

fun va_arg :: "u64 list \<Rightarrow> (u64 \<times> u64 list) option" where
  "va_arg [] = None"
| "va_arg (x # va) = Some (x, va)"

text \<open>The code from label \<^verbatim>\<open>morefmt\<close> on, for one conversion.\<close>

partial_function (option) morefmt ::
    "u64 \<Rightarrow> u64 \<Rightarrow> u64 list \<Rightarrow> u32 \<Rightarrow> strprops_t \<Rightarrow> pstream_t \<times> mem \<Rightarrow>
     (u64 \<times> u64 list \<times> pstream_t \<times> mem) option" where
  "morefmt stk fmt va nlong props st =
     (let f = snd st fmt; fmt = fmt + 1 in
      if f = 37 then Some (fmt, va, addchar 37 st)
      else if f = 99 then do {
        (x, va) \<leftarrow> va_arg va;
        Some (fmt, va, addchar (ucast x) st)
      }
      else if f = 0 then Some (fmt - 1, va, st)
      else if f = 35 then morefmt stk fmt va nlong (props\<lparr>alternate := True\<rparr>) st
      else if f = 48 \<or> (49 \<le> f \<and> f \<le> 57) \<or> f = 45 then do {
        let (fmt, props) = (if f = 48 then (fmt + 1, props\<lparr>pad := 48\<rparr>) else (fmt, props));
        (n, fmt) \<leftarrow> fmtnum (snd st) (fmt - 1);
        morefmt stk fmt va nlong (props\<lparr>npad := n\<rparr>) st
      }
      else if f = 108 then morefmt stk fmt va (nlong + 1) props st
      else if f = 116 \<or> f = 122 then morefmt stk fmt va 1 props st
      else if f = 100 then do {
        (x, va) \<leftarrow> va_arg va;
        st \<leftarrow> print_int stk (if nlong = 0 then scast (ucast x :: u32) else x) 10 props st;
        Some (fmt, va, st)
      }
      else if f = 117 then do {
        (x, va) \<leftarrow> va_arg va;
        st \<leftarrow> print_unsigned stk (ucast x) 10 props st;
        Some (fmt, va, st)
      }
      else if f = 120 then do {
        (x, va) \<leftarrow> va_arg va;
        st \<leftarrow> print_unsigned stk (ucast x) 16 props st;
        Some (fmt, va, st)
      }
      else if f = 112 then do {
        (x, va) \<leftarrow> va_arg va;
        st \<leftarrow> print_unsigned stk (load32 (snd st) x) 16 (props\<lparr>alternate := True\<rparr>) st;
        Some (fmt, va, st)
      }
      else if f = 115 then do {
        (x, va) \<leftarrow> va_arg va;
        st \<leftarrow> print_str x props st;
        Some (fmt, va, st)
      }
      else Some (fmt, va, addchar f st))"

partial_function (option) format_loop ::
    "u64 \<Rightarrow> u64 \<Rightarrow> u64 list \<Rightarrow> pstream_t \<times> mem \<Rightarrow> (pstream_t \<times> mem) option" where
  "format_loop stk fmt va st =
     (let f = snd st fmt in
      if f = 0 then Some st
      else if f \<noteq> 37 then format_loop stk (fmt + 1) va (addchar f st)
      else do {
        (fmt, va, st) \<leftarrow> morefmt stk (fmt + 1) va 0 \<lparr>pad = 32, npad = 0, alternate = False\<rparr> st;
        format_loop stk fmt va st
      })"

definition vsnprintf :: "u64 \<Rightarrow> u64 \<Rightarrow> u32 \<Rightarrow> u64 \<Rightarrow> u64 list \<Rightarrow> mem \<Rightarrow> (u32 \<times> mem) option" where
  "vsnprintf stk buf sz fmt va m = do {
     (s, m) \<leftarrow> format_loop stk fmt va (\<lparr>ps_buffer = buf, ps_remain = sz - 1, ps_added = 0\<rparr>, m);
     Some (ps_added s, m(ps_buffer s := 0))
   }"

definition snprintf :: "u64 \<Rightarrow> u64 \<Rightarrow> u32 \<Rightarrow> u64 \<Rightarrow> u64 list \<Rightarrow> mem \<Rightarrow> (u32 \<times> mem) option" where
  "snprintf stk buf sz fmt va m = vsnprintf stk buf sz fmt va m"

subsection \<open>Binary numbers\<close>

text \<open>
  \<^verbatim>\<open>binstr\<close>: the bits of a word from the top, a quote after every fourth. The loop counts up from
  0 and ends at 32.
\<close>

function binstr_loop :: "u32 \<Rightarrow> nat \<Rightarrow> u64 \<Rightarrow> mem \<Rightarrow> mem" where
  "binstr_loop x i c m =
     (let m = m(c := (if (ucast x :: u64) AND push_bit (32 - i - 1) 1 \<noteq> 0 then 49 else 48));
          c = c + 1; i = i + 1
      in if i \<ge> 32 then m(c := 0)
         else if i mod 4 = 0 then binstr_loop x i (c + 1) (m(c := 39))
         else binstr_loop x i c m)"
  by pat_completeness auto
termination
  by (relation "measure (\<lambda>(x, i, c, m). 32 - i)") auto

declare binstr_loop.simps [simp del]

definition binstr :: "u32 \<Rightarrow> u64 \<Rightarrow> mem \<Rightarrow> mem" where
  "binstr x out m = binstr_loop x 0 out m"

subsection \<open>What a stream has received\<close>

text \<open>
  \<open>outside buf n stk a\<close>: the address is neither one of the \<open>n + 1\<close> bytes of the buffer nor in
  the 26-byte local array. \<open>emitted\<close> relates a stream and memory to the characters added so far:
  the first \<open>n\<close> of them are in the buffer, all are counted, and memory is otherwise unchanged.
\<close>

definition outside :: "u64 \<Rightarrow> nat \<Rightarrow> u64 \<Rightarrow> u64 \<Rightarrow> bool" where
  "outside buf n stk a \<longleftrightarrow> n < unat (a - buf) \<and> 26 \<le> unat (a - stk)"

definition emitted :: "mem \<Rightarrow> u64 \<Rightarrow> nat \<Rightarrow> u64 \<Rightarrow> u8 list \<Rightarrow> pstream_t \<times> mem \<Rightarrow> bool" where
  "emitted m0 buf n stk out st \<longleftrightarrow>
     fst st = \<lparr>ps_buffer = buf + of_nat (min (length out) n), ps_remain = of_nat (n - length out),
               ps_added = of_nat (length out)\<rparr> \<and>
     (\<forall>i < min (length out) n. snd st (buf + of_nat i) = out ! i) \<and>
     (\<forall>a. outside buf n stk a \<longrightarrow> snd st a = m0 a)"

lemma addchar_full: "ps_remain (fst st) = 0 \<Longrightarrow> addchar c st = ((fst st)\<lparr>ps_added := ps_added (fst st) + 1\<rparr>, snd st)"
  by (cases st) (simp add: addchar_def)

lemma addchar_room:
  "ps_remain (fst st) \<noteq> 0 \<Longrightarrow> addchar c st =
     ((fst st)\<lparr>ps_buffer := ps_buffer (fst st) + 1, ps_remain := ps_remain (fst st) - 1,
               ps_added := ps_added (fst st) + 1\<rparr>, (snd st)(ps_buffer (fst st) := c))"
  by (cases st) (simp add: addchar_def)

lemma remain_0_iff: "n < 2 ^ 32 \<Longrightarrow> (of_nat (n - k) :: u32) = 0 \<longleftrightarrow> n \<le> k"
  by (simp add: word_unat_eq_iff unat_of_nat)

lemma emitted_addchar:
  assumes e: "emitted m0 buf n stk out st" and n: "n < 2 ^ 32"
  shows "emitted m0 buf n stk (out @ [c]) (addchar c st)"
proof (cases "length out < n")
  case False
  then show ?thesis using e n
    by (simp add: emitted_def addchar_full remain_0_iff nth_append)
next
  case True
  then have r: "ps_remain (fst st) \<noteq> 0" using e n remain_0_iff [OF n, of "length out"] by (simp add: emitted_def)
  have ne: "(of_nat i :: u64) \<noteq> of_nat (length out)" if "i < length out" for i
    using that True n by (simp add: of_nat_eq_64)
  have out: "a \<noteq> buf + of_nat (length out)" if "outside buf n stk a" for a
    using that True n by (auto simp: outside_def unat_of_nat)
  have d: "(of_nat (n - length out) :: u32) - 1 = of_nat (n - Suc (length out))"
    using True by (simp add: of_nat_diff)
  have m: "min (Suc (length out)) n = Suc (length out)" using True by simp
  show ?thesis using e True unfolding addchar_room [OF r] emitted_def
    by (auto simp: m d out ne nth_append less_Suc_eq add.assoc)
qed

text \<open>Adding characters changes memory in the buffer only, so a string clear of it stays.\<close>

definition kept :: "u64 \<Rightarrow> nat \<Rightarrow> mem \<Rightarrow> mem \<Rightarrow> bool" where
  "kept buf n m m' \<longleftrightarrow> (\<forall>a. n < unat (a - buf) \<longrightarrow> m' a = m a)"

definition clear :: "u64 \<Rightarrow> nat \<Rightarrow> u64 \<Rightarrow> nat \<Rightarrow> bool" where
  "clear buf n s k \<longleftrightarrow> (\<forall>i \<le> k. n < unat (s + of_nat i - buf))"

lemma clear_Suc: "clear buf n s (Suc k) \<Longrightarrow> clear buf n (s + 1) k"
  unfolding clear_def
proof (intro allI impI)
  fix i assume a: "\<forall>i \<le> Suc k. n < unat (s + of_nat i - buf)" "i \<le> k"
  then have "n < unat (s + of_nat (Suc i) - buf)" by blast
  then show "n < unat (s + 1 + of_nat i - buf)" by (simp add: add.assoc)
qed

lemma kept_refl [simp]: "kept buf n m m" by (simp add: kept_def)

lemma kept_trans: "kept buf n m m' \<Longrightarrow> kept buf n m' m'' \<Longrightarrow> kept buf n m m''"
  by (simp add: kept_def)

lemma kept_cstr: "kept buf n m m' \<Longrightarrow> clear buf n s (length xs) \<Longrightarrow> cstr m' s xs = cstr m s xs"
  by (rule cstr_cong) (simp add: kept_def clear_def)

lemma addchar_kept:
  assumes e: "emitted m0 buf n stk out st" and n: "n < 2 ^ 32"
  shows "kept buf n (snd st) (snd (addchar c st))"
proof (cases "length out < n")
  case False
  then show ?thesis using e n by (simp add: emitted_def addchar_full remain_0_iff)
next
  case True
  then have r: "ps_remain (fst st) \<noteq> 0" using e n remain_0_iff [OF n, of "length out"] by (simp add: emitted_def)
  have "a \<noteq> buf + of_nat (length out)" if "n < unat (a - buf)" for a
    using that True n by (auto simp: unat_of_nat)
  then show ?thesis using e True by (simp add: kept_def addchar_room [OF r] emitted_def)
qed

lemmas addchar_lemmas = emitted_addchar addchar_kept

lemma pad_left_emits:
  assumes "emitted m0 buf n stk out st" "n < 2 ^ 32"
  shows "\<exists>st'. pad_left c k st = (if 0 < sint k then 0 else k, st') \<and>
     emitted m0 buf n stk (out @ replicate (nat (sint k)) c) st' \<and> kept buf n (snd st) (snd st')"
  using assms
proof (induction c k st arbitrary: out rule: pad_left.induct)
  case (1 c k st)
  show ?case
  proof (cases "0 < sint k")
    case True
    then have k: "sint (k - 1) = sint k - 1"
      using sint_add_int [of k "- 1"] sint_32_bounds [of k] by simp
    have "nat (sint k) = Suc (nat (sint (k - 1)))" using True k by simp
    moreover have "k - 1 = 0" if "\<not> 0 < sint (k - 1)"
    proof -
      have "sint (k - 1) = 0" using that k True by linarith
      then show ?thesis by (simp only: signed_eq_0_iff)
    qed
    ultimately show ?thesis
      using "1.IH" [OF True emitted_addchar [OF "1.prems"] "1.prems"(2)] True
        kept_trans [OF addchar_kept [OF "1.prems"]]
      by (auto simp: pad_left.simps [of c k st])
  next
    case False
    then show ?thesis using "1.prems" by (auto simp: pad_left.simps [of c k st])
  qed
qed

lemma pad_right_emits:
  assumes "emitted m0 buf n stk out st" "n < 2 ^ 32"
  shows "emitted m0 buf n stk (out @ replicate (nat (- sint k)) c) (pad_right c k st)"
  using assms
proof (induction c k st arbitrary: out rule: pad_right.induct)
  case (1 c k st)
  show ?case
  proof (cases "sint k < 0")
    case True
    then have k: "sint (k + 1) = sint k + 1"
      using sint_add_int [of k "1"] sint_32_bounds [of k] by simp
    have "nat (- sint k) = Suc (nat (- sint (k + 1)))" using True k by simp
    then show ?thesis
      using "1.IH" [OF True emitted_addchar [OF "1.prems"] "1.prems"(2)] True
      by (simp add: pad_right.simps [of c k st])
  next
    case False
    then show ?thesis using "1.prems" by (simp add: pad_right.simps [of c k st])
  qed
qed

lemma put_loop_emits:
  assumes "emitted m0 buf n stk out st" "n < 2 ^ 32" "cstr (snd st) s xs" "clear buf n s (length xs)"
  shows "\<exists>st'. put_loop s st = Some st' \<and> emitted m0 buf n stk (out @ xs) st' \<and> kept buf n (snd st) (snd st')"
  using assms
proof (induction xs arbitrary: s st out)
  case Nil
  then show ?case by (simp add: put_loop.simps [of s])
next
  case (Cons x xs)
  have c: "clear buf n (s + 1) (length xs)" using Cons.prems(4) by (simp add: clear_Suc)
  have x: "snd st s = x" "x \<noteq> 0" "cstr (snd st) (s + 1) xs" using Cons.prems(3) by simp_all
  have "cstr (snd (addchar x st)) (s + 1) xs"
    using x(3) kept_cstr [OF addchar_kept [OF Cons.prems(1,2)] c] by simp
  from Cons.IH [OF emitted_addchar [OF Cons.prems(1,2)] Cons.prems(2) this c] x
    kept_trans [OF addchar_kept [OF Cons.prems(1,2)]]
  show ?case by (auto simp: put_loop.simps [of s])
qed

text \<open>A string in a field: blanks or zeros on the left, or blanks on the right.\<close>

definition padded :: "strprops_t \<Rightarrow> u8 list \<Rightarrow> u8 list" where
  "padded props xs =
     replicate (nat (sint (npad props)) - length xs) (pad props) @ xs @
     replicate (nat (- sint (npad props)) - length xs) 32"

lemma print_str_emits:
  assumes e: "emitted m0 buf n stk out st" and n: "n < 2 ^ 32"
    and s: "cstr (snd st) s xs" "clear buf n s (length xs)" and len: "length xs < 2 ^ 31"
  shows "\<exists>st'. print_str s props st = Some st' \<and> emitted m0 buf n stk (out @ padded props xs) st'"
proof -
  let ?k = "npad props"
  have uc: "(ucast (word_of_nat (length xs) :: u64) :: u32) = word_of_nat (length xs)"
    using len by (simp add: word_unat_eq_iff unsigned_ucast_eq unat_of_nat take_bit_eq_mod)
  show ?thesis
  proof (cases "0 < sint ?k")
    case True
    have k: "sint (?k - word_of_nat (length xs)) = sint ?k - int (length xs)"
      using sint_add_int [of ?k "- int (length xs)"] sint_32_bounds [of ?k] True len by simp
    obtain st1 where p: "pad_left (pad props) (?k - word_of_nat (length xs)) st =
        (if int (length xs) < sint ?k then 0 else ?k - word_of_nat (length xs), st1)"
      "emitted m0 buf n stk (out @ replicate (nat (sint ?k - int (length xs))) (pad props)) st1"
      "kept buf n (snd st) (snd st1)"
      using pad_left_emits [OF e n, of "pad props" "?k - word_of_nat (length xs)"] by (auto simp: k)
    have s1: "cstr (snd st1) s xs" using kept_cstr [OF p(3) s(2)] s(1) by simp
    obtain st2 where q: "put_loop s st1 = Some st2"
      "emitted m0 buf n stk ((out @ replicate (nat (sint ?k - int (length xs))) (pad props)) @ xs) st2"
      "kept buf n (snd st1) (snd st2)"
      using put_loop_emits [OF p(2) n s1 s(2)] by blast
    have s2: "cstr (snd st2) s xs" using kept_cstr [OF q(3) s(2)] s1 by simp
    have out: "padded props xs = replicate (nat (sint ?k - int (length xs))) (pad props) @ xs"
      using True by (simp add: padded_def nat_diff_distrib')
    show ?thesis
    proof (cases "int (length xs) < sint ?k")
      case lt: True
      then show ?thesis using True s(1) p(1) q(1,2) uc out by (simp add: print_str_def strlen_cstr)
    next
      case False
      have "pad_right 32 ?k st2 = st2" using True by (simp add: pad_right.simps [of 32])
      then show ?thesis using False True s(1) s2 p(1) q(1,2) uc out k
        by (cases st2) (simp add: print_str_def strlen_cstr Let_def)
    qed
  next
    case False
    obtain st2 where q: "put_loop s st = Some st2" "emitted m0 buf n stk (out @ xs) st2"
      "kept buf n (snd st) (snd st2)"
      using put_loop_emits [OF e n s] by blast
    have s2: "cstr (snd st2) s xs" using kept_cstr [OF q(3) s(2)] s(1) by simp
    show ?thesis
    proof (cases "sint ?k < 0")
      case True
      have k: "sint (?k + word_of_nat (length xs)) = sint ?k + int (length xs)"
        using sint_add_int [of ?k "int (length xs)"] sint_32_bounds [of ?k] True len by simp
      have out: "padded props xs = xs @ replicate (nat (- (sint ?k + int (length xs)))) 32"
        using True False by (simp add: padded_def nat_diff_distrib')
      show ?thesis using pad_right_emits [OF q(2) n, of "?k + word_of_nat (length xs)" 32]
        using True False q(1) s2 uc k out by (simp add: print_str_def strlen_cstr)
    next
      case nz: False
      then show ?thesis using False q(1,2) by (simp add: print_str_def padded_def)
    qed
  qed
qed


subsection \<open>Digits\<close>

definition put_bytes :: "mem \<Rightarrow> u64 \<Rightarrow> u8 list \<Rightarrow> mem" where
  "put_bytes m p xs = (\<lambda>a. if unat (a - p) < length xs then xs ! unat (a - p) else m a)"

text \<open>The digits of a number, least significant first.\<close>

fun lsd :: "nat \<Rightarrow> nat \<Rightarrow> u8 list" where
  "lsd b k = (if k = 0 \<or> b < 2 then [] else digits ! (k mod b) # lsd b (k div b))"

declare lsd.simps [simp del]

lemma lsd_0 [simp]: "lsd b 0 = []"
  by (simp add: lsd.simps)

lemma lsd_length: "k < b ^ j \<Longrightarrow> length (lsd b k) \<le> j"
proof (induction j arbitrary: k)
  case (Suc j)
  then have "k div b < b ^ j" by (simp add: less_mult_imp_div_less mult.commute)
  then show ?case using Suc.IH [of "k div b"] by (simp add: lsd.simps [of b k])
qed simp

lemma put_bytes_Nil [simp]: "put_bytes m p [] = m"
  by (simp add: put_bytes_def)

lemma put_bytes_Cons: "Suc (length xs) < 2 ^ 64 \<Longrightarrow> put_bytes (m(p := x)) (p + 1) xs = put_bytes m p (x # xs)"
proof (rule ext)
  fix a assume l: "Suc (length xs) < 2 ^ 64"
  show "put_bytes (m(p := x)) (p + 1) xs a = put_bytes m p (x # xs) a"
  proof (cases "a = p")
    case True
    have "unat (- 1 :: u64) = 2 ^ 64 - 1" by (simp add: unsigned_minus_1_eq_mask mask_eq_exp_minus_1)
    then show ?thesis using True l by (simp add: put_bytes_def)
  next
    case False
    then have "unat (a - p) = Suc (unat (a - p - 1))"
      using unat_minus_one [of "a - p"] by (simp add: unat_gt_0)
    then show ?thesis using False by (simp add: put_bytes_def diff_diff_eq)
  qed
qed

lemma smod_nat: "int k smod int b = int (k mod b)" and sdiv_nat: "int k sdiv int b = int (k div b)"
  by (simp_all add: signed_modulo_int_def signed_divide_int_def zdiv_int zmod_int sgn_if)

lemma sint_eq_uint_64: "unat w < 2 ^ 63 \<Longrightarrow> sint w = int (unat w)" for w :: u64
proof -
  assume "unat w < 2 ^ 63"
  then have "int (unat w) < int (2 ^ 63)" by (simp only: of_nat_less_iff)
  then have "uint w < 2 ^ 63" by simp
  moreover have "0 \<le> uint w" by simp
  ultimately have "signed_take_bit 63 (uint w) = uint w"
    by (intro signed_take_bit_int_eq_self) linarith+
  moreover have "sint w = signed_take_bit 63 (uint w)" by (simp only: sint_uint) simp
  ultimately show ?thesis by simp
qed

lemma int_digits_lsd:
  assumes "2 \<le> b" "b \<le> 16" "unat n < 2 ^ 63"
  shows "int_digits (int b) n p m = Some (p + of_nat (length (lsd b (unat n))), put_bytes m p (lsd b (unat n)))"
  using assms(3)
proof (induction "unat n" arbitrary: n p m rule: less_induct)
  case less
  show ?case
  proof (cases "n = 0")
    case True
    then show ?thesis by (simp add: int_digits.simps [of "int b" 0])
  next
    case False
    have s: "sint n = int (unat n)" using sint_eq_uint_64 less.prems by simp
    have m: "sint n smod int b = int (unat n mod b)" "sint n sdiv int b = int (unat n div b)"
      unfolding s by (simp_all only: sdiv_nat smod_nat)
    let ?n = "word_of_int (sint n sdiv int b) :: u64"
    have d: "unat n div b < unat n" using False assms(1) by (simp add: unat_gt_0)
    then have u: "unat ?n = unat n div b" using less.prems by (simp add: m unat_of_nat)
    have lt: "unat n mod b < 16" using assms(1,2) mod_less_divisor [of b "unat n"] by linarith
    have l: "length (lsd b (unat n)) \<le> 63"
      by (rule lsd_length) (use less.prems assms power_mono [of 2 b 63] in simp)
    have L: "lsd b (unat n) = digits ! (unat n mod b) # lsd b (unat n div b)"
      using False assms(1) by (simp add: lsd.simps [of b "unat n"] unat_gt_0)
    have "unat ?n < unat n" "unat ?n < 2 ^ 63" using d u less.prems by simp_all
    from less.hyps [OF this, of "p + 1" "m(p := digits ! (unat n mod b))"] show ?thesis
      using False lt l m u by (simp add: int_digits.simps [of "int b" n] L put_bytes_Cons add.assoc)
  qed
qed

lemma uint_digits_lsd:
  assumes "2 \<le> b" "b \<le> 16"
  shows "uint_digits (of_nat b) n p m = Some (p + of_nat (length (lsd b (unat n))), put_bytes m p (lsd b (unat n)))"
proof (induction "unat n" arbitrary: n p m rule: less_induct)
  case less
  have ub: "unat (of_nat b :: u32) = b" using assms by (simp add: unat_of_nat)
  show ?case
  proof (cases "n = 0")
    case True
    then show ?thesis by (simp add: uint_digits.simps [of _ 0])
  next
    case False
    have u: "unat (n div of_nat b) = unat n div b" "unat (n mod of_nat b) = unat n mod b"
      using ub by (simp_all add: unat_div_distrib unat_mod_distrib)
    have d: "unat n div b < unat n" using False assms(1) by (simp add: unat_gt_0)
    have "unat n < 2 ^ 32" using unsigned_less [of n] by simp
    also have "\<dots> \<le> b ^ 32" using assms by (intro power_mono) simp_all
    finally have l: "length (lsd b (unat n)) \<le> 32" by (rule lsd_length)
    have L: "lsd b (unat n) = digits ! (unat n mod b) # lsd b (unat n div b)"
      using False assms(1) by (simp add: lsd.simps [of b "unat n"] unat_gt_0)
    have "unat (n div of_nat b) < unat n" using d u by simp
    from less.hyps [OF this, of "p + 1" "m(p := digits ! (unat n mod b))"] show ?thesis
      using False l u by (simp add: uint_digits.simps [of _ n] L put_bytes_Cons add.assoc)
  qed
qed

text \<open>The exchange of the ends of an array, from its first element on, reverses it.\<close>

lemma put_bytes_at: "k < length xs \<Longrightarrow> k < 2 ^ 64 \<Longrightarrow> put_bytes m p xs (p + of_nat k) = xs ! k"
  by (simp add: put_bytes_def unat_of_nat)

lemma put_bytes_update:
  assumes "k < length xs" "k < 2 ^ 64"
  shows "(put_bytes m p xs)(p + of_nat k := v) = put_bytes m p (xs[k := v])"
proof (rule ext)
  fix a
  have u: "unat (of_nat k :: u64) = k" using assms(2) by (simp add: unat_of_nat)
  have "a = p + of_nat k \<longleftrightarrow> a - p = of_nat k" by (auto simp: algebra_simps)
  also have "\<dots> \<longleftrightarrow> unat (a - p) = k" using u by (metis word_unat_eq_iff)
  finally show "((put_bytes m p xs)(p + of_nat k := v)) a = put_bytes m p (xs[k := v]) a"
    using assms(1) by (auto simp: put_bytes_def nth_list_update)
qed

lemma two_ends: "2 \<le> length M \<Longrightarrow> \<exists>x B y. M = x # B @ [y]"
  by (cases M; cases "tl M" rule: rev_cases) auto

lemma reverse_loop_rev:
  assumes "length A = i" "length C = i" "length (A @ M @ C) < 2 ^ 62"
  shows "reverse_loop buf (buf + of_nat (length (A @ M @ C))) (of_nat i) (put_bytes m buf (A @ M @ C)) =
    put_bytes m buf (A @ rev M @ C)"
  using assms
proof (induction "length M" arbitrary: A M C i rule: less_induct)
  case less
  let ?L = "length (A @ M @ C)"
  have L: "?L = 2 * i + length M" using less.prems by simp
  have h: "unat ((buf + of_nat ?L - buf) div 2 :: u64) = ?L div 2"
    using less.prems(3) by (simp add: unat_div_distrib unat_of_nat del: length_append of_nat_add)
  have lt: "of_nat i < (buf + of_nat ?L - buf) div (2 :: u64) \<longleftrightarrow> 2 \<le> length M"
    unfolding word_less_nat_alt h using L less.prems(3) by (auto simp: unat_of_nat)
  show ?case
  proof (cases "2 \<le> length M")
    case False
    then have "rev M = M" by (cases M; cases "tl M") auto
    then show ?thesis using False lt by (simp add: reverse_loop.simps del: length_append of_nat_add)
  next
    case True
    then obtain x B y where M: "M = x # B @ [y]" using two_ends by blast
    let ?j = "i + Suc (length B)"
    have j: "buf + of_nat ?L - 1 - of_nat i = buf + of_nat ?j"
      using less.prems M by (simp add: algebra_simps)
    have ij: "i < ?L" "?j < ?L" "i < 2 ^ 64" "?j < 2 ^ 64" using L M less.prems(3) by simp_all
    have xs: "(A @ M @ C) ! i = x" "(A @ M @ C) ! ?j = y"
      "(A @ M @ C)[i := y, ?j := x] = (A @ [y]) @ B @ (x # C)"
      using less.prems(1) by (simp_all add: M nth_append list_update_append)
    have IH: "reverse_loop buf (buf + of_nat (length ((A @ [y]) @ B @ (x # C)))) (of_nat (Suc i))
        (put_bytes m buf ((A @ [y]) @ B @ (x # C))) = put_bytes m buf ((A @ [y]) @ rev B @ (x # C))"
      using less.prems M by (intro less.hyps) simp_all
    have len: "length ((A @ [y]) @ B @ (x # C)) = ?L" using M by simp
    define xs where "xs = A @ M @ C"
    have "reverse_loop buf (buf + of_nat ?L) (of_nat i) (put_bytes m buf xs) =
        reverse_loop buf (buf + of_nat ?L) (of_nat (Suc i)) ((put_bytes m buf xs)
          (buf + of_nat i := put_bytes m buf xs (buf + of_nat ?j), buf + of_nat ?j := put_bytes m buf xs (buf + of_nat i)))"
      using True lt unfolding reverse_loop.simps [of buf _ "of_nat i"] j
      by (simp only: of_nat_Suc add.commute [of 1] if_True)
    also have "\<dots> = reverse_loop buf (buf + of_nat ?L) (of_nat (Suc i)) (put_bytes m buf (xs[i := y, ?j := x]))"
      using ij xs(1,2) by (simp only: put_bytes_at put_bytes_update xs_def [symmetric] length_list_update)
    finally show ?thesis using IH xs(3) M unfolding xs_def len by simp
  qed
qed


subsection \<open>Printing a number\<close>

lemma put_bytes_snoc:
  assumes "length xs < 2 ^ 64"
  shows "(put_bytes m p xs)(p + of_nat (length xs) := v) = put_bytes m p (xs @ [v])"
proof (rule ext)
  fix a
  have u: "unat (of_nat (length xs) :: u64) = length xs" using assms by (simp add: unat_of_nat)
  have "a = p + of_nat (length xs) \<longleftrightarrow> a - p = of_nat (length xs)" by (auto simp: algebra_simps)
  also have "\<dots> \<longleftrightarrow> unat (a - p) = length xs" using u by (metis word_unat_eq_iff)
  finally show "((put_bytes m p xs)(p + of_nat (length xs) := v)) a = put_bytes m p (xs @ [v]) a"
    by (auto simp: put_bytes_def nth_append)
qed

lemma cstr_put_bytes:
  assumes "0 \<notin> set xs" "length xs < 2 ^ 63"
  shows "cstr (put_bytes m p (xs @ [0])) p xs"
proof -
  have "cstr (put_bytes m p (xs @ [0])) p (xs @ [])"
    unfolding cstr_append using assms by (auto simp: put_bytes_at nth_append) (metis nth_mem)
  then show ?thesis by simp
qed

lemma emitted_local:
  assumes e: "emitted m0 buf n stk out st" and c: "clear buf n stk 25" and n: "n < 2 ^ 32"
    and m: "\<And>a. 26 \<le> unat (a - stk) \<Longrightarrow> m a = snd st a"
  shows "emitted m0 buf n stk out (fst st, m)"
proof -
  have "m (buf + of_nat i) = snd st (buf + of_nat i)" if "i < n" for i
  proof (rule m, rule ccontr)
    assume a: "\<not> 26 \<le> unat (buf + of_nat i - stk)"
    then have "n < unat (stk + of_nat (unat (buf + of_nat i - stk)) - buf)"
      using c [unfolded clear_def, rule_format, of "unat (buf + of_nat i - stk)"] by linarith
    then have "n < unat (of_nat i :: u64)" by simp
    then show False using that n by (simp add: unat_of_nat)
  qed
  then show ?thesis using e m by (auto simp: emitted_def outside_def)
qed

lemma print_local:
  assumes e: "emitted m0 buf n stk out (p, m)" and c: "clear buf n stk 25" and n: "n < 2 ^ 32"
    and E: "length E \<le> 25" "0 \<notin> set E"
  shows "\<exists>st'. print_str stk props (p, (reverse_loop stk (stk + of_nat (length E)) 0 (put_bytes m stk E))
             (stk + of_nat (length E) := 0)) = Some st' \<and>
    emitted m0 buf n stk (out @ padded props (rev E)) st'"
proof -
  let ?m = "put_bytes m stk (rev E @ [0])"
  have "reverse_loop stk (stk + of_nat (length E)) 0 (put_bytes m stk E) = put_bytes m stk (rev E)"
    using reverse_loop_rev [of "[]" 0 "[]" E] E by simp
  then have eq: "(reverse_loop stk (stk + of_nat (length E)) 0 (put_bytes m stk E))(stk + of_nat (length E) := 0) = ?m"
    using put_bytes_snoc [of "rev E"] E by simp
  have "emitted m0 buf n stk out (fst (p, m), ?m)"
    using E(1) by (intro emitted_local [OF e c n]) (simp add: put_bytes_def)
  moreover have "cstr ?m stk (rev E)" using E by (intro cstr_put_bytes) simp_all
  moreover have "clear buf n stk (length (rev E))" using c E(1) by (simp add: clear_def)
  ultimately show ?thesis unfolding eq using n E(1) by (intro print_str_emits) simp_all
qed

text \<open>What is printed: the digits, most significant first, and a sign.\<close>

definition num_text :: "nat \<Rightarrow> nat \<Rightarrow> u8 list" where
  "num_text b k = (if k = 0 then [48] else rev (lsd b k))"

definition int_text :: "int \<Rightarrow> u8 list" where
  "int_text x = (if x < 0 then 45 # num_text 10 (nat (- x)) else num_text 10 (nat x))"

lemma lsd_nonzero: "b \<le> 16 \<Longrightarrow> 0 \<notin> set (lsd b k)"
proof (induction b k rule: lsd.induct)
  case (1 b k)
  have "digits ! j \<noteq> 0" if "j < 16" for j
  proof -
    have "digits ! j \<in> set digits" using that by (intro nth_mem) (simp add: digits_def)
    then show ?thesis by (auto simp: digits_def)
  qed
  moreover have "k mod b < 16" if "\<not> b < 2" using that "1.prems" mod_less_divisor [of b k] by linarith
  ultimately have "digits ! (k mod b) \<noteq> 0" if "\<not> b < 2" using that by blast
  then show ?case using 1 by (auto simp: lsd.simps [of b k])
qed

lemma lsd_Nil_iff: "2 \<le> b \<Longrightarrow> lsd b k = [] \<longleftrightarrow> k = 0"
  by (simp add: lsd.simps [of b k])

lemma offset_nonzero: "0 < j \<Longrightarrow> j < 2 ^ 64 \<Longrightarrow> (of_nat j :: u64) \<noteq> 0"
  using of_nat_eq_64 [of j 0] by simp

lemma print_int_emits:
  assumes e: "emitted m0 buf n stk out st" and c: "clear buf n stk 25" and n: "n < 2 ^ 32"
    and x: "- (2 ^ 63) < sint x"
  shows "\<exists>st'. print_int stk x 10 props st = Some st' \<and>
    emitted m0 buf n stk (out @ padded props (int_text (sint x))) st'"
proof -
  let ?n = "if sint x < 0 then - x else x"
  define k where "k = nat \<bar>sint x\<bar>"
  have sx: "sint x < 2 ^ 63" using sint_lt [of x] by simp
  have nk: "?n = word_of_nat k"
  proof (cases "sint x < 0")
    case True
    then have "- x = word_of_int (- sint x)" by simp
    then show ?thesis using True by (simp add: k_def)
  next
    case False
    then have "x = word_of_int (int k)" by (simp add: k_def)
    then show ?thesis using False by simp
  qed
  have k63: "k < 2 ^ 63" using x sx by (simp add: k_def)
  have k: "unat ?n = k" "k < 2 ^ 63" unfolding nk using k63 by (simp_all add: unat_of_nat)
  define E where "E = (if k = 0 then [48] else lsd 10 k) @ (if sint x < 0 then [45] else [])"
  have d: "int_digits 10 ?n stk (snd st) = Some (stk + of_nat (length (lsd 10 k)), put_bytes (snd st) stk (lsd 10 k))"
    using int_digits_lsd [of 10 ?n stk "snd st"] k by simp
  have l: "length (lsd 10 k) \<le> 19" using k(2) by (intro lsd_length) simp
  have E: "length E \<le> 25" "0 \<notin> set E" using l lsd_nonzero [of 10 k] by (auto simp: E_def)
  have "print_int stk x 10 props st =
     print_str stk props (fst st, (reverse_loop stk (stk + of_nat (length E)) 0 (put_bytes (snd st) stk E))
             (stk + of_nat (length E) := 0))"
  proof (cases "k = 0")
    case True
    then have "sint x = 0" by (simp add: k_def)
    then show ?thesis using True d put_bytes_snoc [of "[]" "snd st" stk 48] by (simp add: print_int_def E_def)
  next
    case False
    then have "length (lsd 10 k) \<noteq> 0" by (simp add: lsd_Nil_iff)
    then have ne: "(of_nat (length (lsd 10 k)) :: u64) \<noteq> 0" "(of_nat (length (lsd 10 k)) :: u64) + 1 \<noteq> 0"
      using l offset_nonzero [of "length (lsd 10 k)"] offset_nonzero [of "Suc (length (lsd 10 k))"]
      by (simp_all add: add.commute [of 1])
    show ?thesis using False d ne put_bytes_snoc [of "lsd 10 k" "snd st" stk 45] l
      by (cases "sint x < 0") (simp_all add: print_int_def E_def add.assoc add.commute [of 1])
  qed
  moreover have "rev E = int_text (sint x)"
    by (auto simp: E_def int_text_def num_text_def k_def)
  ultimately show ?thesis using print_local [of m0 buf n stk out "fst st" "snd st" E props] e c n E by simp
qed


lemma put_bytes_same:
  assumes "\<And>i. i < length D \<Longrightarrow> m (p + of_nat i) = D ! i"
  shows "put_bytes m p D = m"
proof
  show "put_bytes m p D a = m a" for a using assms [of "unat (a - p)"] by (simp add: put_bytes_def)
qed

lemma emitted_put_bytes:
  assumes "emitted m0 buf n stk out st" "clear buf n stk 25" "n < 2 ^ 32" "length D \<le> 26"
  shows "emitted m0 buf n stk out (fst st, put_bytes (snd st) stk D)"
  using assms(4) by (intro emitted_local [OF assms(1-3)]) (simp add: put_bytes_def)

lemma addchar_put_bytes:
  assumes e: "emitted m0 buf n stk out (p, put_bytes m stk D)" and c: "clear buf n stk 25" and n: "n < 2 ^ 32"
    and D: "length D \<le> 26"
  shows "\<exists>p' m'. addchar x (p, put_bytes m stk D) = (p', put_bytes m' stk D) \<and>
    emitted m0 buf n stk (out @ [x]) (p', put_bytes m' stk D)"
proof -
  obtain p' m' where a: "addchar x (p, put_bytes m stk D) = (p', m')" by fastforce
  have "m' (stk + of_nat i) = D ! i" if "i < length D" for i
  proof -
    have "n < unat (stk + of_nat i - buf)" using c that D by (simp add: clear_def)
    then have "m' (stk + of_nat i) = put_bytes m stk D (stk + of_nat i)"
      using addchar_kept [OF e n, of x] a by (simp add: kept_def)
    then show ?thesis using that D by (simp add: put_bytes_at)
  qed
  then have "put_bytes m' stk D = m'" by (rule put_bytes_same)
  then show ?thesis using a emitted_addchar [OF e n, of x] by (intro exI [of _ p'] exI [of _ m']) simp
qed

definition drop_2 :: "strprops_t \<Rightarrow> strprops_t" where
  "drop_2 props = (if 0 < sint (npad props)
     then props\<lparr>npad := (if 0 < sint (npad props - 2) then npad props - 2 else 0)\<rparr> else props)"

definition uns_text :: "nat \<Rightarrow> strprops_t \<Rightarrow> nat \<Rightarrow> u8 list" where
  "uns_text b props k =
     (if k \<noteq> 0 \<and> alternate props \<and> b = 16
      then if pad props = 48 then [48, 120] @ padded (drop_2 props) (num_text 16 k)
           else padded props (48 # 120 # num_text 16 k)
      else padded props (num_text b k))"

lemma print_unsigned_emits:
  assumes e: "emitted m0 buf n stk out st" and c: "clear buf n stk 25" and n: "n < 2 ^ 32"
    and b: "b = 10 \<or> b = 16"
  shows "\<exists>st'. print_unsigned stk x (of_nat b) props st = Some st' \<and>
    emitted m0 buf n stk (out @ uns_text b props (unat x)) st'"
proof -
  define D where "D = lsd b (unat x)"
  have d: "uint_digits (of_nat b) x stk (snd st) = Some (stk + of_nat (length D), put_bytes (snd st) stk D)"
    using uint_digits_lsd [of b x stk "snd st"] b by (auto simp: D_def)
  have ux: "unat x < 2 ^ 32" using unsigned_less [of x] by simp
  have l: "length D \<le> 10" using b ux by (auto simp: D_def intro!: lsd_length)
  have nz: "0 \<notin> set D" using b lsd_nonzero [of b "unat x"] by (auto simp: D_def)
  have b16: "(of_nat b :: u32) = 16 \<longleftrightarrow> b = 16" using b by auto
  have u0: "unat x = 0 \<longleftrightarrow> x = 0" using unat_gt_0 [of x] by auto
  have eD: "emitted m0 buf n stk out (fst st, snd st)" using e by simp
  have es: "emitted m0 buf n stk out (fst st, put_bytes (snd st) stk D)"
    using emitted_put_bytes [OF e c n] l by simp
  consider (zero) "x = 0" | (hex0) "x \<noteq> 0" "alternate props \<and> b = 16" "pad props = 48"
    | (hex) "x \<noteq> 0" "alternate props \<and> b = 16" "pad props \<noteq> 48" | (plain) "x \<noteq> 0" "\<not> (alternate props \<and> b = 16)" by blast
  then show ?thesis
  proof cases
    case zero
    then have "D = []" by (simp add: D_def)
    then show ?thesis using zero d print_local [OF eD c n, of "[48]" props] put_bytes_snoc [of "[]" "snd st" stk 48]
      by (simp add: print_unsigned_def uns_text_def num_text_def)
  next
    case plain
    then have D: "D \<noteq> []" using b u0 by (auto simp: D_def lsd_Nil_iff)
    then have ne: "(of_nat (length D) :: u64) \<noteq> 0" using l by (intro offset_nonzero) simp_all
    have "uns_text b props (unat x) = padded props (rev D)"
      using plain by (auto simp: uns_text_def num_text_def D_def u0)
    then show ?thesis using plain d ne b16 print_local [OF eD c n, of D props] l nz
      by (auto simp: print_unsigned_def)
  next
    case hex
    then have D: "D \<noteq> []" using b u0 by (auto simp: D_def lsd_Nil_iff)
    then have ne: "(of_nat (length D) :: u64) \<noteq> 0" using l by (intro offset_nonzero) simp_all
    have "uns_text b props (unat x) = padded props (rev (D @ [120, 48]))"
      using hex by (auto simp: uns_text_def num_text_def D_def u0)
    moreover have "(put_bytes (snd st) stk D)(stk + of_nat (length D) := 120, stk + of_nat (length D) + 1 := 48) =
        put_bytes (snd st) stk (D @ [120, 48])"
      using put_bytes_snoc [of D "snd st" stk 120] put_bytes_snoc [of "D @ [120]" "snd st" stk 48] l
      by (simp add: add.assoc add.commute [of 1])
    ultimately show ?thesis using hex d ne b16 print_local [OF eD c n, of "D @ [120, 48]" props] l nz
      by (simp add: print_unsigned_def add.assoc add.commute [of 2])
  next
    case hex0
    then have D: "D \<noteq> []" using b u0 by (auto simp: D_def lsd_Nil_iff)
    then have ne: "(of_nat (length D) :: u64) \<noteq> 0" using l by (intro offset_nonzero) simp_all
    have l26: "length D \<le> 26" using l by simp
    obtain p1 m1 where 1: "addchar 48 (fst st, put_bytes (snd st) stk D) = (p1, put_bytes m1 stk D)"
      "emitted m0 buf n stk (out @ [48]) (p1, put_bytes m1 stk D)"
      using addchar_put_bytes [OF es c n l26] by blast
    obtain p2 m2 where 2: "addchar 120 (p1, put_bytes m1 stk D) = (p2, put_bytes m2 stk D)"
      "emitted m0 buf n stk ((out @ [48]) @ [120]) (p2, put_bytes m2 stk D)"
      using addchar_put_bytes [OF 1(2) c n l26] by blast
    have pp: "put_bytes (put_bytes m2 stk D) stk D = put_bytes m2 stk D" by (auto simp: put_bytes_def)
    have "uns_text b props (unat x) = [48, 120] @ padded (drop_2 props) (rev D)"
      using hex0 by (auto simp: uns_text_def num_text_def D_def u0)
    then show ?thesis using hex0 d ne b16 1(1) 2(1) print_local [OF 2(2) c n, of D "drop_2 props"] l nz pp
      by (simp add: print_unsigned_def drop_2_def Let_def)
  qed
qed


subsection \<open>Reading a format\<close>

lemma ucast_down_int: "(ucast (word_of_int k :: u64) :: u32) = word_of_int k"
  by (rule bit_word_eqI) (simp add: bit_ucast_iff bit_word_of_int_iff)

definition width_val :: "u8 list \<Rightarrow> nat" where
  "width_val ws = foldl (\<lambda>v d. v * 10 + unat (d - 48)) 0 ws"

definition is_digit :: "u8 \<Rightarrow> bool" where
  "is_digit d \<longleftrightarrow> 48 \<le> d \<and> d \<le> 57"

lemma num_end_digits:
  "cstr m f (ws @ c # rest) \<Longrightarrow> list_all is_digit ws \<Longrightarrow> \<not> is_digit c \<Longrightarrow>
     num_end m f len = Some (len + of_nat (length ws))"
proof (induction ws arbitrary: f len)
  case (Cons d ws)
  then show ?case by (simp add: num_end.simps [of m f] is_digit_def add.assoc)
next
  case Nil
  then show ?case by (auto simp: num_end.simps [of m f] is_digit_def)
qed

lemma atol_digits_fold:
  "cstr m f (ws @ c # rest) \<Longrightarrow> list_all is_digit ws \<Longrightarrow> \<not> is_digit c \<Longrightarrow>
     atol_digits m f (of_nat acc) = Some (of_nat (foldl (\<lambda>v d. v * 10 + unat (d - 48)) acc ws))"
proof (induction ws arbitrary: f acc)
  case (Cons d ws)
  then show ?case using Cons.IH [of "f + 1" "acc * 10 + unat (d - 48)"]
    by (simp add: atol_digits.simps [of m f] is_digit_def not_less)
next
  case Nil
  then show ?case by (auto simp: atol_digits.simps [of m f] is_digit_def not_le)
qed

lemma fmtnum_text:
  assumes s: "cstr m f (sg @ ws @ c # rest)" and sg: "sg = [] \<or> sg = [45]"
    and ws: "list_all is_digit ws" and c: "57 < c"
  shows "fmtnum m f = Some ((if sg = [] then of_nat (width_val ws) else - of_nat (width_val ws)),
    f + of_nat (length (sg @ ws)))"
proof -
  have nd: "\<not> is_digit c" using c by (simp add: is_digit_def not_le)
  let ?g = "f + of_nat (length sg)"
  have g: "cstr m ?g (ws @ c # rest)" using s by (simp add: cstr_append)
  have h: "m ?g \<noteq> 32" "m ?g \<noteq> 9" "m ?g \<noteq> 43" "m ?g \<noteq> 45"
  proof -
    have "m ?g = hd (ws @ [c])" using g by (cases ws) auto
    moreover have "is_digit (hd (ws @ [c])) \<or> hd (ws @ [c]) = c" using ws by (cases ws) auto
    ultimately show "m ?g \<noteq> 32" "m ?g \<noteq> 9" "m ?g \<noteq> 43" "m ?g \<noteq> 45" using c by (auto simp: is_digit_def)
  qed
  have f: "sg = [45] \<Longrightarrow> m f = 45" using s by auto
  have a: "atol_digits m ?g 0 = Some (of_nat (width_val ws))"
    using atol_digits_fold [OF g ws nd, of 0] by (simp add: width_val_def)
  have "atol m f = Some (if sg = [] then of_nat (width_val ws) else - of_nat (width_val ws))"
    using sg h f a by (auto simp: atol_def atol_skip.simps [of m f])
  then show ?thesis using sg h f num_end_digits [OF g ws nd] ucast_down_int [of "int (width_val ws)"]
      ucast_down_int [of "- int (width_val ws)"]
    by (auto simp: fmtnum_def add.assoc)
qed


subsection \<open>Formats and what they mean\<close>

text \<open>
  A format as a list of directives: plain characters, \<^verbatim>\<open>%%\<close>, \<^verbatim>\<open>%c\<close>, numbers and strings, the
  last two with flags, a field width and length modifiers. Each directive carries the
  argument it consumes. \<open>fmt_text\<close> is the text of a directive, \<open>fmt_out\<close> its output.
\<close>

record fspec =
  fs_alt :: bool
  fs_zero :: bool
  fs_minus :: bool
  fs_width :: "u8 list"
  fs_long :: nat

datatype conv = Dec | Uns | Hex

datatype directive = Plain u8 | Percent | Chr u64 | Num conv fspec u64 | Str fspec u64 "u8 list"

definition fs_text :: "fspec \<Rightarrow> u8 list" where
  "fs_text f = (if fs_alt f then [35] else []) @ (if fs_zero f then [48] else []) @
     (if fs_minus f then [45] else []) @ fs_width f @ replicate (fs_long f) 108"

definition fs_props :: "fspec \<Rightarrow> strprops_t" where
  "fs_props f = \<lparr>pad = (if fs_zero f then 48 else 32),
     npad = (if fs_minus f then - of_nat (width_val (fs_width f)) else of_nat (width_val (fs_width f))),
     alternate = fs_alt f\<rparr>"

definition fs_ok :: "fspec \<Rightarrow> bool" where
  "fs_ok f \<longleftrightarrow> list_all is_digit (fs_width f) \<and> (fs_width f = [] \<or> hd (fs_width f) \<noteq> 48) \<and> fs_long f \<le> 2"

fun conv_char :: "conv \<Rightarrow> u8" where
  "conv_char Dec = 100"
| "conv_char Uns = 117"
| "conv_char Hex = 120"

fun fmt_text :: "directive \<Rightarrow> u8 list" where
  "fmt_text (Plain c) = [c]"
| "fmt_text Percent = [37, 37]"
| "fmt_text (Chr x) = [37, 99]"
| "fmt_text (Num v f x) = 37 # fs_text f @ [conv_char v]"
| "fmt_text (Str f a xs) = 37 # fs_text f @ [115]"

fun fmt_args :: "directive \<Rightarrow> u64 list" where
  "fmt_args (Chr x) = [x]"
| "fmt_args (Num v f x) = [x]"
| "fmt_args (Str f a xs) = [a]"
| "fmt_args _ = []"

definition dec_value :: "fspec \<Rightarrow> u64 \<Rightarrow> int" where
  "dec_value f x = (if fs_long f = 0 then sint (ucast x :: u32) else sint x)"

fun fmt_out :: "directive \<Rightarrow> u8 list" where
  "fmt_out (Plain c) = [c]"
| "fmt_out Percent = [37]"
| "fmt_out (Chr x) = [ucast x]"
| "fmt_out (Num Dec f x) = padded (fs_props f) (int_text (dec_value f x))"
| "fmt_out (Num Uns f x) = uns_text 10 (fs_props f) (unat (ucast x :: u32))"
| "fmt_out (Num Hex f x) = uns_text 16 (fs_props f) (unat (ucast x :: u32))"
| "fmt_out (Str f a xs) = padded (fs_props f) xs"

text \<open>A string neither the buffer nor the local array overlaps.\<close>

definition off :: "u64 \<Rightarrow> nat \<Rightarrow> u64 \<Rightarrow> u64 \<Rightarrow> nat \<Rightarrow> bool" where
  "off buf n stk s k \<longleftrightarrow> (\<forall>i \<le> k. outside buf n stk (s + of_nat i))"

fun fmt_ok :: "mem \<Rightarrow> u64 \<Rightarrow> nat \<Rightarrow> u64 \<Rightarrow> directive \<Rightarrow> bool" where
  "fmt_ok m buf n stk (Plain c) \<longleftrightarrow> c \<noteq> 0 \<and> c \<noteq> 37"
| "fmt_ok m buf n stk Percent \<longleftrightarrow> True"
| "fmt_ok m buf n stk (Chr x) \<longleftrightarrow> True"
| "fmt_ok m buf n stk (Num v f x) \<longleftrightarrow> fs_ok f \<and> (v = Dec \<longrightarrow> dec_value f x \<noteq> - (2 ^ 63))"
| "fmt_ok m buf n stk (Str f a xs) \<longleftrightarrow> fs_ok f \<and> cstr m a xs \<and> off buf n stk a (length xs) \<and> length xs < 2 ^ 31"

lemma morefmt_longs:
  "cstr (snd st) fmt (replicate k 108 @ rest) \<Longrightarrow>
     morefmt stk fmt va nl props st = morefmt stk (fmt + of_nat k) va (nl + of_nat k) props st"
proof (induction k arbitrary: fmt nl)
  case (Suc k)
  then have "morefmt stk fmt va nl props st = morefmt stk (fmt + 1) va (nl + 1) props st"
    by (simp add: morefmt.simps [of _ fmt])
  also have "\<dots> = morefmt stk (fmt + 1 + of_nat k) va (nl + 1 + of_nat k) props st"
    using Suc.prems by (intro Suc.IH) simp
  finally show ?case by (simp add: add.assoc)
qed simp

lemma morefmt_number:
  assumes s: "cstr (snd st) fmt ((if z then [48] else []) @ sg @ ws @ c # rest)"
    and sg: "sg = [] \<or> sg = [45]" and ws: "list_all is_digit ws" "ws = [] \<or> hd ws \<noteq> 48" and c: "57 < c"
    and p: "npad props = 0" "pad props = 32"
  shows "morefmt stk fmt va nl props st =
    morefmt stk (fmt + of_nat (length ((if z then [48] else []) @ sg @ ws))) va nl
      (props\<lparr>pad := (if z then 48 else 32),
             npad := (if sg = [] then of_nat (width_val ws) else - of_nat (width_val ws))\<rparr>) st"
proof (cases z)
  case True
  have "cstr (snd st) (fmt + 1) (sg @ ws @ c # rest)" using s True by simp
  from fmtnum_text [OF this sg ws(1) c] show ?thesis using s True
    by (simp add: morefmt.simps [of _ fmt] add.assoc)
next
  case False
  show ?thesis
  proof (cases "sg @ ws")
    case Nil
    then show ?thesis using False p by (cases props) (simp add: width_val_def)
  next
    case (Cons d ds)
    have d49: "49 \<le> d" if "48 \<le> d" "d \<noteq> 48" using that by unat_arith
    with Cons have "d = 45 \<or> 49 \<le> d \<and> d \<le> 57"
      using sg ws by (auto simp: is_digit_def)
    then have ne: "d \<noteq> 37" "d \<noteq> 99" "d \<noteq> 0" "d \<noteq> 35" "d \<noteq> 48" "49 \<le> d \<and> d \<le> 57 \<or> d = 45" by auto
    have d: "snd st fmt = d" using s False Cons by (simp add: append_assoc [symmetric] del: append_assoc)
    have pp: "props\<lparr>pad := 32, npad := v\<rparr> = props\<lparr>npad := v\<rparr>" for v using p by (cases props) simp
    have f: "cstr (snd st) fmt (sg @ ws @ c # rest)" using s False by simp
    have "morefmt stk fmt va nl props st =
        fmtnum (snd st) fmt \<bind> (\<lambda>(n, fmt). morefmt stk fmt va nl (props\<lparr>npad := n\<rparr>) st)"
      using ne d by (simp add: morefmt.simps [of _ fmt])
    then show ?thesis using fmtnum_text [OF f sg ws(1) c] False pp by simp
  qed
qed


definition props0 :: strprops_t where
  "props0 = \<lparr>pad = 32, npad = 0, alternate = False\<rparr>"

lemma cstr_drop: "cstr m a (xs @ ys) \<Longrightarrow> cstr m (a + of_nat (length xs)) ys"
  by (simp add: cstr_append)

lemma morefmt_spec:
  assumes s: "cstr (snd st) fmt (fs_text f @ c # rest)" and f: "fs_ok f" and c: "57 < c"
  shows "morefmt stk fmt va 0 props0 st =
    morefmt stk (fmt + of_nat (length (fs_text f))) va (of_nat (fs_long f)) (fs_props f) st"
proof -
  let ?sg = "if fs_minus f then [45] else [] :: u8 list"
  let ?z = "if fs_zero f then [48] else [] :: u8 list"
  let ?a = "if fs_alt f then [35] else [] :: u8 list"
  let ?p = "props0\<lparr>alternate := fs_alt f\<rparr>"
  define tl where "tl = replicate (fs_long f) 108 @ c # rest"
  obtain c' rest' where t: "tl = c' # rest'" "57 < c'" using c by (cases "fs_long f") (auto simp: tl_def)
  have whole: "fs_text f @ c # rest = ?a @ ?z @ ?sg @ fs_width f @ tl" by (simp add: fs_text_def tl_def)
  have s1: "cstr (snd st) (fmt + of_nat (length ?a)) (?z @ ?sg @ fs_width f @ tl)"
    using s unfolding whole by (rule cstr_drop)
  have 1: "morefmt stk fmt va 0 props0 st = morefmt stk (fmt + of_nat (length ?a)) va 0 ?p st"
    using s unfolding whole by (auto simp: morefmt.simps [of _ fmt] props0_def)
  let ?num = "?z @ ?sg @ fs_width f"
  have 2: "morefmt stk (fmt + of_nat (length ?a)) va 0 ?p st =
      morefmt stk (fmt + of_nat (length ?a) + of_nat (length ?num)) va 0 (fs_props f) st"
    using morefmt_number [of st "fmt + of_nat (length ?a)" "fs_zero f" ?sg "fs_width f" c' rest' ?p stk va 0]
      s1 t f by (auto simp: fs_ok_def fs_props_def props0_def)
  have s2: "cstr (snd st) (fmt + of_nat (length ?a) + of_nat (length ?num)) (replicate (fs_long f) 108 @ c # rest)"
    using cstr_drop [of "snd st" "fmt + of_nat (length ?a)" ?num tl] s1 unfolding tl_def append_assoc by blast
  from morefmt_longs [OF s2, of stk va 0 "fs_props f"] show ?thesis
    unfolding 1 2 by (simp add: fs_text_def algebra_simps)
qed

lemma off_strings:
  assumes "emitted m0 buf n stk out st" "off buf n stk a (length xs)" "cstr m0 a xs"
  shows "cstr (snd st) a xs" "clear buf n a (length xs)"
  using assms cstr_cong [of xs "snd st" a m0]
  by (auto simp: emitted_def off_def outside_def clear_def)

lemma sint_scast_up: "sint (scast w :: u64) = sint w" for w :: u32
proof -
  have "scast w = (word_of_int (sint w) :: u64)" by simp
  then have "sint (scast w :: u64) = signed_take_bit 63 (sint w)" by (simp only: sint_sbintrunc') simp
  then show ?thesis using sint_32_bounds [of w] by (simp add: signed_take_bit_int_eq_self)
qed

lemma format_directive:
  assumes e: "emitted m0 buf n stk out st" and c: "clear buf n stk 25" and n: "n < 2 ^ 32"
    and d: "fmt_ok m0 buf n stk d" and s: "cstr (snd st) fmt (fmt_text d @ rest)"
  shows "\<exists>st'. format_loop stk fmt (fmt_args d @ va) st = format_loop stk (fmt + of_nat (length (fmt_text d))) va st' \<and>
    emitted m0 buf n stk (out @ fmt_out d) st'"
proof -
  have conv: "format_loop stk fmt (x # va) st =
      morefmt stk (fmt + 1 + of_nat (length (fs_text f))) (x # va) (of_nat (fs_long f)) (fs_props f) st \<bind>
        (\<lambda>(fmt, va, st). format_loop stk fmt va st)"
    if "cstr (snd st) fmt ((37 # fs_text f @ [c]) @ rest)" "fs_ok f" "57 < c" for f c x
    using that morefmt_spec [of st "fmt + 1" f c rest stk "x # va"]
    by (simp add: format_loop.simps [of _ fmt] props0_def)
  show ?thesis
  proof (cases d)
    case (Plain x)
    then show ?thesis using s d emitted_addchar [OF e n]
      by (intro exI [of _ "addchar x st"]) (auto simp: format_loop.simps [of _ fmt])
  next
    case Percent
    then show ?thesis using s emitted_addchar [OF e n]
      by (intro exI [of _ "addchar 37 st"]) (auto simp: format_loop.simps [of _ fmt] morefmt.simps add.assoc)
  next
    case (Chr x)
    then show ?thesis using s emitted_addchar [OF e n]
      by (intro exI [of _ "addchar (ucast x) st"]) (auto simp: format_loop.simps [of _ fmt] morefmt.simps add.assoc)
  next
    case (Num v f x)
    then have ok: "fs_ok f" using d by simp
    let ?e = "fmt + 1 + of_nat (length (fs_text f))"
    have ch: "snd st ?e = conv_char v" using s Num by (simp add: cstr_append add.assoc)
    have v: "57 < conv_char v" by (cases v) simp_all
    have len: "fmt + of_nat (length (fmt_text d)) = ?e + 1" "fmt_args d = [x]" using Num by simp_all
    have fin: ?thesis if "morefmt stk ?e (x # va) (of_nat (fs_long f)) (fs_props f) st = Some (?e + 1, va, st')"
      "emitted m0 buf n stk (out @ fmt_out d) st'" for st'
      using conv [OF _ ok v, of x] s Num that unfolding len by (intro exI [of _ st']) auto
    show ?thesis
    proof (cases v)
      case Dec
      let ?x = "if of_nat (fs_long f) = (0 :: u32) then scast (ucast x :: u32) else x"
      have "fs_long f = 0 \<or> fs_long f = 1 \<or> fs_long f = 2" using ok by (auto simp: fs_ok_def)
      then have x: "sint ?x = dec_value f x" by (auto simp: dec_value_def sint_scast_up)
      then have "- (2 ^ 63) < sint ?x" using d Num Dec sint_ge [of ?x] by simp
      from print_int_emits [OF e c n this, of "fs_props f"] obtain st' where
        p: "print_int stk ?x 10 (fs_props f) st = Some st'"
        "emitted m0 buf n stk (out @ padded (fs_props f) (int_text (sint ?x))) st'" by blast
      show ?thesis
        using p x Num Dec ch by (intro fin [of st']) (simp_all add: morefmt.simps [of _ ?e])
    next
      case Uns
      from print_unsigned_emits [OF e c n, of 10 "ucast x" "fs_props f"] obtain st' where
        "print_unsigned stk (ucast x) 10 (fs_props f) st = Some st'"
        "emitted m0 buf n stk (out @ uns_text 10 (fs_props f) (unat (ucast x :: u32))) st'" by auto
      then show ?thesis
        using Num Uns ch by (intro fin [of st']) (simp_all add: morefmt.simps [of _ ?e])
    next
      case Hex
      from print_unsigned_emits [OF e c n, of 16 "ucast x" "fs_props f"] obtain st' where
        "print_unsigned stk (ucast x) 16 (fs_props f) st = Some st'"
        "emitted m0 buf n stk (out @ uns_text 16 (fs_props f) (unat (ucast x :: u32))) st'" by auto
      then show ?thesis
        using Num Hex ch by (intro fin [of st']) (simp_all add: morefmt.simps [of _ ?e])
    qed
  next
    case (Str f a xs)
    then have ok: "fs_ok f" "length xs < 2 ^ 31" using d by auto
    have a: "cstr (snd st) a xs" "clear buf n a (length xs)"
      using off_strings [OF e] d Str by auto
    obtain st' where p: "print_str a (fs_props f) st = Some st'" "emitted m0 buf n stk (out @ padded (fs_props f) xs) st'"
      using print_str_emits [OF e n a ok(2)] by blast
    let ?e = "fmt + 1 + of_nat (length (fs_text f))"
    have ch: "snd st ?e = 115" using s Str by (simp add: cstr_append add.assoc)
    have len: "fmt + of_nat (length (fmt_text d)) = ?e + 1" "fmt_args d = [a]" using Str by simp_all
    have m: "morefmt stk ?e (a # va) (of_nat (fs_long f)) (fs_props f) st = Some (?e + 1, va, st')"
      using p(1) ch by (simp add: morefmt.simps [of _ ?e])
    show ?thesis using conv [OF _ ok(1), of 115 a] s Str p(2) m unfolding len by (intro exI [of _ st']) auto
  qed
qed


lemma format_loop_emits:
  assumes "emitted m0 buf n stk out st" and c: "clear buf n stk 25" and n: "n < 2 ^ 32"
    and "list_all (fmt_ok m0 buf n stk) ds" "cstr m0 fmt (concat (map fmt_text ds))"
    and "off buf n stk fmt (length (concat (map fmt_text ds)))"
  shows "\<exists>st'. format_loop stk fmt (concat (map fmt_args ds) @ va) st = Some st' \<and>
    emitted m0 buf n stk (out @ concat (map fmt_out ds)) st'"
  using assms(1,4-6)
proof (induction ds arbitrary: fmt st out)
  case Nil
  then show ?case using off_strings(1) [of m0 buf n stk out st fmt "[]"]
    by (simp add: format_loop.simps [of _ fmt])
next
  case (Cons d ds)
  let ?t = "concat (map fmt_text ds)"
  have s: "cstr (snd st) fmt (fmt_text d @ ?t)"
    using off_strings(1) [OF Cons.prems(1,4,3)] by simp
  have d: "fmt_ok m0 buf n stk d" "list_all (fmt_ok m0 buf n stk) ds" using Cons.prems(2) by simp_all
  obtain st1 where 1: "format_loop stk fmt (fmt_args d @ concat (map fmt_args ds) @ va) st =
      format_loop stk (fmt + of_nat (length (fmt_text d))) (concat (map fmt_args ds) @ va) st1"
    "emitted m0 buf n stk (out @ fmt_out d) st1"
    using format_directive [OF Cons.prems(1) c n d(1) s] by blast
  have "cstr m0 (fmt + of_nat (length (fmt_text d))) ?t" using Cons.prems(3) by (simp add: cstr_drop)
  moreover have "off buf n stk (fmt + of_nat (length (fmt_text d))) (length ?t)"
    unfolding off_def
  proof (intro allI impI)
    fix i assume "i \<le> length ?t"
    then have "outside buf n stk (fmt + of_nat (length (fmt_text d) + i))"
      using Cons.prems(4) by (simp add: off_def del: of_nat_add)
    then show "outside buf n stk (fmt + of_nat (length (fmt_text d)) + of_nat i)" by (simp add: add.assoc)
  qed
  ultimately show ?case using Cons.IH [OF 1(2) d(2)] 1(1) by simp
qed

text \<open>What a call leaves: the first \<open>n\<close> characters and a zero in the buffer, the rest as before.\<close>

definition buffer_holds :: "mem \<Rightarrow> mem \<Rightarrow> u64 \<Rightarrow> nat \<Rightarrow> u64 \<Rightarrow> u8 list \<Rightarrow> bool" where
  "buffer_holds m m' buf n stk out \<longleftrightarrow>
     (\<forall>i < min (length out) n. m' (buf + of_nat i) = out ! i) \<and> m' (buf + of_nat (min (length out) n)) = 0 \<and>
     (\<forall>a. outside buf n stk a \<longrightarrow> m' a = m a)"

lemma vsnprintf_holds:
  assumes "list_all (fmt_ok m buf n stk) ds" "cstr m fmt (concat (map fmt_text ds))"
    and "off buf n stk fmt (length (concat (map fmt_text ds)))" "clear buf n stk 25"
    and "n = unat (sz - 1)" "out = concat (map fmt_out ds)"
  shows "\<exists>m'. vsnprintf stk buf sz fmt (concat (map fmt_args ds) @ va) m = Some (of_nat (length out), m') \<and>
    buffer_holds m m' buf n stk out"
proof -
  have n: "n < 2 ^ 32" using unsigned_less [of "sz - 1"] assms(5) by simp
  have e: "emitted m buf n stk [] (\<lparr>ps_buffer = buf, ps_remain = sz - 1, ps_added = 0\<rparr>, m)"
    using assms(5) by (simp add: emitted_def)
  obtain st where st: "format_loop stk fmt (concat (map fmt_args ds) @ va)
      (\<lparr>ps_buffer = buf, ps_remain = sz - 1, ps_added = 0\<rparr>, m) = Some st" "emitted m buf n stk out st"
    using format_loop_emits [OF e assms(4) n assms(1-3), of va] unfolding assms(6) append_Nil by blast
  let ?k = "min (length out) n"
  have ne: "buf + of_nat i \<noteq> buf + of_nat ?k" if "i < ?k" for i
    using that n by (auto simp: of_nat_eq_64)
  have out: "a \<noteq> buf + of_nat ?k" if "outside buf n stk a" for a
    using that n by (auto simp: outside_def unat_of_nat)
  show ?thesis using st ne out by (cases st) (auto simp: vsnprintf_def emitted_def buffer_holds_def)
qed

text \<open>
  C12. The output of \<^verbatim>\<open>vsnprintf\<close>: for every format and matching arguments it returns, the
  buffer holds the first \<open>size - 1\<close> characters of the output and a terminating zero, the
  result is the length of the complete output, and no byte outside of the buffer (and of the
  26-byte array local to the number printers) is changed.
\<close>

theorem vsnprintf_correct:
  assumes "list_all (fmt_ok m buf n stk) ds" "cstr m fmt (concat (map fmt_text ds))"
    and "off buf n stk fmt (length (concat (map fmt_text ds)))" "clear buf n stk 25"
    and "n = unat (sz - 1)" "out = concat (map fmt_out ds)"
  shows "\<exists>m'. vsnprintf stk buf sz fmt (concat (map fmt_args ds) @ va) m = Some (of_nat (length out), m') \<and>
    (\<forall>i < min (length out) n. m' (buf + of_nat i) = out ! i) \<and> m' (buf + of_nat (min (length out) n)) = 0 \<and>
    (\<forall>a. outside buf n stk a \<longrightarrow> m' a = m a)"
  using vsnprintf_holds [OF assms] unfolding buffer_holds_def .

subsection \<open>Printing and reading back\<close>

lemma atol_digits_end:
  "cstr m f ws \<Longrightarrow> list_all is_digit ws \<Longrightarrow>
     atol_digits m f (of_nat acc) = Some (of_nat (foldl (\<lambda>v d. v * 10 + unat (d - 48)) acc ws))"
proof (induction ws arbitrary: f acc)
  case (Cons d ws)
  then show ?case using Cons.IH [of "f + 1" "acc * 10 + unat (d - 48)"]
    by (simp add: atol_digits.simps [of m f] is_digit_def not_less)
next
  case Nil
  then show ?case by (auto simp: atol_digits.simps [of m f])
qed

lemma digit_10: "j < 10 \<Longrightarrow> digits ! j = of_nat (48 + j)"
proof -
  assume "j < 10"
  then have "j \<in> {0, 1, 2, 3, 4, 5, 6, 7, 8, 9}" by auto
  then show ?thesis by (auto simp: digits_def)
qed

lemma lsd_10_digits: "list_all is_digit (lsd 10 k)"
proof (induction k rule: less_induct)
  case (less k)
  have "is_digit (digits ! j)" if "j < 10" for j
  proof -
    from that have "j \<in> {0, 1, 2, 3, 4, 5, 6, 7, 8, 9}" by auto
    then show ?thesis by (auto simp: digits_def is_digit_def)
  qed
  then have "is_digit (digits ! (k mod 10))" by simp
  then show ?case using less.IH [of "k div 10"] by (simp add: lsd.simps [of 10 k])
qed

lemma lsd_10_value: "foldl (\<lambda>v d. v * 10 + unat (d - 48)) 0 (rev (lsd 10 k)) = k"
proof (induction k rule: less_induct)
  case (less k)
  have "unat (digits ! (k mod 10) - 48) = k mod 10" by (simp add: digit_10 unat_of_nat)
  then show ?case using less.IH [of "k div 10"] by (simp add: lsd.simps [of 10 k])
qed

lemma num_text_10: "list_all is_digit (num_text 10 k)" "foldl (\<lambda>v d. v * 10 + unat (d - 48)) 0 (num_text 10 k) = k"
    "num_text 10 k \<noteq> []"
  using lsd_10_digits [of k] lsd_10_value [of k]
  by (simp_all add: num_text_def is_digit_def lsd_Nil_iff list_all_iff)

lemma atol_int_text:
  assumes "cstr m a (int_text x)"
  shows "atol m a = Some (word_of_int x)"
proof -
  obtain d ds where t: "num_text 10 (nat \<bar>x\<bar>) = d # ds" "is_digit d"
    using num_text_10 [of "nat \<bar>x\<bar>"] by (cases "num_text 10 (nat \<bar>x\<bar>)") auto
  have v: "atol_digits m b 0 = Some (of_nat (nat \<bar>x\<bar>))" if "cstr m b (num_text 10 (nat \<bar>x\<bar>))" for b
    using atol_digits_end [OF that num_text_10(1), of 0] num_text_10(2) [of "nat \<bar>x\<bar>"] by simp
  show ?thesis
  proof (cases "x < 0")
    case True
    then have m: "m a = 45" "cstr m (a + 1) (num_text 10 (nat \<bar>x\<bar>))"
      using assms by (simp_all add: int_text_def)
    show ?thesis using True m v [OF m(2)] by (simp add: atol_def atol_skip.simps [of m a])
  next
    case False
    then have m: "cstr m a (num_text 10 (nat \<bar>x\<bar>))" using assms by (simp add: int_text_def)
    then have "m a = d" by (simp add: t(1))
    then have "m a \<noteq> 32" "m a \<noteq> 9" "m a \<noteq> 45" "m a \<noteq> 43" using t(2) by (auto simp: is_digit_def)
    then show ?thesis using False v [OF m] by (simp add: atol_def atol_skip.simps [of m a])
  qed
qed

lemma buffer_holds_cstr:
  assumes "buffer_holds m m' buf n stk out" "0 \<notin> set out" "length out \<le> n"
  shows "cstr m' buf out"
proof -
  have "cstr m' buf (out @ [])" unfolding cstr_append using assms
    by (auto simp: buffer_holds_def min_absorb1) (metis nth_mem)
  then show ?thesis by simp
qed

lemma int_text_length: "\<bar>x\<bar> < 2 ^ 63 \<Longrightarrow> length (int_text x) \<le> 20"
proof -
  assume a: "\<bar>x\<bar> < 2 ^ 63"
  have "length (num_text 10 k) \<le> 19" if "k < 2 ^ 63" for k
    using that lsd_length [of k 10 19] by (simp add: num_text_def)
  note l = this
  show ?thesis
  proof (cases "x < 0")
    case True
    then show ?thesis using l [of "nat (- x)"] a by (simp add: int_text_def)
  next
    case False
    then have "nat x < 2 ^ 63" using a by (simp add: nat_less_iff)
    from l [OF this] show ?thesis using False by (simp add: int_text_def)
  qed
qed

lemma int_text_nonzero: "0 \<notin> set (int_text x)"
  using lsd_nonzero [of 10] by (simp add: int_text_def num_text_def)

definition plain_ld :: "u64 \<Rightarrow> directive" where
  "plain_ld x = Num Dec \<lparr>fs_alt = False, fs_zero = False, fs_minus = False, fs_width = [], fs_long = 1\<rparr> x"

text \<open>
  C13. Printing and reading back: a \<^verbatim>\<open>long\<close> printed by \<^verbatim>\<open>snprintf\<close> with \<^verbatim>\<open>%ld\<close> into a buffer of at
  least 21 bytes is read back by \<^verbatim>\<open>atol\<close>, for every value but the least one.
\<close>

theorem snprintf_atol_roundtrip:
  assumes "cstr m fmt [37, 108, 100]" "off buf n stk fmt 3" "clear buf n stk 25"
    and "n = unat (sz - 1)" "20 \<le> n" "sint x \<noteq> - (2 ^ 63)"
  shows "\<exists>r m'. snprintf stk buf sz fmt [x] m = Some (r, m') \<and> atol m' buf = Some x"
proof -
  let ?ds = "[plain_ld x]"
  have t: "concat (map fmt_text ?ds) = [37, 108, 100]" "concat (map fmt_args ?ds) @ [] = [x]"
    "concat (map fmt_out ?ds) = int_text (sint x)" "list_all (fmt_ok m buf n stk) ?ds"
    using assms(6) by (simp_all add: plain_ld_def fs_text_def fs_ok_def dec_value_def padded_def fs_props_def width_val_def)
  have f: "cstr m fmt (concat (map fmt_text ?ds))" "off buf n stk fmt (length (concat (map fmt_text ?ds)))"
    using assms(1,2) unfolding t(1) by (simp_all add: numeral_3_eq_3)
  obtain m' where m': "snprintf stk buf sz fmt [x] m = Some (of_nat (length (int_text (sint x))), m')"
      "buffer_holds m m' buf n stk (int_text (sint x))"
    using vsnprintf_holds [OF t(4) f assms(3,4) refl, of "[]"] unfolding snprintf_def t by blast
  have "\<bar>sint x\<bar> < 2 ^ 63" using sint_ge [of x] sint_lt [of x] assms(6) by simp
  then have "cstr m' buf (int_text (sint x))"
    using int_text_length assms(5) by (intro buffer_holds_cstr [OF m'(2) int_text_nonzero]) fastforce
  from atol_int_text [OF this] m'(1) show ?thesis by auto
qed


subsection \<open>Witnesses\<close>

text \<open>The format \<open>"%5d=%-4s"\<close> at \<open>0x100\<close> and the string \<open>"ab"\<close> at \<open>0x200\<close>.\<close>

definition demo_fmt :: mem where
  "demo_fmt = put_bytes (put_bytes (\<lambda>_. 0) 0x200 [97, 98, 0]) 0x100 [37, 53, 100, 61, 37, 45, 52, 115, 0]"

definition demo_directives :: "directive list" where
  "demo_directives =
     [Num Dec \<lparr>fs_alt = False, fs_zero = False, fs_minus = False, fs_width = [53], fs_long = 0\<rparr> (- 42),
      Plain 61,
      Str \<lparr>fs_alt = False, fs_zero = False, fs_minus = True, fs_width = [52], fs_long = 0\<rparr> 0x200 [97, 98]]"

lemma off_below:
  assumes "unat s + k < unat buf" "unat s + k < unat stk" "unat buf < 2 ^ 32" "unat stk < 2 ^ 32" "n < 2 ^ 32"
  shows "off buf n stk s k"
  unfolding off_def outside_def
proof (intro allI impI conjI)
  fix i assume i: "i \<le> k"
  then have u: "unat (s + of_nat i) = unat s + i" using assms by (simp add: unat_word_ariths unat_of_nat)
  then have "unat (s + of_nat i) < unat buf" "unat (s + of_nat i) < unat stk" using assms i by simp_all
  then show "n < unat (s + of_nat i - buf)" "26 \<le> unat (s + of_nat i - stk)"
    using assms by (simp_all add: unat_sub_if_size word_le_nat_alt word_size)
qed

lemma clear_demo: "clear 0x300 63 0x400 25"
  unfolding clear_def
proof (intro allI impI)
  fix i :: nat assume "i \<le> 25"
  then have "(0x400 + of_nat i - 0x300 :: u64) = of_nat (0x100 + i)" by simp
  then show "63 < unat (0x400 + of_nat i - 0x300 :: u64)" using \<open>i \<le> 25\<close> by (simp only:) (simp add: unat_of_nat del: of_nat_add)
qed

lemma demo_fmt_strings: "cstr demo_fmt 0x200 [97, 98]" "cstr demo_fmt 0x100 [37, 53, 100, 61, 37, 45, 52, 115]"
  by (simp_all add: demo_fmt_def put_bytes_def)

lemma demo_texts:
  "concat (map fmt_text demo_directives) = [37, 53, 100, 61, 37, 45, 52, 115]"
  "concat (map fmt_args demo_directives) = [- 42, 0x200]"
  by (simp_all add: demo_directives_def fs_text_def)

theorem vsnprintf_correct_witness:
  "\<exists>m'. vsnprintf 0x400 0x300 64 0x100 (concat (map fmt_args demo_directives) @ []) demo_fmt =
      Some (of_nat (length (concat (map fmt_out demo_directives))), m') \<and>
    (\<forall>i < min (length (concat (map fmt_out demo_directives))) 63.
       m' (0x300 + of_nat i) = concat (map fmt_out demo_directives) ! i) \<and>
    m' (0x300 + of_nat (min (length (concat (map fmt_out demo_directives))) 63)) = 0 \<and>
    (\<forall>a. outside 0x300 63 0x400 a \<longrightarrow> m' a = demo_fmt a)"
proof (rule vsnprintf_correct [OF _ _ _ clear_demo])
  show "list_all (fmt_ok demo_fmt 0x300 63 0x400) demo_directives"
    using demo_fmt_strings(1) off_below [of "0x200" "Suc (Suc 0)" "0x300" "0x400" 63]
    by (simp add: demo_directives_def fs_ok_def is_digit_def dec_value_def)
  show "cstr demo_fmt 0x100 (concat (map fmt_text demo_directives))" unfolding demo_texts by (rule demo_fmt_strings)
  show "off 0x300 63 0x400 0x100 (length (concat (map fmt_text demo_directives)))"
    unfolding demo_texts by (rule off_below) simp_all
qed simp_all

theorem snprintf_atol_roundtrip_witness:
  "\<exists>r m'. snprintf 0x400 0x300 64 0x100 [- 42] (put_bytes (\<lambda>_. 0) 0x100 [37, 108, 100, 0]) = Some (r, m') \<and>
     atol m' 0x300 = Some (- 42)"
  by (rule snprintf_atol_roundtrip [OF _ off_below clear_demo]) (simp_all add: put_bytes_def)


subsection \<open>Binary numbers\<close>

text \<open>The character of bit \<open>31 - j\<close> and what follows it: a quote after every fourth, a zero at the end.\<close>

definition bin_group :: "u32 \<Rightarrow> nat \<Rightarrow> u8 list" where
  "bin_group x j = [if bit x (31 - j) then 49 else 48] @ (if j = 31 then [0] else if (j + 1) mod 4 = 0 then [39] else [])"

lemma put_bytes_append:
  "length xs + length ys < 2 ^ 64 \<Longrightarrow>
     put_bytes (put_bytes m p xs) (p + of_nat (length xs)) ys = put_bytes m p (xs @ ys)"
proof (induction ys arbitrary: xs)
  case (Cons y ys)
  have "put_bytes (put_bytes m p xs) (p + of_nat (length xs)) (y # ys) =
      put_bytes ((put_bytes m p xs)(p + of_nat (length xs) := y)) (p + of_nat (length xs) + 1) ys"
    using Cons.prems by (intro put_bytes_Cons [symmetric]) simp
  also have "\<dots> = put_bytes (put_bytes m p (xs @ [y])) (p + of_nat (length (xs @ [y]))) ys"
    using Cons.prems put_bytes_snoc [of xs m p y] by (simp add: add.assoc add.commute [of 1])
  also have "\<dots> = put_bytes m p ((xs @ [y]) @ ys)" using Cons.prems by (intro Cons.IH) simp
  finally show ?case by simp
qed simp

lemma bin_group_length: "length (bin_group x j) \<le> 2"
  by (simp add: bin_group_def)

lemma bin_length: "length (concat (map (bin_group x) js)) \<le> 2 * length js"
proof (induction js)
  case (Cons j js)
  then show ?case using bin_group_length [of x j] by simp
qed simp

lemma binstr_loop_step:
  assumes "i < 32"
  shows "binstr_loop x i c m =
    (if i = 31 then put_bytes m c (bin_group x i)
     else binstr_loop x (Suc i) (c + of_nat (length (bin_group x i))) (put_bytes m c (bin_group x i)))"
proof -
  have b: "(ucast x :: u64) AND push_bit (32 - i - 1) 1 \<noteq> 0 \<longleftrightarrow> bit x (31 - i)"
    using assms and_single_eq_0_iff [of "31 - i" "ucast x :: u64"] by (simp add: bit_ucast_iff)
  have p1: "put_bytes m c [a] = m(c := a)" and p2: "put_bytes m c [a, b] = m(c := a, c + 1 := b)" for a b
    using put_bytes_Cons [of "[]" m c a] put_bytes_Cons [of "[b]" m c a] put_bytes_Cons [of "[]" "m(c := a)" "c + 1" b]
    by simp_all
  show ?thesis using assms b
    by (subst binstr_loop.simps) (auto simp: bin_group_def p1 p2 Let_def add.assoc)
qed

lemma binstr_loop_text:
  "i < 32 \<Longrightarrow> binstr_loop x i c m = put_bytes m c (concat (map (bin_group x) [i..<32]))"
proof (induction "31 - i" arbitrary: i c m)
  case 0
  then have "i = 31" by simp
  then show ?case by (simp add: binstr_loop_step upt_rec)
next
  case (Suc k)
  have u: "[i..<32] = i # [Suc i..<32]" using Suc.prems by (simp add: upt_rec)
  have l: "length (bin_group x i) + length (concat (map (bin_group x) [Suc i..<32])) < 2 ^ 64"
    using bin_group_length [of x i] bin_length [of x "[Suc i..<32]"] by simp
  have i: "i \<noteq> 31" "k = 31 - Suc i" "Suc i < 32" using Suc.hyps(2) by simp_all
  show ?case unfolding binstr_loop_step [OF Suc.prems] u using i Suc.hyps(1) [OF i(2,3)] put_bytes_append [OF l]
    by simp
qed

text \<open>
  \<^verbatim>\<open>binstr\<close> writes exactly the 40 bytes of its output array: the 32 bits of the word from
  the highest on, a quote between groups of four, and the terminating zero.
\<close>

theorem binstr_exact:
  "binstr x out m = put_bytes m out (concat (map (bin_group x) [0..<32])) \<and>
   length (concat (map (bin_group x) [0..<32])) = 40"
  by (simp add: binstr_def binstr_loop_text) (simp add: upt_rec bin_group_def)


end
