(* ===== verification/Console.thy ===== *)
theory Console
  imports Task Ept Uart Printf
begin

text \<open>
  The state of the system and its console: the selection between the two serial drivers
  (\<^verbatim>\<open>io/io.c\<close>) and the output of a formatted string (\<^verbatim>\<open>printf\<close> and its variants of
  \<^verbatim>\<open>io/printf.c\<close>). An operation returns a new state or ends in a fault: an access through a null
  pointer, an access outside an array, a call of a null function, or a loop that does not end
  (in this context: a wait for a character or for room in a ring is a loop that only an
  interrupt can end).
\<close>

subsection \<open>State\<close>

datatype fault = Null_pointer | Out_of_bounds | Null_function | Loop_forever

datatype 'a res = Ret 'a | Err fault

datatype irq_handler = Timer_interrupt | V_timer | Fake_console | Uart_interrupt

datatype uart_ops = Early_ops | Advance_ops

text \<open>
  The last four members: the memory, the addresses at which the stack of a print places the local
  arrays of the number printers and of \<^verbatim>\<open>printf\<close>, and the address of the format of \<^verbatim>\<open>sys_debug\<close>.
\<close>

record system =
  tasks :: kstate
  g_handler_vec :: "irq_handler option list"
  uart_op :: "uart_ops option"
  serial :: uart
  bus :: hist
  gicv2 :: gic_t
  vgics :: "vgic_t list"
  cntp_tval_el0 :: "nat \<Rightarrow> u64"
  cntp_ctl_el0 :: "nat \<Rightarrow> u64"
  kmem :: mem
  pr_stk :: u64
  pr_buf :: u64
  debug_fmt :: u64

text \<open>An optional result, with the fault that its absence stands for.\<close>

definition or_fault :: "fault \<Rightarrow> 'a option \<Rightarrow> 'a res" where
  "or_fault f x = (case x of None \<Rightarrow> Err f | Some a \<Rightarrow> Ret a)"

definition bind_res :: "'a res \<Rightarrow> ('a \<Rightarrow> 'b res) \<Rightarrow> 'b res" where
  "bind_res x f = (case x of Ret a \<Rightarrow> f a | Err e \<Rightarrow> Err e)"

lemma bind_res_simps [simp]: "bind_res (Ret a) f = f a" "bind_res (Err e) f = Err e"
  by (simp_all add: bind_res_def)

lemma or_fault_simps [simp]: "or_fault f None = Err f" "or_fault f (Some a) = Ret a"
  by (simp_all add: or_fault_def)

definition NR_HANDLERS :: nat where "NR_HANDLERS = 512"

definition irq_install :: "u32 \<Rightarrow> irq_handler \<Rightarrow> system \<Rightarrow> system res" where
  "irq_install vector h s =
     (if unat vector < NR_HANDLERS
      then Ret (s\<lparr>g_handler_vec := (g_handler_vec s)[unat vector := Some h]\<rparr>)
      else Err Out_of_bounds)"

subsection \<open>Console\<close>

definition io_early_init :: "system \<Rightarrow> system" where
  "io_early_init s = s\<lparr>bus := uart_early_init (bus s), uart_op := Some Early_ops\<rparr>"

definition io_init :: "dev \<Rightarrow> system \<Rightarrow> system res" where
  "io_init dev s =
     bind_res (irq_install 33 Uart_interrupt s) (\<lambda>s.
       let h = gic_enable_int 33 0 (bus s);
           (_, h) = gic_get_enable dev 33 h
       in Ret (s\<lparr>bus := uart_advance_init h, uart_op := Some Advance_ops\<rparr>))"

definition getc :: "dev \<Rightarrow> system \<Rightarrow> (u8 \<times> system) res" where
  "getc dev s =
     (case uart_op s of
        None \<Rightarrow> Err Null_pointer
      | Some Early_ops \<Rightarrow>
          bind_res (or_fault Loop_forever (uart_early_getc dev (bus s)))
            (\<lambda>(c, h). Ret (c, s\<lparr>bus := h\<rparr>))
      | Some Advance_ops \<Rightarrow>
          bind_res (or_fault Loop_forever (uart_advance_getc (serial s)))
            (\<lambda>(c, u). Ret (c, s\<lparr>serial := u\<rparr>)))"

definition putc :: "dev \<Rightarrow> u8 \<Rightarrow> system \<Rightarrow> system res" where
  "putc dev c s =
     (case uart_op s of
        None \<Rightarrow> Err Null_pointer
      | Some Early_ops \<Rightarrow>
          bind_res (or_fault Loop_forever (uart_early_putc dev c (bus s))) (\<lambda>h. Ret (s\<lparr>bus := h\<rparr>))
      | Some Advance_ops \<Rightarrow>
          bind_res (or_fault Loop_forever (uart_advance_putc dev c (serial s) (bus s)))
            (\<lambda>(u, h). Ret (s\<lparr>serial := u, bus := h\<rparr>)))"

subsection \<open>Strings\<close>

partial_function (option) putstr_loop :: "dev \<Rightarrow> mem \<Rightarrow> u64 \<Rightarrow> system \<Rightarrow> system option" where
  "putstr_loop dev m str s =
     (if m str = 0 then Some s
      else (case putc dev (m str) s of
              Err e \<Rightarrow> None
            | Ret s \<Rightarrow> putstr_loop dev m (str + 1) s))"

definition uart_putstr :: "dev \<Rightarrow> mem \<Rightarrow> u64 \<Rightarrow> system \<Rightarrow> system option" where
  "uart_putstr dev m str s =
     putstr_loop dev m str (if uart_op s = None then s\<lparr>uart_op := Some Early_ops\<rparr> else s)"

text \<open>
  \<^verbatim>\<open>printf\<close>, \<^verbatim>\<open>warning\<close> and \<^verbatim>\<open>error\<close> have the same body; \<open>buf\<close> is the address of their local array
  of \<^verbatim>\<open>BUFSZ\<close> bytes, \<open>stk\<close> that of the number printers' array.
\<close>

definition vprintf :: "dev \<Rightarrow> u64 \<Rightarrow> u64 \<Rightarrow> u64 \<Rightarrow> u64 list \<Rightarrow> mem \<Rightarrow> system \<Rightarrow> (u32 \<times> mem \<times> system) option" where
  "vprintf dev stk buf fmt va m s = do {
     (r, m) \<leftarrow> vsnprintf stk buf BUFSZ fmt va m;
     s \<leftarrow> uart_putstr dev m buf s;
     Some (r, m, s)
   }"

definition printf :: "dev \<Rightarrow> u64 \<Rightarrow> u64 \<Rightarrow> u64 \<Rightarrow> u64 list \<Rightarrow> mem \<Rightarrow> system \<Rightarrow> (u32 \<times> mem \<times> system) option" where
  "printf dev stk buf fmt va m s = vprintf dev stk buf fmt va m s"

definition warning :: "dev \<Rightarrow> u64 \<Rightarrow> u64 \<Rightarrow> u64 \<Rightarrow> u64 list \<Rightarrow> mem \<Rightarrow> system \<Rightarrow> (u32 \<times> mem \<times> system) option" where
  "warning dev stk buf fmt va m s = vprintf dev stk buf fmt va m s"

definition error :: "dev \<Rightarrow> u64 \<Rightarrow> u64 \<Rightarrow> u64 \<Rightarrow> u64 list \<Rightarrow> mem \<Rightarrow> system \<Rightarrow> (u32 \<times> mem \<times> system) option" where
  "error dev stk buf fmt va m s = vprintf dev stk buf fmt va m s"

text \<open>\<^verbatim>\<open>print_info\<close> and \<^verbatim>\<open>print_warn\<close>: the text in green or yellow; \<open>fmt\<close> is the address of their format.\<close>

definition info_format :: "u8 list" where
  "info_format = [27, 91, 51, 50, 109, 37, 115, 27, 91, 48, 109]"

definition warn_format :: "u8 list" where
  "warn_format = [27, 91, 51, 51, 109, 37, 115, 27, 91, 48, 109]"

definition print_info :: "dev \<Rightarrow> u64 \<Rightarrow> u64 \<Rightarrow> u64 \<Rightarrow> u64 \<Rightarrow> mem \<Rightarrow> system \<Rightarrow> (u32 \<times> mem \<times> system) option" where
  "print_info dev stk buf fmt info m s = printf dev stk buf fmt [info] (put_bytes m fmt (info_format @ [0])) s"

definition print_warn :: "dev \<Rightarrow> u64 \<Rightarrow> u64 \<Rightarrow> u64 \<Rightarrow> u64 \<Rightarrow> mem \<Rightarrow> system \<Rightarrow> (u32 \<times> mem \<times> system) option" where
  "print_warn dev stk buf fmt info m s = printf dev stk buf fmt [info] (put_bytes m fmt (warn_format @ [0])) s"

definition print_binstr ::
    "dev \<Rightarrow> u64 \<Rightarrow> u64 \<Rightarrow> u64 \<Rightarrow> u64 \<Rightarrow> u32 \<Rightarrow> mem \<Rightarrow> system \<Rightarrow> (u32 \<times> mem \<times> system) option" where
  "print_binstr dev stk buf fmt out x m s =
     printf dev stk buf fmt [out] (put_bytes (binstr x out m) fmt [37, 115, 0]) s"

subsection \<open>Character output as an interface\<close>

text \<open>
  A sink takes characters one at a time while it has room; \<open>sent\<close> is what it has taken.
\<close>

locale char_sink =
  fixes put :: "u8 \<Rightarrow> 's \<Rightarrow> 's option" and sent :: "'s \<Rightarrow> u8 list" and room :: "nat \<Rightarrow> 's \<Rightarrow> bool"
  assumes put_room: "room (Suc n) s \<Longrightarrow> \<exists>s'. put c s = Some s' \<and> sent s' = sent s @ [c] \<and> room n s'"
begin

fun put_all :: "u8 list \<Rightarrow> 's \<Rightarrow> 's option" where
  "put_all [] s = Some s"
| "put_all (c # cs) s = do { s \<leftarrow> put c s; put_all cs s }"

lemma put_all_sent:
  "room (length cs + n) s \<Longrightarrow> \<exists>s'. put_all cs s = Some s' \<and> sent s' = sent s @ cs \<and> room n s'"
proof (induction cs arbitrary: s)
  case (Cons c cs)
  then obtain s1 where "put c s = Some s1" "sent s1 = sent s @ [c]" "room (length cs + n) s1"
    using put_room [of "length cs + n" s c] by auto
  with Cons.IH [of s1] show ?case by auto
qed simp

end


text \<open>A device whose transmit buffer drains: polled often enough, it is not full.\<close>

definition drains :: "dev \<Rightarrow> bool" where
  "drains dev \<longleftrightarrow> (\<forall>h. \<exists>k. \<not> bit (dev (h @ replicate k (Rd UART0_FR)) UART0_FR) 5)"

lemma early_putc_polls:
  "\<not> bit (dev (h @ replicate k (Rd UART0_FR)) UART0_FR) 5 \<Longrightarrow>
     \<exists>j. uart_early_putc dev c h = Some (h @ replicate j (Rd UART0_FR) @ [Wr32 UART0_DR (ucast c)])"
proof (induction k arbitrary: h)
  case 0
  then show ?case
    by (subst uart_early_putc.simps) (auto simp: read32_def write32_def flag_clear intro: exI [of _ 1])
next
  case (Suc k)
  show ?case
  proof (cases "bit (dev h UART0_FR) 5")
    case True
    from Suc.IH [of "h @ [Rd UART0_FR]"] Suc.prems obtain j where
      "uart_early_putc dev c (h @ [Rd UART0_FR]) =
         Some ((h @ [Rd UART0_FR]) @ replicate j (Rd UART0_FR) @ [Wr32 UART0_DR (ucast c)])"
      by (auto simp flip: replicate_append_same)
    with True show ?thesis
      by (subst uart_early_putc.simps) (auto simp: read32_def flag_clear intro: exI [of _ "Suc j"])
  next
    case False
    then show ?thesis
      by (subst uart_early_putc.simps) (auto simp: read32_def write32_def flag_clear intro: exI [of _ 1])
  qed
qed

lemma sent_chars_polls [simp]: "sent_chars (replicate j (Rd a)) = []"
  by (induction j) simp_all

definition char_of :: "u32 \<Rightarrow> u8" where "char_of w = ucast w"

interpretation early: char_sink "uart_early_putc dev" "\<lambda>h. map char_of (sent_chars h)" "\<lambda>n h. drains dev" for dev
proof
  fix n h c assume "drains dev"
  then obtain k where "\<not> bit (dev (h @ replicate k (Rd UART0_FR)) UART0_FR) 5" by (auto simp: drains_def)
  from early_putc_polls [of dev h k, OF this, of c] \<open>drains dev\<close> show "\<exists>h'. uart_early_putc dev c h = Some h' \<and>
      map char_of (sent_chars h') = map char_of (sent_chars h) @ [c] \<and> drains dev"
    by (auto simp: char_of_def unsigned_ucast_eq take_bit_word_eq_self)
qed

lemma adv_putc_room:
  assumes ok: "uart_ok u" and room: "length (tx_queue u) + Suc n \<le> 1023"
  shows "\<exists>u' h'. uart_advance_putc dev c u h = Some (u', h') \<and> tx_queue u' = tx_queue u @ [c] \<and>
    uart_ok u' \<and> length (tx_queue u') + n \<le> 1023"
proof -
  have tx: "ring_ok (tx_buffer u) (tx_read_idx u) (tx_write_idx u)" using ok by (simp add: uart_ok_def)
  then have "(tx_write_idx u + 1) mod BUFFER_SIZE \<noteq> tx_read_idx u"
    using ring_full_iff [OF tx] room by (simp add: BUFFER_SIZE_def)
  from ring_put [OF tx this] this show ?thesis
    using ok room by (auto simp: uart_advance_putc_def uart_ok_def Let_def split: prod.splits)
qed

interpretation adv: char_sink "\<lambda>c (u, h). uart_advance_putc dev c u h" "\<lambda>(u, h). tx_queue u"
  "\<lambda>n (u, h). uart_ok u \<and> length (tx_queue u) + n \<le> 1023" for dev
  by unfold_locales (use adv_putc_room in fastforce)

text \<open>The console is a sink, whichever driver is selected.\<close>

definition console_room :: "dev \<Rightarrow> nat \<Rightarrow> system \<Rightarrow> bool" where
  "console_room dev n s \<longleftrightarrow> (case uart_op s of
     Some Advance_ops \<Rightarrow> uart_ok (serial s) \<and> length (tx_queue (serial s)) + n \<le> 1023
   | _ \<Rightarrow> drains dev)"

definition console_sent :: "system \<Rightarrow> u8 list" where
  "console_sent s = (case uart_op s of
     Some Advance_ops \<Rightarrow> tx_queue (serial s) | _ \<Rightarrow> map char_of (sent_chars (bus s)))"

definition putc_opt :: "dev \<Rightarrow> u8 \<Rightarrow> system \<Rightarrow> system option" where
  "putc_opt dev c s = (case putc dev c s of Ret s \<Rightarrow> Some s | Err e \<Rightarrow> None)"

lemma putc_console:
  assumes "uart_op s \<noteq> None" "console_room dev (Suc n) s"
  shows "\<exists>s'. putc_opt dev c s = Some s' \<and> console_sent s' = console_sent s @ [c] \<and>
    uart_op s' \<noteq> None \<and> console_room dev n s'"
proof (cases "uart_op s = Some Advance_ops")
  case True
  then show ?thesis
    using assms(2) adv.put_room [where s = "(serial s, bus s)" and n = n and c = c and dev = dev]
    by (auto simp: console_room_def console_sent_def putc_opt_def putc_def)
next
  case False
  then have "uart_op s = Some Early_ops" using assms(1) uart_ops.exhaust by (cases "uart_op s") auto
  then show ?thesis
    using assms(2) early.put_room [where s = "bus s" and c = c and dev = dev]
    by (auto simp: console_room_def console_sent_def putc_opt_def putc_def)
qed

interpretation con: char_sink "putc_opt dev" console_sent "\<lambda>n s. uart_op s \<noteq> None \<and> console_room dev n s" for dev
  by unfold_locales (use putc_console in blast)

lemma putstr_put_all: "cstr m a xs \<Longrightarrow> putstr_loop dev m a s = con.put_all dev xs s"
proof (induction xs arbitrary: a s)
  case (Cons x xs)
  then show ?case
    by (cases "putc dev x s") (simp_all add: putstr_loop.simps [of _ _ a] putc_opt_def [of dev x s])
qed (simp add: putstr_loop.simps)

text \<open>Output changes nothing but the console.\<close>

definition console_frame :: "system \<Rightarrow> system \<Rightarrow> bool" where
  "console_frame s s' \<longleftrightarrow> s'\<lparr>uart_op := uart_op s, serial := serial s, bus := bus s\<rparr> = s"

lemma console_frame_refl [simp]: "console_frame s s"
  by (simp add: console_frame_def)

lemma console_frame_trans: "console_frame s t \<Longrightarrow> console_frame t u \<Longrightarrow> console_frame s u"
  unfolding console_frame_def by (cases s; cases t; cases u) simp

lemma console_frameD:
  assumes "console_frame s s'"
  shows "tasks s' = tasks s" "g_handler_vec s' = g_handler_vec s" "kmem s' = kmem s"
    "pr_stk s' = pr_stk s" "pr_buf s' = pr_buf s" "debug_fmt s' = debug_fmt s"
  using assms unfolding console_frame_def by (cases s; cases s'; simp)+

lemma putc_frame: "putc dev c s = Ret s' \<Longrightarrow> console_frame s s'"
  by (auto simp: putc_def bind_res_def or_fault_def console_frame_def
      split: option.splits uart_ops.splits res.splits prod.splits)

lemma put_all_frame: "con.put_all dev xs s = Some s' \<Longrightarrow> console_frame s s'"
proof (induction xs arbitrary: s)
  case (Cons x xs)
  then obtain t where t: "putc_opt dev x s = Some t" "con.put_all dev xs t = Some s'"
    by (auto split: Option.bind_splits)
  then have "putc dev x s = Ret t" by (simp add: putc_opt_def split: res.splits)
  from putc_frame [OF this] Cons.IH [OF t(2)] show ?case by (rule console_frame_trans)
qed simp

lemma putstr_loop_frame: "putstr_loop dev m a s = Some s' \<Longrightarrow> console_frame s s'"
proof (rule putstr_loop.raw_induct [of "\<lambda>dev m a s r. console_frame s r"])
  fix putstr_loop dev m a s r
  assume IH: "\<And>dev m a s r. putstr_loop dev m a s = Some r \<Longrightarrow> console_frame s r"
    and "(if m a = 0 then Some s else case putc dev (m a) s of Err e \<Rightarrow> None | Ret t \<Rightarrow> putstr_loop dev m (a + 1) t) = Some r"
  then show "console_frame s r"
    by (auto split: if_splits res.splits dest!: IH putc_frame intro: console_frame_trans)
qed

lemma printf_frame: "printf dev stk buf fmt va m s = Some (r, m', s') \<Longrightarrow> console_frame s s'"
proof -
  assume "printf dev stk buf fmt va m s = Some (r, m', s')"
  then obtain m1 where "putstr_loop dev m1 buf (if uart_op s = None then s\<lparr>uart_op := Some Early_ops\<rparr> else s) = Some s'"
    by (auto simp: printf_def vprintf_def uart_putstr_def split: Option.bind_splits)
  from putstr_loop_frame [OF this] show ?thesis
    by (rule console_frame_trans [rotated]) (simp add: console_frame_def)
qed

lemma uart_putstr_sends:
  assumes "cstr m a xs" "console_room dev (length xs + n) s"
  shows "\<exists>s'. uart_putstr dev m a s = Some s' \<and> console_sent s' = console_sent s @ xs \<and> console_room dev n s'"
proof -
  define t where "t = (if uart_op s = None then s\<lparr>uart_op := Some Early_ops\<rparr> else s)"
  have t: "uart_op t \<noteq> None" "console_room dev (length xs + n) t" "console_sent t = console_sent s"
    using assms(2) by (auto simp: t_def console_room_def console_sent_def)
  from con.put_all_sent [where cs = xs and n = n and s = t and dev = dev] t show ?thesis
    using putstr_put_all [OF assms(1), of dev t] by (auto simp: uart_putstr_def t_def)
qed

lemma buffer_holds_takeWhile:
  assumes "buffer_holds m m' buf n stk out"
  shows "cstr m' buf (takeWhile (\<lambda>c. c \<noteq> 0) (take n out))"
proof -
  let ?xs = "takeWhile (\<lambda>c. c \<noteq> 0) (take n out)"
  have len: "length ?xs \<le> length (take n out)" by (rule length_takeWhile_le)
  have at: "?xs ! i = take n out ! i" "?xs ! i \<noteq> 0" if "i < length ?xs" for i
    using takeWhile_nth [OF that] set_takeWhileD [OF nth_mem [OF that]] by auto
  have e: "m' (buf + of_nat (length ?xs)) = 0"
  proof (cases "length ?xs < length (take n out)")
    case True
    then have "take n out ! length ?xs = 0" using nth_length_takeWhile by blast
    then show ?thesis using True assms by (auto simp: buffer_holds_def)
  next
    case False
    then have "length ?xs = length (take n out)" using len by linarith
    also have "\<dots> = min (length out) n" by simp
    finally have "length ?xs = min (length out) n" .
    then show ?thesis using assms by (simp add: buffer_holds_def)
  qed
  have "m' (buf + of_nat i) = ?xs ! i \<and> ?xs ! i \<noteq> 0" if "i < length ?xs" for i
  proof -
    have "m' (buf + of_nat i) = take n out ! i" using that len assms by (simp add: buffer_holds_def)
    then show ?thesis using at [OF that] by (simp only: simp_thms)
  qed
  then have "cstr m' buf (?xs @ [])" unfolding cstr_append using e by simp
  then show ?thesis by simp
qed

text \<open>A print that leaves room for \<open>n\<close> more characters, and what it does to the memory.\<close>

lemma printf_room:
  assumes "list_all (fmt_ok m buf 1023 stk) ds" "cstr m fmt (concat (map fmt_text ds))"
    and "off buf 1023 stk fmt (length (concat (map fmt_text ds)))" "clear buf 1023 stk 25"
    and "out = concat (map fmt_out ds)" "text = takeWhile (\<lambda>c. c \<noteq> 0) (take 1023 out)"
    and "console_room dev (length text + n) s"
  shows "\<exists>m' s'. printf dev stk buf fmt (concat (map fmt_args ds) @ va) m s = Some (of_nat (length out), m', s') \<and>
    console_sent s' = console_sent s @ text \<and> console_room dev n s' \<and>
    (\<forall>a. outside buf 1023 stk a \<longrightarrow> m' a = m a)"
proof -
  have n: "1023 = unat (BUFSZ - 1)" by (simp add: BUFSZ_def)
  obtain m' where m': "vsnprintf stk buf BUFSZ fmt (concat (map fmt_args ds) @ va) m = Some (of_nat (length out), m')"
      "buffer_holds m m' buf 1023 stk out"
    using vsnprintf_holds [OF assms(1-4) n assms(5), of va] by blast
  from uart_putstr_sends [OF buffer_holds_takeWhile [OF m'(2)]] assms(6,7) obtain s' where
    "uart_putstr dev m' buf s = Some s'" "console_sent s' = console_sent s @ text" "console_room dev n s'" by blast
  moreover have "\<forall>a. outside buf 1023 stk a \<longrightarrow> m' a = m a" using m'(2) unfolding buffer_holds_def by blast
  ultimately show ?thesis using m'(1) by (simp add: printf_def vprintf_def)
qed

text \<open>
  C14. \<^verbatim>\<open>printf\<close> on the console: for every format and matching arguments it returns the length
  of the formatted text and hands the text to the selected serial driver, in order, up to its
  first zero character and cut to 1023 characters, provided the driver has room: for the polled
  driver that the device drains, for the interrupt-driven one that its ring has space.
\<close>

theorem printf_console:
  assumes "list_all (fmt_ok m buf 1023 stk) ds" "cstr m fmt (concat (map fmt_text ds))"
    and "off buf 1023 stk fmt (length (concat (map fmt_text ds)))" "clear buf 1023 stk 25"
    and "out = concat (map fmt_out ds)" "text = takeWhile (\<lambda>c. c \<noteq> 0) (take 1023 out)"
    and "console_room dev (length text) s"
  shows "\<exists>m' s'. printf dev stk buf fmt (concat (map fmt_args ds) @ va) m s = Some (of_nat (length out), m', s') \<and>
    console_sent s' = console_sent s @ text"
  using printf_room [OF assms(1-6), of dev 0 s va] assms(7) by auto

text \<open>A console with the polled driver on a device that is never full.\<close>

definition demo_console :: system where
  "demo_console = \<lparr>tasks = demo, g_handler_vec = replicate NR_HANDLERS None, uart_op = Some Early_ops,
     serial = demo_uart, bus = [], gicv2 = \<lparr>irq_nr = 0\<rparr>, vgics = [],
     cntp_tval_el0 = (\<lambda>c. 0), cntp_ctl_el0 = (\<lambda>c. 0), kmem = (\<lambda>_. 0), pr_stk = 0x800, pr_buf = 0x300,
     debug_fmt = 0x100\<rparr>"

lemma clear_console: "clear 0x300 1023 0x800 25"
  unfolding clear_def
proof (intro allI impI)
  fix i :: nat assume i: "i \<le> 25"
  then have "(0x800 + of_nat i - 0x300 :: u64) = of_nat (0x500 + i)" by simp
  then show "1023 < unat (0x800 + of_nat i - 0x300 :: u64)"
    using i by (simp only:) (simp add: unat_of_nat del: of_nat_add)
qed

theorem printf_console_witness:
  "\<exists>m' s'. printf (\<lambda>h a. 0) 0x800 0x300 0x100 (concat (map fmt_args [Plain 72, Plain 105]) @ [])
       (put_bytes (\<lambda>_. 0) 0x100 [72, 105, 0]) demo_console = Some (of_nat (length [72, 105 :: u8]), m', s') \<and>
     console_sent s' = console_sent demo_console @ [72, 105]"
  using off_below [of "0x100" "Suc (Suc 0)" "0x300" "0x800" 1023]
  by (intro printf_console [OF _ _ _ clear_console])
    (simp_all add: put_bytes_def console_room_def drains_def demo_console_def)


end
