(* ===== verification/Exception.thy ===== *)
theory Exception
  imports Console
begin

text \<open>
  Exceptions and what they reach: the timer (\<^verbatim>\<open>timer/timer.c\<close>), the handlers of the three
  exception levels (\<^verbatim>\<open>exception/exception.c\<close>, \<^verbatim>\<open>exception_el2.c\<close>, \<^verbatim>\<open>exception_el3.c\<close>), the system
  calls (\<^verbatim>\<open>syscall/syscall.c\<close>) and the interrupts of the virtual machine (\<^verbatim>\<open>hyper/vm.c\<close>). An
  exception changes the state of the system and the trap frame it was entered with, or ends
  in a fault. Diagnostic output is left out: the messages of the handlers and of the
  initialisation routines are not part of the accesses recorded here. The output of the system
  call \<^verbatim>\<open>sys_debug\<close>, which is its purpose, is modelled.
\<close>

subsection \<open>Timer\<close>

definition TIMER_VECTOR :: u32 where "TIMER_VECTOR = 30"

definition handle_timer_interrupt ::
    "u32 \<Rightarrow> system \<Rightarrow> nat \<Rightarrow> trap_frame_t \<Rightarrow> (system \<times> trap_frame_t) res" where
  "handle_timer_interrupt smp_num s c sp =
     (let s = s\<lparr>cntp_tval_el0 := (cntp_tval_el0 s)(c := 100000)\<rparr> in
      bind_res (or_fault Null_pointer (timer_tick_schedule smp_num (tasks s) c (Some sp)))
        (\<lambda>(k, sw).
           let sp = (case sw of Switch_frame f \<Rightarrow> f | _ \<Rightarrow> sp);
               h = gic_set_ipriority 6 0xf0000000 (bus s);
               h = gic_set_ipriority 8 0x0000f000 h
           in Ret (s\<lparr>tasks := k, bus := h\<rparr>, sp)))"

definition timer_init_second :: "dev \<Rightarrow> nat \<Rightarrow> system \<Rightarrow> system" where
  "timer_init_second dev c s =
     (let h = gic_enable_int TIMER_VECTOR 0 (bus s);
          (_, h) = gic_get_enable dev TIMER_VECTOR h
      in s\<lparr>cntp_tval_el0 := (cntp_tval_el0 s)(c := 100000),
           cntp_ctl_el0 := (cntp_ctl_el0 s)(c := 0b1), bus := h\<rparr>)"

definition timer_init :: "dev \<Rightarrow> nat \<Rightarrow> system \<Rightarrow> system res" where
  "timer_init dev c s =
     (let s = s\<lparr>cntp_tval_el0 := (cntp_tval_el0 s)(c := 100000),
                cntp_ctl_el0 := (cntp_ctl_el0 s)(c := 0b1)\<rparr>
      in bind_res (irq_install TIMER_VECTOR Timer_interrupt s) (\<lambda>s.
           let h = gic_enable_int TIMER_VECTOR 0 (bus s);
               (_, h) = gic_get_enable dev TIMER_VECTOR h
           in Ret (s\<lparr>bus := h\<rparr>)))"

subsection \<open>Interrupts\<close>

definition call_handler ::
    "dev \<Rightarrow> u32 \<Rightarrow> irq_handler \<Rightarrow> system \<Rightarrow> nat \<Rightarrow> trap_frame_t \<Rightarrow> (system \<times> trap_frame_t) res" where
  "call_handler dev smp_num f s c ctx =
     (case f of
        Timer_interrupt \<Rightarrow> handle_timer_interrupt smp_num s c ctx
      | V_timer \<Rightarrow> Ret (s\<lparr>bus := v_timer_handler dev (bus s)\<rparr>, ctx)
      | Fake_console \<Rightarrow> Ret (s\<lparr>bus := fake_console dev (bus s)\<rparr>, ctx)
      | Uart_interrupt \<Rightarrow>
          bind_res (or_fault Loop_forever (uart_interrupt_handler dev (serial s) (bus s)))
            (\<lambda>(u, h). Ret (s\<lparr>serial := u, bus := h\<rparr>, ctx)))"

definition dispatch_irq ::
    "dev \<Rightarrow> u32 \<Rightarrow> u32 \<Rightarrow> system \<Rightarrow> nat \<Rightarrow> trap_frame_t \<Rightarrow> (system \<times> trap_frame_t) res" where
  "dispatch_irq dev smp_num vector s c ctx =
     (if unat vector < NR_HANDLERS
      then (case g_handler_vec s ! unat vector of
              None \<Rightarrow> Err Null_function
            | Some f \<Rightarrow> call_handler dev smp_num f s c ctx)
      else Err Out_of_bounds)"

definition handle_irq_exception ::
    "dev \<Rightarrow> u32 \<Rightarrow> system \<Rightarrow> nat \<Rightarrow> u64 \<Rightarrow> trap_frame_t \<Rightarrow> (system \<times> trap_frame_t) res" where
  "handle_irq_exception dev smp_num s c sp el1_ctx =
     bind_res (or_fault Null_pointer (save_cpu_ctx (tasks s) c sp el1_ctx)) (\<lambda>k.
       let s = s\<lparr>tasks := k\<rparr>;
           (iar, h) = gic_read_iar dev (bus s);
           vector = gic_iar_irqnr iar;
           h = gic_write_eoir iar h
       in dispatch_irq dev smp_num vector (s\<lparr>bus := h\<rparr>) c el1_ctx)"

definition handle_irq_exception_el2 ::
    "dev \<Rightarrow> u32 \<Rightarrow> system \<Rightarrow> nat \<Rightarrow> u64 \<Rightarrow> trap_frame_t \<Rightarrow> (system \<times> trap_frame_t) res" where
  "handle_irq_exception_el2 dev smp_num s c sp context =
     (let (iar, h) = gic_read_iar dev (bus s);
          vector = gic_iar_irqnr iar;
          h = gic_write_eoir iar h;
          h = gic_write_dir iar h;
          s = s\<lparr>bus := h\<rparr>
      in bind_res (or_fault Null_pointer (save_cpu_ctx (tasks s) c sp context)) (\<lambda>k.
           dispatch_irq dev smp_num vector (s\<lparr>tasks := k\<rparr>) c context))"

definition current_spxel_irq ::
    "dev \<Rightarrow> u32 \<Rightarrow> system \<Rightarrow> nat \<Rightarrow> u64 \<Rightarrow> trap_frame_t \<Rightarrow> (system \<times> trap_frame_t) res" where
  "current_spxel_irq dev smp_num s c sp ctx = handle_irq_exception_el2 dev smp_num s c sp ctx"

subsection \<open>System calls\<close>

definition NR_SYSCALL :: nat where "NR_SYSCALL = 256"

definition SYS_putc :: nat where "SYS_putc = 0"

definition SYS_getc :: nat where "SYS_getc = 1"

definition SYS_debug :: nat where "SYS_debug = 255"

text \<open>The argument of a system call is the trap frame: its first byte, its first two words.\<close>

definition sys_putc :: "dev \<Rightarrow> trap_frame_t \<Rightarrow> system \<Rightarrow> (u64 \<times> system) res" where
  "sys_putc dev args s = bind_res (putc dev (ucast (frame_reg args 0)) s) (\<lambda>s. Ret (0, s))"

definition sys_getc :: "dev \<Rightarrow> trap_frame_t \<Rightarrow> system \<Rightarrow> (u64 \<times> system) res" where
  "sys_getc dev args s = bind_res (getc dev s) (\<lambda>(c, s). Ret (ucast c, s))"

text \<open>The format \<^verbatim>\<open>"[syscall] sys_debug: %c, %c\n"\<close>; a print that does not return is an endless loop.\<close>

definition debug_format :: "u8 list" where
  "debug_format = [91, 115, 121, 115, 99, 97, 108, 108, 93, 32, 115, 121, 115, 95, 100, 101, 98, 117, 103, 58, 32,
     37, 99, 44, 32, 37, 99, 10]"

definition sys_debug :: "dev \<Rightarrow> trap_frame_t \<Rightarrow> system \<Rightarrow> (u64 \<times> system) res" where
  "sys_debug dev args s =
     bind_res (or_fault Loop_forever (printf dev (pr_stk s) (pr_buf s) (debug_fmt s)
         [frame_reg args 0, frame_reg args 1] (kmem s) s))
       (\<lambda>(r, m, s). Ret (0, s\<lparr>kmem := m\<rparr>))"

definition syscall_table ::
    "nat \<Rightarrow> (dev \<Rightarrow> trap_frame_t \<Rightarrow> system \<Rightarrow> (u64 \<times> system) res) option" where
  "syscall_table n =
     (if n = SYS_putc then Some sys_putc else if n = SYS_getc then Some sys_getc
      else if n = SYS_debug then Some sys_debug else None)"

subsection \<open>Synchronous exceptions\<close>

definition esr_class :: "u32 \<Rightarrow> u32" where
  "esr_class esr = signed_drop_bit 26 esr AND 0b111111"

definition handle_sync_exception ::
    "dev \<Rightarrow> system \<Rightarrow> nat \<Rightarrow> u64 \<Rightarrow> trap_frame_t \<Rightarrow> u32 \<Rightarrow> (system \<times> trap_frame_t) res" where
  "handle_sync_exception dev s c sp el1_ctx esr =
     (let ec = esr_class esr in
      bind_res (or_fault Null_pointer (save_cpu_ctx (tasks s) c sp el1_ctx)) (\<lambda>k.
        let s = s\<lparr>tasks := k\<rparr> in
        if ec = 0x15
        then (let n = unat (frame_reg el1_ctx 8) in
              if n < NR_SYSCALL
              then (case syscall_table n of
                      None \<Rightarrow> Err Null_function
                    | Some func \<Rightarrow>
                        bind_res (func dev el1_ctx s) (\<lambda>(ret, s). Ret (s, set_frame_reg el1_ctx 0 ret)))
              else Err Out_of_bounds)
        else if ec = 0x17 then Ret (s, el1_ctx)
        else Err Loop_forever))"


definition handle_sync_exception_el3 :: "trap_frame_t \<Rightarrow> u32 \<Rightarrow> trap_frame_t res" where
  "handle_sync_exception_el3 context esr =
     (if esr_class esr = 0x17 then Ret context else Err Loop_forever)"

definition handle_irq_exception_el3 :: "trap_frame_t \<Rightarrow> trap_frame_t res" where
  "handle_irq_exception_el3 context = Ret context"

definition invalid_exception :: "trap_frame_t \<Rightarrow> trap_frame_t res" where
  "invalid_exception el1_ctx = Ret el1_ctx"

definition invalid_exception_el2 :: "trap_frame_t \<Rightarrow> trap_frame_t res" where
  "invalid_exception_el2 context = Err Loop_forever"

definition invalid_exception_el3 :: "trap_frame_t \<Rightarrow> trap_frame_t res" where
  "invalid_exception_el3 context = Ret context"

subsection \<open>Interrupts of the virtual machine\<close>

definition vgic_register :: "nat \<Rightarrow> u32 \<Rightarrow> u32 \<Rightarrow> system \<Rightarrow> system res" where
  "vgic_register i p v s =
     bind_res (or_fault Out_of_bounds (virtual_gic_register_int (vgics s ! i) p v))
       (\<lambda>g. Ret (s\<lparr>vgics := (vgics s)[i := g]\<rparr>))"

definition vm_init :: "system \<Rightarrow> system res" where
  "vm_init s =
     bind_res (vgic_register 0 HV_TIMER_VECTOR HV_TIMER_VECTOR s) (\<lambda>s.
     bind_res (vgic_register 0 PL011_INT PL011_INT s) (\<lambda>s.
     bind_res (irq_install HV_TIMER_VECTOR V_timer s) (\<lambda>s.
     irq_install PL011_INT Fake_console s)))"

subsection \<open>The timer interrupt end to end\<close>

lemma do_schedule_dispatches:
  assumes inv: "sched_inv smp k" and c: "c < unat smp" and cur: "current k c = Some t"
    and more: "smp < task_count k"
  obtains u where "u \<noteq> t" "u < unat (task_count k)" "t < unat (task_count k)"
    "do_schedule smp k c (Some f) = Some (dispatch k c t u, Switch_frame (ctx_of k u))"
    "sched_inv smp (dispatch k c t u)"
proof -
  obtain j where j: "first_ready (task_list k) (unat (task_count k)) t 1 = Some j" and
    d: "do_schedule smp k c (Some f) = (let u = (t + j) mod unat (task_count k)
          in Some (dispatch k c t u, switch_to k (Some f) t u))"
    using sched_inv_pick [OF inv c cur more] .
  let ?u = "(t + j) mod unat (task_count k)"
  have t: "t < unat (task_count k)" "state_of k t = RUNNING" using sched_inv_current [OF inv c] cur by auto
  have u: "state_of k ?u \<noteq> RUNNING" using j by (simp add: first_ready_Some_iff)
  have "sched_inv smp (dispatch k c t ?u)" using sched_inv_dispatch [OF inv c cur _ u] t by simp
  moreover have "?u \<noteq> t" using u t by auto
  ultimately show ?thesis using d t that [of ?u] by (simp add: Let_def switch_to_def)
qed

text \<open>
  C26. The timer interrupt that ends a time slice preempts: the interrupted frame is saved as the
  context of the old task, the frame to return with is the saved context of another task,
  which becomes the current one, the interrupt is acknowledged before the handler runs, the
  timer is armed again, and the scheduler's invariant holds.
\<close>

theorem timer_irq_preempts:
  assumes "sched_inv smp (tasks s)" "c < unat smp" "current (tasks s) c = Some t"
    and "smp < task_count (tasks s)" "tcb_counter (task_list (tasks s) ! t) = 1"
    and "gic_iar_irqnr (ucast (dev (bus s) GICC_IAR)) = TIMER_VECTOR"
    and "g_handler_vec s ! 30 = Some Timer_interrupt"
  shows "\<exists>s' u es. handle_irq_exception dev smp s c a f = Ret (s', ctx_of (tasks s) u) \<and> u \<noteq> t \<and>
     current (tasks s') c = Some u \<and> state_of (tasks s') u = RUNNING \<and>
     state_of (tasks s') t = WAITING \<and> ctx_of (tasks s') t = f \<and>
     sched_inv smp (tasks s') \<and> cntp_tval_el0 s' c = 100000 \<and>
     bus s' = bus s @ [Rd GICC_IAR, Wr32 GICC_EOIR (ucast (dev (bus s) GICC_IAR))] @ es"
proof -
  let ?k = "tasks s"
  obtain k1 where k1: "save_cpu_ctx ?k c a f = Some k1" using assms(3) by (simp add: save_cpu_ctx_def)
  note sv = save_cpu_ctx_ctx [OF assms(1-3) k1]
  have tl: "task_list k1 = task_list ?k" using k1 assms(3) by (auto simp: save_cpu_ctx_def)
  let ?k2 = "upd_task t (\<lambda>t. t\<lparr>tcb_counter := SYS_TASK_TICK\<rparr>)
               (upd_task t (\<lambda>t. t\<lparr>tcb_counter := tcb_counter t - 1\<rparr>) k1)"
  have inv2: "sched_inv smp ?k2" using save_cpu_ctx_inv [OF assms(1) k1] by (simp add: sched_inv_counter)
  have cur1: "current k1 c = Some t" using sv(3) assms(3) by (simp add: fun_eq_iff)
  have cur2: "current ?k2 c = Some t" using cur1 by simp
  have more2: "smp < task_count ?k2" using sv(4) assms(4) by simp
  obtain u where u: "u \<noteq> t" "u < unat (task_count ?k2)" "t < unat (task_count ?k2)"
      "do_schedule smp ?k2 c (Some f) = Some (dispatch ?k2 c t u, Switch_frame (ctx_of ?k2 u))"
      "sched_inv smp (dispatch ?k2 c t u)"
    by (rule do_schedule_dispatches [OF inv2 assms(2) cur2 more2])
  have len: "t < length (task_list k1)" "u < length (task_list k1)"
    using u(2,3) inv2 by (simp_all add: sched_inv_def tasks_wf_def)
  have ctx: "ctx_of ?k2 u = ctx_of ?k u" "ctx_of (dispatch ?k2 c t u) t = f"
    using sv(1,2) u(1) by simp_all
  have tick: "timer_tick_schedule smp k1 c (Some f) = Some (dispatch ?k2 c t u, Switch_frame (ctx_of ?k u))"
    using u(4) cur1 len assms(5) ctx(1) by (simp add: timer_tick_schedule_def Let_def tl)
  have st: "state_of (dispatch ?k2 c t u) u = RUNNING" "state_of (dispatch ?k2 c t u) t = WAITING"
    using len u(1) by (simp_all add: Let_def nth_list_update)
  have vec: "unat TIMER_VECTOR = 30" by (simp add: TIMER_VECTOR_def)
  let ?es = "[Wr32 (GICD_BASE_ADDR + ucast (0x400 + 0x004 * 6 :: u32)) 0xf0000000,
    Wr32 (GICD_BASE_ADDR + ucast (0x400 + 0x004 * 8 :: u32)) 0xf000]"
  let ?s' = "s\<lparr>tasks := dispatch ?k2 c t u, cntp_tval_el0 := (cntp_tval_el0 s)(c := 100000),
    bus := bus s @ [Rd GICC_IAR, Wr32 GICC_EOIR (ucast (dev (bus s) GICC_IAR))] @ ?es\<rparr>"
  have "handle_irq_exception dev smp s c a f = Ret (?s', ctx_of ?k u)"
    using k1 tick assms(6,7) vec
    by (simp add: handle_irq_exception_def gic_read_iar_def gic_write_eoir_def read32_def write32_def
        dispatch_irq_def NR_HANDLERS_def call_handler_def handle_timer_interrupt_def gic_set_ipriority_def Let_def)
  then show ?thesis using u(1,5) st ctx
    by (intro exI [of _ ?s'] exI [of _ u] exI [of _ ?es]) simp
qed


subsection \<open>Faults and outcomes\<close>

text \<open>
  The interrupt table has 512 entries and the acknowledge register reports ten bits: an
  identifier of 512 or more, the spurious identifier 1023 among them, makes the handler read
  outside the table at both exception levels, and an identifier nothing was installed for
  calls a null function.
\<close>

theorem irq_vector_faults:
  assumes "save_cpu_ctx (tasks s) c a f = Some k"
    and "n = unat (gic_iar_irqnr (ucast (dev (bus s) GICC_IAR)))"
    and "512 \<le> n \<or> g_handler_vec s ! n = None"
  shows "handle_irq_exception dev smp s c a f = Err (if 512 \<le> n then Out_of_bounds else Null_function) \<and>
     handle_irq_exception_el2 dev smp s c a f = Err (if 512 \<le> n then Out_of_bounds else Null_function)"
  using assms
  by (auto simp: handle_irq_exception_def handle_irq_exception_el2_def gic_read_iar_def read32_def
      dispatch_irq_def NR_HANDLERS_def Let_def)

text \<open>
  C28. A system call: the number in \<open>x8\<close> selects the call; a returning call changes no register of
  the frame but \<open>x0\<close>, which is 0 unless the call reads a character, and no task. A call that does not
  return ends in exactly one way: the three calls in an endless wait for the serial port, of which
  the two that do not select a driver themselves go through a null pointer when none is selected; every
  number without an entry calls a null function, and every number past the table reads outside of it.
\<close>

theorem svc_dispatch:
  assumes "save_cpu_ctx (tasks s) c a f = Some k" "esr_class esr = 0x15" "wf_frame f" "n = unat (frame_reg f 8)"
  shows "case handle_sync_exception dev s c a f esr of
     Ret (s', f') \<Rightarrow> n \<in> {SYS_putc, SYS_getc, SYS_debug} \<and> tasks s' = k \<and>
       (\<exists>v. (n \<noteq> SYS_getc \<longrightarrow> v = 0) \<and> (\<forall>i < 34. frame_reg f' i = (if i = 0 then v else frame_reg f i)))
   | Err e \<Rightarrow>
       e = (if n = SYS_debug then Loop_forever
            else if n \<in> {SYS_putc, SYS_getc} then if uart_op s = None then Null_pointer else Loop_forever
            else if n < NR_SYSCALL then Null_function else Out_of_bounds)"
proof -
  have fr: "frame_reg (set_frame_reg f 0 w) i = (if i = 0 then w else frame_reg f i)" if "i < 34" for w i
    using frame_reg_set [OF assms(3), of 0] that by simp
  have p: "tasks s' = tasks s" if "putc dev x s = Ret s'" for x s s'
    using putc_frame [OF that] by (rule console_frameD)
  have d: "tasks s' = tasks s" if "printf dev stk buf fmt va m s = Some (r, m', s')" for stk buf fmt va m s r m' s'
    using printf_frame [OF that] by (rule console_frameD)
  have g: "tasks s' = tasks s" if "getc dev s = Ret (x, s')" for x s s'
    using that by (auto simp: getc_def bind_res_def split: option.splits uart_ops.splits res.splits prod.splits)
  have pe: "x = (if uart_op s = None then Null_pointer else Loop_forever)" if "putc dev ch s = Err x" for ch s x
    using that by (auto simp: putc_def bind_res_def or_fault_def
        split: option.splits uart_ops.splits res.splits prod.splits)
  have ge: "x = (if uart_op s = None then Null_pointer else Loop_forever)" if "getc dev s = Err x" for s x
    using that by (auto simp: getc_def bind_res_def or_fault_def
        split: option.splits uart_ops.splits res.splits prod.splits)
  consider "n = SYS_putc" | "n = SYS_getc" | "n = SYS_debug" | "n \<notin> {SYS_putc, SYS_getc, SYS_debug}" by blast
  then show ?thesis
  proof cases
    case 1
    then show ?thesis using assms(1,2,4) p [of _ "s\<lparr>tasks := k\<rparr>"] pe [of _ "s\<lparr>tasks := k\<rparr>"]
      by (auto simp: handle_sync_exception_def fr Let_def syscall_table_def sys_putc_def
        SYS_putc_def SYS_getc_def SYS_debug_def NR_SYSCALL_def bind_res_def split: res.splits)
  next
    case 2
    show ?thesis
    proof (cases "getc dev (s\<lparr>tasks := k\<rparr>)")
      case (Ret x)
      obtain ch s' where x: "x = (ch, s')" by (cases x)
      with Ret 2 have "handle_sync_exception dev s c a f esr = Ret (s', set_frame_reg f 0 (ucast ch))"
        using assms(1,2,4) by (simp add: handle_sync_exception_def Let_def syscall_table_def sys_getc_def
            SYS_putc_def SYS_getc_def NR_SYSCALL_def)
      then show ?thesis using 2 g [of "s\<lparr>tasks := k\<rparr>"] Ret x by (auto simp: fr)
    next
      case (Err x)
      with 2 have "handle_sync_exception dev s c a f esr = Err x"
        using assms(1,2,4) by (simp add: handle_sync_exception_def Let_def syscall_table_def sys_getc_def
            SYS_putc_def SYS_getc_def NR_SYSCALL_def)
      then show ?thesis using 2 ge [OF Err] by (simp add: SYS_getc_def SYS_debug_def)
    qed
  next
    case 3
    then show ?thesis using assms(1,2,4) d [of _ _ _ _ _ "s\<lparr>tasks := k\<rparr>"]
      by (auto simp: handle_sync_exception_def fr Let_def syscall_table_def sys_debug_def or_fault_def
        SYS_putc_def SYS_getc_def SYS_debug_def NR_SYSCALL_def bind_res_def split: res.splits prod.splits option.splits)
  next
    case 4
    then show ?thesis using assms(1,2,4)
      by (auto simp: handle_sync_exception_def Let_def syscall_table_def)
  qed
qed

text \<open>The text of the debug call, for the two characters in \<open>x0\<close> and \<open>x1\<close>.\<close>

definition debug_directives :: "u64 \<Rightarrow> u64 \<Rightarrow> directive list" where
  "debug_directives x y = map Plain (take 21 debug_format) @ [Chr x, Plain 44, Plain 32, Chr y, Plain 10]"

definition debug_text :: "u64 \<Rightarrow> u64 \<Rightarrow> u8 list" where
  "debug_text x y = takeWhile (\<lambda>c. c \<noteq> 0) (take 21 debug_format @ [ucast x, 44, 32, ucast y, 10])"

lemma debug_directives_texts:
  "concat (map fmt_text (debug_directives x y)) = debug_format"
  "concat (map fmt_args (debug_directives x y)) = [x, y]"
  "list_all (fmt_ok m buf n stk) (debug_directives x y)"
  "debug_text x y = takeWhile (\<lambda>c. c \<noteq> 0) (take 1023 (concat (map fmt_out (debug_directives x y))))"
  by (simp_all add: debug_directives_def debug_format_def debug_text_def)

text \<open>
  C29. The debug call, from the trap to the serial line: with its format in memory apart from the local
  arrays of the print, and room on the console, it returns 0 in \<open>x0\<close> and no other register changed, and
  has handed exactly its text to the selected serial driver, the two characters taken from \<open>x0\<close> and
  \<open>x1\<close>; the text ends early at a character 0. No task and no byte outside of the local arrays changes.
\<close>

theorem svc_debug_prints:
  assumes "save_cpu_ctx (tasks s) c a f = Some k" "esr_class esr = 0x15" "unat (frame_reg f 8) = SYS_debug"
    and "clear (pr_buf s) 1023 (pr_stk s) 25" "cstr (kmem s) (debug_fmt s) debug_format"
    and "off (pr_buf s) 1023 (pr_stk s) (debug_fmt s) (length debug_format)"
    and "text = debug_text (frame_reg f 0) (frame_reg f 1)" "console_room dev (length text) s"
  shows "\<exists>s'. handle_sync_exception dev s c a f esr = Ret (s', set_frame_reg f 0 0) \<and>
     console_sent s' = console_sent s @ text \<and> tasks s' = k \<and>
     (\<forall>x. outside (pr_buf s) 1023 (pr_stk s) x \<longrightarrow> kmem s' x = kmem s x)"
proof -
  let ?ds = "debug_directives (frame_reg f 0) (frame_reg f 1)" and ?s = "s\<lparr>tasks := k\<rparr>"
  have room: "console_room dev (length text + 0) ?s"
    using assms(8) by (simp add: console_room_def split: option.splits uart_ops.splits)
  have "list_all (fmt_ok (kmem s) (pr_buf s) 1023 (pr_stk s)) ?ds" "cstr (kmem s) (debug_fmt s) (concat (map fmt_text ?ds))"
    "off (pr_buf s) 1023 (pr_stk s) (debug_fmt s) (length (concat (map fmt_text ?ds)))" "clear (pr_buf s) 1023 (pr_stk s) 25"
    using assms(4-6) by (simp_all only: debug_directives_texts)
  from printf_room [OF this refl _ room, of "[]"] obtain r m' s' where p:
    "printf dev (pr_stk s) (pr_buf s) (debug_fmt s) [frame_reg f 0, frame_reg f 1] (kmem s) ?s = Some (r, m', s')"
    "console_sent s' = console_sent ?s @ text" "\<forall>x. outside (pr_buf s) 1023 (pr_stk s) x \<longrightarrow> m' x = kmem s x"
    unfolding assms(7) debug_directives_texts(2,4) append_Nil2 by blast
  have "tasks s' = k" using console_frameD(1) [OF printf_frame [OF p(1)]] by simp
  moreover have "console_sent ?s = console_sent s" "console_sent (s'\<lparr>kmem := m'\<rparr>) = console_sent s'"
    by (simp_all add: console_sent_def split: option.splits uart_ops.splits)
  moreover have "handle_sync_exception dev s c a f esr = Ret (s'\<lparr>kmem := m'\<rparr>, set_frame_reg f 0 0)"
    using assms(1-3) p(1) by (simp add: handle_sync_exception_def Let_def syscall_table_def sys_debug_def
        SYS_putc_def SYS_getc_def SYS_debug_def NR_SYSCALL_def)
  ultimately show ?thesis using p(2,3) by (intro exI [of _ "s'\<lparr>kmem := m'\<rparr>"]) simp
qed



subsection \<open>Witnesses\<close>

definition demo_sys :: system where
  "demo_sys = \<lparr>tasks = demo_last, g_handler_vec = (replicate NR_HANDLERS None)[30 := Some Timer_interrupt],
     uart_op = Some Advance_ops, serial = demo_uart, bus = [], gicv2 = \<lparr>irq_nr = 0\<rparr>, vgics = [],
     cntp_tval_el0 = (\<lambda>c. 0), cntp_ctl_el0 = (\<lambda>c. 0), kmem = put_bytes (\<lambda>_. 0) 0x100 (debug_format @ [0]),
     pr_stk = 0x800, pr_buf = 0x300, debug_fmt = 0x100\<rparr>"

lemma demo_sys_saved:
  "save_cpu_ctx (tasks demo_sys) 0 0 f = Some (upd_cpu 0 (\<lambda>p. p\<lparr>cpu_ctx := f, cpu_pctx := 0\<rparr>) demo_last)"
  using demo_len by (simp add: demo_sys_def save_cpu_ctx_def demo_last_def demo_task demo_values MAX_TASKS_def)

theorem timer_irq_preempts_witness:
  "\<exists>s' u es. handle_irq_exception (\<lambda>h a. 30) 1 demo_sys 0 0 demo_frame = Ret (s', ctx_of (tasks demo_sys) u) \<and> u \<noteq> 0 \<and>
     current (tasks s') 0 = Some u \<and> state_of (tasks s') u = RUNNING \<and>
     state_of (tasks s') 0 = WAITING \<and> ctx_of (tasks s') 0 = demo_frame \<and>
     sched_inv 1 (tasks s') \<and> cntp_tval_el0 s' 0 = 100000 \<and>
     bus s' = bus demo_sys @ [Rd GICC_IAR, Wr32 GICC_EOIR (ucast ((\<lambda>h a. 30 :: u64) (bus demo_sys) GICC_IAR))] @ es"
  by (rule timer_irq_preempts)
    (simp_all add: demo_sys_def demo_last_inv [unfolded demo_last_def, simplified] demo_last_def demo_values demo_len
      MAX_TASKS_def NR_HANDLERS_def gic_iar_irqnr_def GICC_IAR_INT_ID_MASK_def TIMER_VECTOR_def)

theorem irq_vector_faults_witness:
  "handle_irq_exception (\<lambda>h a. 1023) 1 demo_sys 0 0 demo_frame = Err (if 512 \<le> (1023 :: nat) then Out_of_bounds else Null_function) \<and>
   handle_irq_exception_el2 (\<lambda>h a. 1023) 1 demo_sys 0 0 demo_frame = Err (if 512 \<le> (1023 :: nat) then Out_of_bounds else Null_function)"
  by (rule irq_vector_faults [OF demo_sys_saved]) (simp_all add: gic_iar_irqnr_def GICC_IAR_INT_ID_MASK_def)

theorem svc_dispatch_witness:
  "case handle_sync_exception (\<lambda>h a. 0) demo_sys 0 0 demo_frame 0x56000000 of
     Ret (s', f') \<Rightarrow> (7 :: nat) \<in> {SYS_putc, SYS_getc, SYS_debug} \<and>
       tasks s' = upd_cpu 0 (\<lambda>p. p\<lparr>cpu_ctx := demo_frame, cpu_pctx := 0\<rparr>) demo_last \<and>
       (\<exists>v. (7 \<noteq> SYS_getc \<longrightarrow> v = 0) \<and> (\<forall>i < 34. frame_reg f' i = (if i = 0 then v else frame_reg demo_frame i)))
   | Err e \<Rightarrow>
       e = (if 7 = SYS_debug then Loop_forever
            else if 7 \<in> {SYS_putc, SYS_getc} then if uart_op demo_sys = None then Null_pointer else Loop_forever
            else if 7 < NR_SYSCALL then Null_function else Out_of_bounds)"
  by (rule svc_dispatch [OF demo_sys_saved])
    (simp_all add: esr_class_def wf_frame_def demo_frame_def signed_drop_bit_small frame_reg_def NUM_REGS_def)

text \<open>The debug call with the characters A and B.\<close>

definition debug_frame :: trap_frame_t where
  "debug_frame = demo_frame\<lparr>tf_r := (tf_r demo_frame)[0 := 65, 1 := 66, 8 := 255]\<rparr>"

theorem svc_debug_prints_witness:
  "\<exists>s'. handle_sync_exception (\<lambda>h a. 0) (demo_sys\<lparr>uart_op := Some Early_ops\<rparr>) 0 0 debug_frame 0x56000000 =
       Ret (s', set_frame_reg debug_frame 0 0) \<and>
     console_sent s' = console_sent (demo_sys\<lparr>uart_op := Some Early_ops\<rparr>) @ debug_text (frame_reg debug_frame 0) (frame_reg debug_frame 1) \<and>
     tasks s' = upd_cpu 0 (\<lambda>p. p\<lparr>cpu_ctx := debug_frame, cpu_pctx := 0\<rparr>) demo_last \<and>
     (\<forall>x. outside 0x300 1023 0x800 x \<longrightarrow> kmem s' x = kmem demo_sys x)"
proof -
  let ?s = "demo_sys\<lparr>uart_op := Some Early_ops\<rparr>"
  have "save_cpu_ctx (tasks ?s) 0 0 debug_frame = Some (upd_cpu 0 (\<lambda>p. p\<lparr>cpu_ctx := debug_frame, cpu_pctx := 0\<rparr>) demo_last)"
    using demo_sys_saved [of debug_frame] by simp
  moreover have "esr_class 0x56000000 = 0x15" by (simp add: esr_class_def signed_drop_bit_small)
  moreover have "unat (frame_reg debug_frame 8) = SYS_debug"
    by (simp add: frame_reg_def debug_frame_def demo_frame_def NUM_REGS_def SYS_debug_def)
  moreover have "clear (pr_buf ?s) 1023 (pr_stk ?s) 25" using clear_console by (simp add: demo_sys_def)
  moreover have "cstr (kmem ?s) (debug_fmt ?s) debug_format"
    by (simp add: demo_sys_def debug_format_def put_bytes_def)
  moreover have "off (pr_buf ?s) 1023 (pr_stk ?s) (debug_fmt ?s) (length debug_format)"
    using off_below [of "0x100" "length debug_format" "0x300" "0x800" 1023] by (simp add: demo_sys_def debug_format_def)
  moreover have "console_room (\<lambda>h a. 0) n ?s" for n by (simp add: console_room_def drains_def)
  ultimately show ?thesis using svc_debug_prints [of ?s 0 0 debug_frame _ "0x56000000" _ "\<lambda>h a. 0"]
    by (simp add: demo_sys_def)
qed


end
