(* ===== verification/Spinlock.thy ===== *)
theory Spinlock
  imports Prelude
begin

text \<open>
  The spin lock (\<^verbatim>\<open>spinlock/spinlock.S\<close>, \<^verbatim>\<open>include/spinlock.h\<close>) as a step relation of any number of
  cores. One step is one instruction of one core. A load-exclusive arms the exclusive monitor
  of its core for the lock variable; a store-exclusive succeeds only while the monitor is armed
  and may fail even then; every successful store to the variable disarms all monitors. These are
  the architecture's rules for exclusive accesses. Accesses to the variable are ordered by their
  acquire and release forms, so memory is a single value.
\<close>

subsection \<open>State and instructions\<close>

text \<open>
  The position of a core: outside of the lock operations, at the instructions of \<^verbatim>\<open>spin_lock\<close>
  (load, test, store, test of the status), at those of \<^verbatim>\<open>spin_trylock\<close>, holding the lock, or with
  the answer 1 of a failed \<^verbatim>\<open>spin_trylock\<close>.
\<close>

datatype lock_pc =
    Idle | Ldaxr | Test u32 | Stlxr | Status u32
  | Try_ldaxr | Try_test u32 | Try_stlxr | Try_status u32 | Try_failed
  | Holding | Stlr

record lock_state =
  lock :: u32
  monitor :: "nat \<Rightarrow> bool"
  pcs :: "nat \<Rightarrow> lock_pc"

definition spinlock_init :: "lock_state" where
  "spinlock_init = \<lparr>lock = 0, monitor = (\<lambda>_. False), pcs = (\<lambda>_. Idle)\<rparr>"

definition jump :: "nat \<Rightarrow> lock_pc \<Rightarrow> lock_state \<Rightarrow> lock_state" where
  "jump i p s = s\<lparr>pcs := (pcs s)(i := p)\<rparr>"

definition load_excl :: "nat \<Rightarrow> lock_state \<Rightarrow> lock_state" where
  "load_excl i s = s\<lparr>monitor := (monitor s)(i := True)\<rparr>"

definition store :: "u32 \<Rightarrow> lock_state \<Rightarrow> lock_state" where
  "store v s = s\<lparr>lock := v, monitor := (\<lambda>_. False)\<rparr>"

definition disarm :: "nat \<Rightarrow> lock_state \<Rightarrow> lock_state" where
  "disarm i s = s\<lparr>monitor := (monitor s)(i := False)\<rparr>"

inductive lock_step :: "nat \<Rightarrow> lock_state \<Rightarrow> lock_state \<Rightarrow> bool" for i where
  call_lock: "pcs s i = Idle \<Longrightarrow> lock_step i s (jump i Ldaxr s)"
| ldaxr: "pcs s i = Ldaxr \<Longrightarrow> lock_step i s (jump i (Test (lock s)) (load_excl i s))"
| test_taken: "pcs s i = Test v \<Longrightarrow> v \<noteq> 0 \<Longrightarrow> lock_step i s (jump i Ldaxr s)"
| test_free: "pcs s i = Test 0 \<Longrightarrow> lock_step i s (jump i Stlxr s)"
| stlxr_ok: "pcs s i = Stlxr \<Longrightarrow> monitor s i \<Longrightarrow> lock_step i s (jump i (Status 0) (store 1 s))"
| stlxr_fail: "pcs s i = Stlxr \<Longrightarrow> lock_step i s (jump i (Status 1) (disarm i s))"
| status_retry: "pcs s i = Status v \<Longrightarrow> v \<noteq> 0 \<Longrightarrow> lock_step i s (jump i Ldaxr s)"
| status_ok: "pcs s i = Status 0 \<Longrightarrow> lock_step i s (jump i Holding s)"
| call_try: "pcs s i = Idle \<Longrightarrow> lock_step i s (jump i Try_ldaxr s)"
| try_ldaxr: "pcs s i = Try_ldaxr \<Longrightarrow> lock_step i s (jump i (Try_test (lock s)) (load_excl i s))"
| try_taken: "pcs s i = Try_test v \<Longrightarrow> v \<noteq> 0 \<Longrightarrow> lock_step i s (jump i Try_failed s)"
| try_free: "pcs s i = Try_test 0 \<Longrightarrow> lock_step i s (jump i Try_stlxr s)"
| try_stlxr_ok: "pcs s i = Try_stlxr \<Longrightarrow> monitor s i \<Longrightarrow> lock_step i s (jump i (Try_status 0) (store 1 s))"
| try_stlxr_fail: "pcs s i = Try_stlxr \<Longrightarrow> lock_step i s (jump i (Try_status 1) (disarm i s))"
| try_status_fail: "pcs s i = Try_status v \<Longrightarrow> v \<noteq> 0 \<Longrightarrow> lock_step i s (jump i Try_failed s)"
| try_status_ok: "pcs s i = Try_status 0 \<Longrightarrow> lock_step i s (jump i Holding s)"
| try_return: "pcs s i = Try_failed \<Longrightarrow> lock_step i s (jump i Idle s)"
| call_unlock: "pcs s i = Holding \<Longrightarrow> lock_step i s (jump i Stlr s)"
| stlr: "pcs s i = Stlr \<Longrightarrow> lock_step i s (jump i Idle (store 0 s))"

inductive lock_reach :: "lock_state \<Rightarrow> bool" where
  start: "lock_reach spinlock_init"
| step: "lock_reach s \<Longrightarrow> lock_step i s t \<Longrightarrow> lock_reach t"

subsection \<open>Mutual exclusion\<close>

text \<open>A core owns the lock from the successful store on to the store that releases it.\<close>

definition owns :: "lock_pc \<Rightarrow> bool" where
  "owns p \<longleftrightarrow> p \<in> {Status 0, Try_status 0, Holding, Stlr}"

text \<open>A core that has seen the lock free and whose monitor is still armed would store.\<close>

definition ready :: "lock_pc \<Rightarrow> bool" where
  "ready p \<longleftrightarrow> p \<in> {Test 0, Stlxr, Try_test 0, Try_stlxr}"

definition lock_inv :: "lock_state \<Rightarrow> bool" where
  "lock_inv s \<longleftrightarrow> (lock s = 0 \<or> lock s = 1) \<and> (\<forall>i. owns (pcs s i) \<longrightarrow> lock s = 1) \<and>
     (\<forall>i j. owns (pcs s i) \<and> owns (pcs s j) \<longrightarrow> i = j) \<and> (lock s = 1 \<longrightarrow> (\<exists>i. owns (pcs s i))) \<and>
     (\<forall>i. monitor s i \<and> ready (pcs s i) \<longrightarrow> lock s = 0)"

lemmas lock_ops = jump_def load_excl_def store_def disarm_def

lemma lock_inv_init: "lock_inv spinlock_init"
  by (simp add: lock_inv_def spinlock_init_def owns_def ready_def)

text \<open>One lemma per effect: a jump, a load, a failed store, the store that takes and the one that frees.\<close>

lemma inv_jump:
  assumes "lock_inv s" "owns p = owns (pcs s i)" "ready p \<Longrightarrow> ready (pcs s i)"
  shows "lock_inv (jump i p s)"
proof -
  have "owns (((pcs s)(i := p)) j) = owns (pcs s j)" for j using assms(2) by simp
  moreover have "ready (((pcs s)(i := p)) j) \<Longrightarrow> ready (pcs s j)" for j using assms(3) by (cases "j = i") auto
  ultimately show ?thesis using assms(1) unfolding lock_inv_def jump_def by auto
qed

lemma inv_load:
  assumes "lock_inv s" "\<not> owns (pcs s i)" "\<not> owns p" "ready p \<Longrightarrow> lock s = 0"
  shows "lock_inv (jump i p (load_excl i s))"
proof -
  have "owns (((pcs s)(i := p)) j) = owns (pcs s j)" for j using assms(2,3) by simp
  moreover have "ready (((pcs s)(i := p)) j) \<Longrightarrow> ((monitor s)(i := True)) j \<Longrightarrow> lock s = 0" for j
    using assms(1,4) by (cases "j = i") (auto simp: lock_inv_def)
  ultimately show ?thesis using assms(1) by (auto simp: lock_inv_def jump_def load_excl_def simp del: fun_upd_apply)
qed

lemma inv_disarm:
  assumes "lock_inv s" "\<not> owns (pcs s i)" "\<not> owns p" "\<not> ready p"
  shows "lock_inv (jump i p (disarm i s))"
proof -
  have "owns (((pcs s)(i := p)) j) = owns (pcs s j)" for j using assms(2,3) by simp
  moreover have "ready (((pcs s)(i := p)) j) \<Longrightarrow> ((monitor s)(i := False)) j \<Longrightarrow> lock s = 0" for j
    using assms(1,4) by (cases "j = i") (auto simp: lock_inv_def)
  ultimately show ?thesis using assms(1) by (auto simp: lock_inv_def jump_def disarm_def simp del: fun_upd_apply)
qed

lemma inv_take:
  assumes "lock_inv s" "ready (pcs s i)" "monitor s i" "owns p"
  shows "lock_inv (jump i p (store 1 s))"
proof -
  have "lock s = 0" using assms(1-3) by (auto simp: lock_inv_def)
  then have "\<not> owns (pcs s j)" for j using assms(1) by (auto simp: lock_inv_def)
  then have "owns (((pcs s)(i := p)) j) \<longleftrightarrow> j = i" for j using assms(4) by simp
  then show ?thesis unfolding lock_inv_def jump_def store_def by auto
qed

lemma inv_free:
  assumes "lock_inv s" "owns (pcs s i)" "\<not> owns p"
  shows "lock_inv (jump i p (store 0 s))"
proof -
  have "owns (pcs s j) \<Longrightarrow> j = i" for j using assms(1,2) by (auto simp: lock_inv_def)
  then have "\<not> owns (((pcs s)(i := p)) j)" for j using assms(3) by auto
  then show ?thesis unfolding lock_inv_def jump_def store_def by auto
qed

lemmas pc_simps = owns_def ready_def

lemma lock_step_inv: "lock_step i s t \<Longrightarrow> lock_inv s \<Longrightarrow> lock_inv t"
proof (induction rule: lock_step.induct)
  case (ldaxr s)
  then show ?case by (intro inv_load) (auto simp: pc_simps)
next
  case (try_ldaxr s)
  then show ?case by (intro inv_load) (auto simp: pc_simps)
next
  case (stlxr_ok s)
  then show ?case by (intro inv_take) (auto simp: pc_simps)
next
  case (try_stlxr_ok s)
  then show ?case by (intro inv_take) (auto simp: pc_simps)
next
  case (stlxr_fail s)
  then show ?case by (intro inv_disarm) (auto simp: pc_simps)
next
  case (try_stlxr_fail s)
  then show ?case by (intro inv_disarm) (auto simp: pc_simps)
next
  case (stlr s)
  then show ?case by (intro inv_free) (auto simp: pc_simps)
qed (intro inv_jump; simp add: pc_simps)+

lemma lock_reach_inv: "lock_reach s \<Longrightarrow> lock_inv s"
  by (induction rule: lock_reach.induct) (auto intro: lock_inv_init lock_step_inv)

text \<open>Steps of core \<open>i\<close> alone.\<close>

inductive alone :: "nat \<Rightarrow> lock_state \<Rightarrow> lock_state \<Rightarrow> bool" for i where
  alone_refl: "alone i s s"
| alone_step: "lock_step i s t \<Longrightarrow> alone i t u \<Longrightarrow> alone i s u"

lemma lock_alone:
  assumes "lock s = 0" "pcs s i = Ldaxr"
  shows "\<exists>t. alone i s t \<and> pcs t i = Holding"
proof -
  let ?s1 = "jump i (Test 0) (load_excl i s)"
  let ?s2 = "jump i Stlxr ?s1"
  let ?s3 = "jump i (Status 0) (store 1 ?s2)"
  have 1: "lock_step i s ?s1" using lock_step.ldaxr [of s i] assms by simp
  have 2: "lock_step i ?s1 ?s2" by (rule lock_step.test_free) (simp add: lock_ops)
  have 3: "lock_step i ?s2 ?s3" by (rule lock_step.stlxr_ok) (simp_all add: lock_ops)
  have 4: "lock_step i ?s3 (jump i Holding ?s3)" by (rule lock_step.status_ok) (simp add: lock_ops)
  have "alone i s (jump i Holding ?s3)" by (rule alone_step [OF 1 alone_step [OF 2 alone_step [OF 3 alone_step [OF 4 alone_refl]]]])
  moreover have "pcs (jump i Holding ?s3) i = Holding" by (simp add: jump_def)
  ultimately show ?thesis by blast
qed

text \<open>
  C11. The spin lock: in every reachable state at most one core holds the lock, the variable is 1
  exactly while a core owns it, and a core that spins in \<^verbatim>\<open>spin_lock\<close> while the variable is 0
  can run alone to holding the lock.
\<close>

theorem spin_lock_mutex:
  assumes "lock_reach s"
  shows "(pcs s i = Holding \<and> pcs s j = Holding \<longrightarrow> i = j) \<and> (lock s = 1 \<longleftrightarrow> (\<exists>k. owns (pcs s k))) \<and>
    (lock s = 0 \<and> pcs s i = Ldaxr \<longrightarrow> (\<exists>t. alone i s t \<and> pcs t i = Holding))"
proof (intro conjI impI)
  have inv: "lock_inv s" using assms by (rule lock_reach_inv)
  show "i = j" if "pcs s i = Holding \<and> pcs s j = Holding"
  proof -
    have "owns (pcs s i)" "owns (pcs s j)" using that by (simp_all add: pc_simps)
    then show ?thesis using inv unfolding lock_inv_def by blast
  qed
  show "lock s = 1 \<longleftrightarrow> (\<exists>k. owns (pcs s k))" using inv unfolding lock_inv_def by blast
  show "\<exists>t. alone i s t \<and> pcs t i = Holding" if "lock s = 0 \<and> pcs s i = Ldaxr" using lock_alone that by blast
qed

definition demo_spin :: lock_state where
  "demo_spin = jump 0 Ldaxr spinlock_init"

lemma demo_spin_reach: "lock_reach demo_spin"
  unfolding demo_spin_def
  by (rule lock_reach.step [OF lock_reach.start lock_step.call_lock]) (simp add: spinlock_init_def)

theorem spin_lock_mutex_witness:
  "lock demo_spin = 0 \<and> pcs demo_spin 0 = Ldaxr \<and> \<not> (\<exists>k. owns (pcs demo_spin k)) \<and>
    (\<exists>t. alone 0 demo_spin t \<and> pcs t 0 = Holding)"
proof -
  have "lock demo_spin = 0" "pcs demo_spin 0 = Ldaxr" by (simp_all add: demo_spin_def jump_def spinlock_init_def)
  then show ?thesis using spin_lock_mutex [OF demo_spin_reach, of 0 1] by simp
qed

end
