(* ===== verification/Page.thy ===== *)
theory Page
  imports Ept
begin

text \<open>
  The kernel's own translation tables (\<^verbatim>\<open>mem/page.c\<close> with the descriptor bits of
  \<^verbatim>\<open>include/mem/mmu.h\<close>). The
  addresses of the four tables come from the linker and are parameters. \<^verbatim>\<open>PXN\<close> is defined as
  \<^verbatim>\<open>1 << 53\<close> on a 32-bit \<^verbatim>\<open>int\<close>, to which C gives no meaning: its value is a parameter.
\<close>

subsection \<open>Descriptor bits\<close>

definition MA_DEVICE_nGnRnE_Flags :: u64 where "MA_DEVICE_nGnRnE_Flags = 0x00"

definition MA_MEMORY_Flags :: u64 where "MA_MEMORY_Flags = 0xFF"

definition MA_MEMORY_NoCache_Flags :: u64 where "MA_MEMORY_NoCache_Flags = 0x44"

definition MA_DEVICE_nGnRnE :: nat where "MA_DEVICE_nGnRnE = 0"

definition MA_MEMORY :: nat where "MA_MEMORY = 1"

definition MA_MEMORY_NoCache :: nat where "MA_MEMORY_NoCache = 2"

definition PTE_AIDX_DEVICE_nGnRn :: u64 where "PTE_AIDX_DEVICE_nGnRn = push_bit 2 (of_nat MA_DEVICE_nGnRnE)"

definition PTE_AIDX_MEMORY :: u64 where "PTE_AIDX_MEMORY = push_bit 2 (of_nat MA_MEMORY)"

definition MAIR_VALUE :: u64 where
  "MAIR_VALUE = push_bit (8 * MA_DEVICE_nGnRnE) MA_DEVICE_nGnRnE_Flags OR
     push_bit (8 * MA_MEMORY) MA_MEMORY_Flags OR push_bit (8 * MA_MEMORY_NoCache) MA_MEMORY_NoCache_Flags"

definition AP_EL0 :: u64 where "AP_EL0 = push_bit 6 1"

definition AF :: u64 where "AF = push_bit 10 1"

definition PTE_SH :: u64 where "PTE_SH = push_bit 8 0b11"

definition PTE_RW :: u64 where "PTE_RW = push_bit 7 0"

definition MM_TYPE_BLOCK :: u64 where "MM_TYPE_BLOCK = 0b01"

definition PTE_NORMAL_MEMORY :: u64 where
  "PTE_NORMAL_MEMORY = MM_TYPE_BLOCK OR PTE_AIDX_MEMORY OR PTE_SH OR AF OR PTE_RW"

definition PTE_DEVICE_MEMORY :: u64 where
  "PTE_DEVICE_MEMORY = MM_TYPE_BLOCK OR PTE_AIDX_DEVICE_nGnRn OR PTE_SH OR AF OR PTE_RW"

lemmas pte_defs = PTE_NORMAL_MEMORY_def PTE_DEVICE_MEMORY_def MM_TYPE_BLOCK_def PTE_AIDX_MEMORY_def
  PTE_AIDX_DEVICE_nGnRn_def MA_MEMORY_def MA_DEVICE_nGnRnE_def PTE_SH_def AF_def PTE_RW_def AP_EL0_def

subsection \<open>Building the tables\<close>

definition CTR_EL0_CWG_MASK :: u64 where "CTR_EL0_CWG_MASK = 0xFF"

definition get_cache_line_size :: "u64 \<Rightarrow> u32" where
  "get_cache_line_size ctr_el0 = ucast (drop_bit 0 ctr_el0 AND CTR_EL0_CWG_MASK)"

record page_state =
  pt_mem :: wmem
  cacheline_bytes :: u64

definition setup_cache :: "u64 \<Rightarrow> page_state \<Rightarrow> page_state" where
  "setup_cache ctr_el0 s = s\<lparr>cacheline_bytes := ucast (get_cache_line_size ctr_el0)\<rparr>"

text \<open>\<^verbatim>\<open>memset\<close> of a table of 512 words to zero.\<close>

definition clear_table :: "u64 \<Rightarrow> wmem \<Rightarrow> wmem" where
  "clear_table base m = fold (\<lambda>i m. m(elem base i := 0)) [0..<512] m"

definition init_page_table :: "u64 \<Rightarrow> u64 \<Rightarrow> u64 \<Rightarrow> u64 \<Rightarrow> u64 \<Rightarrow> u64 \<Rightarrow> page_state \<Rightarrow> page_state" where
  "init_page_table ctr_el0 pxn pt0 pt1 high_pt0 high_pt1 s =
     (let s = setup_cache ctr_el0 s;
          m = clear_table pt0 (pt_mem s);
          m = clear_table pt1 m;
          m = clear_table high_pt0 m;
          m = clear_table high_pt1 m;
          m = m(elem pt0 0 := pt1 + 0b11);
          m = m(elem pt1 0 := 0x00000000 OR PTE_DEVICE_MEMORY);
          m = m(elem pt1 1 := 0x40000000 OR PTE_NORMAL_MEMORY);
          m = m(elem pt1 2 := 0x80000000 OR PTE_NORMAL_MEMORY OR AP_EL0 OR pxn);
          m = m(elem pt1 3 := 0xc0000000 OR PTE_NORMAL_MEMORY OR AP_EL0 OR pxn);
          m = m(elem high_pt0 0 := high_pt1 + 0b11);
          m = m(elem high_pt1 0 := 0x00000000 OR PTE_DEVICE_MEMORY);
          m = m(elem high_pt1 1 := 0x40000000 OR PTE_NORMAL_MEMORY);
          m = m(elem high_pt1 2 := 0x80000000 OR PTE_NORMAL_MEMORY);
          m = m(elem high_pt1 3 := 0xc0000000 OR PTE_NORMAL_MEMORY)
      in s\<lparr>pt_mem := m\<rparr>)"

text \<open>
  \<^verbatim>\<open>enable_mmu\<close> and \<^verbatim>\<open>enable_mmu_el2\<close> hand the roots to the assembly routines: the values of the
  translation base registers.
\<close>

definition enable_mmu :: "u64 \<Rightarrow> u64 \<Rightarrow> u64 \<times> u64" where
  "enable_mmu pt0 high_pt0 = (pt0, high_pt0)"

definition enable_mmu_el2 :: "u64 \<Rightarrow> u64" where
  "enable_mmu_el2 pt0 = pt0"

subsection \<open>Translation\<close>

text \<open>
  The walk of the architecture for a 48-bit address with a 4 KB granule, down to a 1 GB block:
  the output address and the block descriptor.
\<close>

definition stage1_walk :: "wmem \<Rightarrow> u64 \<Rightarrow> u64 \<Rightarrow> (u64 \<times> u64) option" where
  "stage1_walk m ttbr va =
     (let e0 = m (ttbr + 8 * bitfield 39 9 va) in
      if desc_table e0
      then (let e1 = m (out_addr e0 + 8 * bitfield 30 9 va) in
            if bit e1 0 \<and> \<not> bit e1 1 then Some (push_bit 30 (bitfield 30 18 e1) OR take_bit 30 va, e1) else None)
      else None)"

lemma elem_inj: "i < 2 ^ 60 \<Longrightarrow> j < 2 ^ 60 \<Longrightarrow> elem b i = elem b j \<longleftrightarrow> i = j"
proof
  assume ij: "i < 2 ^ 60" "j < 2 ^ 60" and "elem b i = elem b j"
  then have "idx b (elem b i) = idx b (elem b j)" by (simp only:)
  then show "i = j" by (simp only: idx_elem [OF ij(1)] idx_elem [OF ij(2)] option.inject)
qed simp

lemma clear_table_fill: "clear_table base m = fill base 0 512 (\<lambda>_. 0) m"
proof -
  have "fold (\<lambda>i m. m(elem base i := 0)) [0..<n] m = fill base 0 n (\<lambda>_. 0) m" if "n \<le> 512" for n
    using that
  proof (induction n)
    case (Suc n)
    then show ?case using upd_fill [of n "fill base 0 n (\<lambda>_. 0) m" base "\<lambda>_. 0"] fill_fill [of 0 n "Suc n"]
      by (simp del: fun_upd_apply)
  qed simp
  then show ?thesis by (simp add: clear_table_def)
qed

lemma clear_table_at: "i < 512 \<Longrightarrow> clear_table b m (elem b i) = 0"
  unfolding clear_table_fill by (rule fill_at) simp_all

lemma disjoint_elem:
  assumes "disjoint_tabs b 512 b' 512" "i < 512" "j < 512"
  shows "elem b i \<noteq> elem b' j"
proof
  assume e: "elem b i = elem b' j"
  have "in_tab b 0 512 (elem b i)" "in_tab b' 0 512 (elem b' j)" using assms(2,3) by (simp_all add: in_tab_def idx_elem)
  then show False using assms(1) e by (auto simp: disjoint_tabs_def)
qed

lemma clear_table_other:
  assumes "disjoint_tabs b 512 b' 512" "j < 512"
  shows "clear_table b m (elem b' j) = m (elem b' j)"
  unfolding clear_table_fill by (rule fill_skip [OF assms(1)]) (use assms(2) in simp_all)

text \<open>The four tables: page-aligned and apart.\<close>

definition tables_ok :: "u64 \<Rightarrow> u64 \<Rightarrow> u64 \<Rightarrow> u64 \<Rightarrow> bool" where
  "tables_ok pt0 pt1 hp0 hp1 \<longleftrightarrow>
     list_all (\<lambda>b. unat b mod 4096 = 0 \<and> unat b < 2 ^ 48) [pt0, pt1, hp0, hp1] \<and> distinct [pt0, pt1, hp0, hp1]"

lemma below_disjoint:
  assumes "unat b mod 4096 = 0" "unat b' mod 4096 = 0" "unat b < unat b'" "unat b' < 2 ^ 48"
  shows "disjoint_tabs b 512 b' 512"
proof -
  obtain j k where jk: "unat b = 4096 * j" "unat b' = 4096 * k" using assms(1,2) by fastforce
  then have lt: "j < k" "k \<le> 2 ^ 36" using assms(3,4) by simp_all
  have "b' = word_of_nat (unat b + 8 * (512 * (k - j)))"
    using jk lt assms(4) by (simp add: word_unat_eq_iff unat_of_nat diff_mult_distrib2 del: of_nat_add of_nat_mult)
  then have "b' = elem b (512 * (k - j))" by (simp add: elem_def)
  then show ?thesis using lt by (auto intro!: disjoint_tabs_elem)
qed

lemma aligned_disjoint:
  assumes "unat b mod 4096 = 0" "unat b' mod 4096 = 0" "b \<noteq> b'" "unat b < 2 ^ 48" "unat b' < 2 ^ 48"
  shows "disjoint_tabs b 512 b' 512"
proof (cases "unat b < unat b'")
  case False
  then have "unat b' < unat b" using assms(3) by (simp add: word_unat_eq_iff)
  from below_disjoint [OF assms(2,1) this assms(4)] show ?thesis by (auto simp: disjoint_tabs_def)
qed (rule below_disjoint [OF assms(1,2) _ assms(5)])

definition low_block :: "u64 \<Rightarrow> nat \<Rightarrow> u64" where
  "low_block pxn i = (if i = 0 then PTE_DEVICE_MEMORY else if i = 1 then 0x40000000 OR PTE_NORMAL_MEMORY
     else if i = 2 then 0x80000000 OR PTE_NORMAL_MEMORY OR AP_EL0 OR pxn
     else if i = 3 then 0xc0000000 OR PTE_NORMAL_MEMORY OR AP_EL0 OR pxn else 0)"

definition high_block :: "nat \<Rightarrow> u64" where
  "high_block i = (if i = 0 then PTE_DEVICE_MEMORY else if i = 1 then 0x40000000 OR PTE_NORMAL_MEMORY
     else if i = 2 then 0x80000000 OR PTE_NORMAL_MEMORY else if i = 3 then 0xc0000000 OR PTE_NORMAL_MEMORY else 0)"

lemma init_tables:
  fixes pt0 pt1 hp0 hp1 ctr pxn :: u64 and s :: page_state and i :: nat and m :: wmem
  assumes ok: "tables_ok pt0 pt1 hp0 hp1" and i: "i < 512"
  defines "m \<equiv> pt_mem (init_page_table ctr pxn pt0 pt1 hp0 hp1 s)"
  shows "m (elem pt0 i) = (if i = 0 then pt1 + 3 else 0)" "m (elem pt1 i) = low_block pxn i"
    "m (elem hp0 i) = (if i = 0 then hp1 + 3 else 0)" "m (elem hp1 i) = high_block i"
proof -
  have d: "disjoint_tabs b 512 b' 512" if "b \<in> {pt0, pt1, hp0, hp1}" "b' \<in> {pt0, pt1, hp0, hp1}" "b \<noteq> b'" for b b'
    using ok that by (intro aligned_disjoint) (auto simp: tables_ok_def)
  have ne: "pt0 \<noteq> pt1" "pt0 \<noteq> hp0" "pt0 \<noteq> hp1" "pt1 \<noteq> hp0" "pt1 \<noteq> hp1" "hp0 \<noteq> hp1" using ok by (auto simp: tables_ok_def)
  note dj = d [of pt0 pt1] d [of pt0 hp0] d [of pt0 hp1] d [of pt1 pt0] d [of pt1 hp0] d [of pt1 hp1]
    d [of hp0 pt0] d [of hp0 pt1] d [of hp0 hp1] d [of hp1 pt0] d [of hp1 pt1] d [of hp1 hp0]
  have same: "elem b k = elem b j \<longleftrightarrow> k = j" if "k < 512" "j < 512" for b k j using that by (simp add: elem_inj)
  have other: "elem b i \<noteq> elem b' j" if "b \<in> {pt0, pt1, hp0, hp1}" "b' \<in> {pt0, pt1, hp0, hp1}" "b \<noteq> b'" "j < 512" for b b' j
    using disjoint_elem [OF d [OF that(1-3)] i that(4)] .
  note rules = m_def init_page_table_def Let_def same other clear_table_at clear_table_other d
  show "m (elem pt0 i) = (if i = 0 then pt1 + 3 else 0)" using ne i by (simp add: rules)
  show "m (elem hp0 i) = (if i = 0 then hp1 + 3 else 0)" using ne i by (simp add: rules)
  show "m (elem pt1 i) = low_block pxn i" using ne i by (simp add: rules low_block_def)
  show "m (elem hp1 i) = high_block i" using ne i by (simp add: rules high_block_def)
qed


text \<open>
  The attributes a block descriptor gives to its memory: the byte of \<^verbatim>\<open>MAIR\<close> it selects, access from
  EL0, read-only, shareability, access flag, no execution at EL1 and no execution at EL0.
\<close>

definition block_attrs :: "u64 \<Rightarrow> u64 \<times> bool \<times> bool \<times> u64 \<times> bool \<times> bool \<times> bool" where
  "block_attrs e = (bitfield (8 * unat (bitfield 2 3 e)) 8 MAIR_VALUE, bit e 6, bit e 7, bitfield 8 2 e, bit e 10,
     bit e 53, bit e 54)"

lemma table_desc:
  assumes "unat t mod 4096 = 0" "unat t < 2 ^ 48"
  shows "out_addr (t + 3) = t" "desc_table (t + 3)"
proof -
  have "t AND 3 = 0"
  proof (intro bit_word_eqI)
    fix n show "bit (t AND 3) n = bit (0 :: u64) n"
      using bit_aligned [OF assms(1), of n] not_bit_small [of "3 :: u64" 2 n] by (cases "n < 2") (auto simp: bit_and_iff)
  qed
  then have "t + 3 = t OR 3" by (rule disjunctive_add_eq_or)
  then have "t + 3 = t OR mask 2" by (simp add: mask_eq_exp_minus_1)
  then have b: "bit (t + 3) n \<longleftrightarrow> bit t n \<or> n < 2" for n
    by (auto simp: bit_or_iff bit_mask_iff)
  show "out_addr (t + 3) = t" using bit_page_range [OF assms]
    by (auto intro!: bit_word_eqI simp: bit_out_addr b)
  show "desc_table (t + 3)" by (simp add: desc_table_def b)
qed

text \<open>The entries of the two level-1 tables.\<close>

lemma blocks:
  assumes "pxn = 0 \<or> pxn = push_bit 53 1" "i < 4"
  shows "bit (low_block pxn i) 0 \<and> \<not> bit (low_block pxn i) 1 \<and> push_bit 30 (bitfield 30 18 (low_block pxn i)) = push_bit 30 (of_nat i)"
    and "bit (high_block i) 0 \<and> \<not> bit (high_block i) 1 \<and> push_bit 30 (bitfield 30 18 (high_block i)) = push_bit 30 (of_nat i)"
    and "block_attrs (low_block pxn i) = (if i = 0 then 0 else 0xFF, 2 \<le> i, False, 3, True, 2 \<le> i \<and> pxn \<noteq> 0, False)"
    and "block_attrs (high_block i) = (if i = 0 then 0 else 0xFF, False, False, 3, True, False, False)"
proof -
  have i: "i = 0 \<or> i = 1 \<or> i = 2 \<or> i = 3" using assms(2) by auto
  note ev = low_block_def high_block_def block_attrs_def pte_defs bitfield_def bit_iff_odd_drop_bit take_bit_eq_mod
    drop_bit_eq_div push_bit_eq_mult MAIR_VALUE_def MA_MEMORY_NoCache_def MA_DEVICE_nGnRnE_Flags_def MA_MEMORY_Flags_def
    MA_MEMORY_NoCache_Flags_def
  show "bit (low_block pxn i) 0 \<and> \<not> bit (low_block pxn i) 1 \<and> push_bit 30 (bitfield 30 18 (low_block pxn i)) = push_bit 30 (of_nat i)"
    using assms(1) i by (elim disjE) (simp_all add: ev)
  show "bit (high_block i) 0 \<and> \<not> bit (high_block i) 1 \<and> push_bit 30 (bitfield 30 18 (high_block i)) = push_bit 30 (of_nat i)"
    using i by (elim disjE) (simp_all add: ev)
  show "block_attrs (low_block pxn i) = (if i = 0 then 0 else 0xFF, 2 \<le> i, False, 3, True, 2 \<le> i \<and> pxn \<noteq> 0, False)"
    using assms(1) i by (elim disjE) (simp_all add: ev)
  show "block_attrs (high_block i) = (if i = 0 then 0 else 0xFF, False, False, 3, True, False, False)"
    using i by (elim disjE) (simp_all add: ev)
qed

lemma low_block_past: "4 \<le> i \<Longrightarrow> low_block pxn i = 0" "4 \<le> i \<Longrightarrow> high_block i = 0"
  by (simp_all add: low_block_def high_block_def)

lemma split_block: "push_bit n (drop_bit n w) OR take_bit n w = w" for w :: u64
  by (auto intro!: bit_word_eqI simp: bit_or_iff bit_push_bit_iff bit_drop_bit_eq bit_take_bit_iff)

text \<open>A walk through a level-0 table whose only entry leads to a level-1 table with four blocks.\<close>

lemma stage1_walk_blocks:
  assumes t: "unat t mod 4096 = 0" "unat t < 2 ^ 48" and va: "unat va < 2 ^ 48"
    and l0: "\<And>i. i < 512 \<Longrightarrow> m (elem r i) = (if i = 0 then t + 3 else 0)"
    and l1: "\<And>i. i < 512 \<Longrightarrow> m (elem t i) = blk i"
    and blk: "\<And>i. i < 4 \<Longrightarrow> bit (blk i) 0 \<and> \<not> bit (blk i) 1 \<and> push_bit 30 (bitfield 30 18 (blk i)) = push_bit 30 (of_nat i)"
    and past: "\<And>i. 4 \<le> i \<Longrightarrow> blk i = 0"
  shows "stage1_walk m r va = (if unat va < 2 ^ 32 then Some (va, blk (unat va div 2 ^ 30)) else None)"
proof -
  let ?i = "unat va div 2 ^ 39 mod 2 ^ 9" and ?j = "unat va div 2 ^ 30 mod 2 ^ 9"
  have b: "?i < 512" "?j < 512" by simp_all
  have w: "stage1_walk m r va = (let e0 = m (elem r ?i) in if desc_table e0 then
      (let e1 = m (elem (out_addr e0) ?j) in if bit e1 0 \<and> \<not> bit e1 1
        then Some (push_bit 30 (bitfield 30 18 e1) OR take_bit 30 va, e1) else None) else None)"
    unfolding stage1_walk_def elem_word unat_bitfield ..
  show ?thesis
  proof (cases "?i = 0")
    case False
    then have "\<not> unat va < 2 ^ 32" by auto
    then show ?thesis using False l0 [OF b(1)] by (simp add: w desc_table_def)
  next
    case True
    have "unat va div 2 ^ 39 < 512" using va by (simp add: less_mult_imp_div_less)
    with True have "unat va < 2 ^ 39" by (simp add: div_eq_0_iff)
    then have j: "?j = unat va div 2 ^ 30" by (simp add: less_mult_imp_div_less)
    have e: "stage1_walk m r va = (if bit (blk ?j) 0 \<and> \<not> bit (blk ?j) 1
        then Some (push_bit 30 (bitfield 30 18 (blk ?j)) OR take_bit 30 va, blk ?j) else None)"
      using True l0 [OF b(1)] l1 [OF b(2)] by (simp add: w Let_def table_desc [OF t])
    show ?thesis
    proof (cases "unat va < 2 ^ 32")
      case True
      then have "?j < 4" using j by simp
      moreover have "of_nat (unat va div 2 ^ 30) = drop_bit 30 va"
        using True by (simp add: word_unat_eq_iff unat_of_nat drop_bit_eq_div unat_div_distrib)
      ultimately show ?thesis using True blk [of ?j] by (simp add: e j split_block)
    next
      case False
      then have "4 \<le> ?j" using j by simp
      then show ?thesis using False past [of ?j] by (simp add: e j)
    qed
  qed
qed


text \<open>
  C21. The tables \<^verbatim>\<open>init_page_table\<close> builds map, through both roots \<^verbatim>\<open>enable_mmu\<close> installs, exactly the
  first 4 GB, each address to itself. The first gigabyte is device memory, the rest is cacheable
  normal memory, everything is shareable, accessed and writable, and only the two upper gigabytes of the
  low half are open to EL0. Execution at EL0 is forbidden nowhere. Execution at EL1 of the gigabytes
  open to EL0, which the code means to forbid, is forbidden only if the compiler gives \<^verbatim>\<open>PXN\<close>, the
  undefined expression \<^verbatim>\<open>1 << 53\<close>, the value with bit 53; if it gives 0, the kernel may execute what
  the applications write. The theorem is for these two values of \<^verbatim>\<open>PXN\<close>.
\<close>

theorem kernel_page_tables:
  assumes "tables_ok pt0 pt1 hp0 hp1" "unat va < 2 ^ 48" "pxn = 0 \<or> pxn = push_bit 53 1"
  shows "let m = pt_mem (init_page_table ctr pxn pt0 pt1 hp0 hp1 s); (ttbr0, ttbr1) = enable_mmu pt0 hp0;
      mair = (if unat va < 0x40000000 then 0 else 0xFF); user = (0x80000000 \<le> unat va) in
     if unat va < 2 ^ 32
     then (\<exists>lo hi. stage1_walk m ttbr0 va = Some (va, lo) \<and> stage1_walk m ttbr1 va = Some (va, hi) \<and>
        stage1_walk m (enable_mmu_el2 pt0) va = Some (va, lo) \<and>
        block_attrs lo = (mair, user, False, 3, True, user \<and> pxn \<noteq> 0, False) \<and>
        block_attrs hi = (mair, False, False, 3, True, False, False))
     else stage1_walk m ttbr0 va = None \<and> stage1_walk m ttbr1 va = None"
proof -
  let ?m = "pt_mem (init_page_table ctr pxn pt0 pt1 hp0 hp1 s)" and ?i = "unat va div 2 ^ 30"
  have t: "unat pt1 mod 4096 = 0" "unat pt1 < 2 ^ 48" "unat hp1 mod 4096 = 0" "unat hp1 < 2 ^ 48"
    using assms(1) by (auto simp: tables_ok_def)
  note reads = init_tables [OF assms(1), of _ ctr pxn s]
  have lo: "stage1_walk ?m pt0 va = (if unat va < 2 ^ 32 then Some (va, low_block pxn ?i) else None)"
    by (rule stage1_walk_blocks [OF t(1,2) assms(2) reads(1,2) blocks(1) [OF assms(3)] low_block_past(1)])
  have hi: "stage1_walk ?m hp0 va = (if unat va < 2 ^ 32 then Some (va, high_block ?i) else None)"
    by (rule stage1_walk_blocks [OF t(3,4) assms(2) reads(3,4) blocks(2) [OF assms(3)] low_block_past(2)])
  have i: "?i < 4" if "unat va < 2 ^ 32" using that by simp
  have r: "?i = 0 \<longleftrightarrow> unat va < 0x40000000" "2 \<le> ?i \<longleftrightarrow> 0x80000000 \<le> unat va" by (auto simp: div_eq_0_iff)
  show ?thesis using blocks(3,4) [OF assms(3) i] unfolding r by (simp add: Let_def enable_mmu_def enable_mmu_el2_def lo hi)
qed

theorem kernel_page_tables_witness:
  "let m = pt_mem (init_page_table 0 0x20000000000000 0x1000 0x2000 0x3000 0x4000 \<lparr>pt_mem = (\<lambda>_. 0), cacheline_bytes = 0\<rparr>);
      (ttbr0, ttbr1) = enable_mmu 0x1000 0x3000; va = 0x90000010;
      mair = (if unat va < 0x40000000 then 0 else 0xFF); user = (0x80000000 \<le> unat va) in
     if unat va < 2 ^ 32
     then (\<exists>lo hi. stage1_walk m ttbr0 va = Some (va, lo) \<and> stage1_walk m ttbr1 va = Some (va, hi) \<and>
        stage1_walk m (enable_mmu_el2 0x1000) va = Some (va, lo) \<and>
        block_attrs lo = (mair, user, False, 3, True, user \<and> (0x20000000000000 :: u64) \<noteq> 0, False) \<and>
        block_attrs hi = (mair, False, False, 3, True, False, False))
     else stage1_walk m ttbr0 va = None \<and> stage1_walk m ttbr1 va = None"
proof -
  have "tables_ok 0x1000 0x2000 0x3000 0x4000" by (simp add: tables_ok_def)
  from kernel_page_tables [OF this, of "0x90000010" "0x20000000000000" 0 "\<lparr>pt_mem = (\<lambda>_. 0), cacheline_bytes = 0\<rparr>"] show ?thesis by simp
qed

end
