(* ===== verification/Boot.thy ===== *)
theory Boot
  imports Task Spinlock
begin

text \<open>
  The start of the kernel on all cores (\<^verbatim>\<open>main.c\<close>, \<^verbatim>\<open>smp.c\<close>, \<^verbatim>\<open>include/thread.h\<close>): core 0 prepares the
  thread information blocks and starts the other cores, every core counts itself in under a spin
  lock and waits for all of them, then takes its first task and enables interrupts. One step is
  one atomic access of one core to the shared state; any core may do the next step. Whether a core
  starts is decided by the firmware's answer to \<^verbatim>\<open>CPU_ON\<close>, a parameter. Console output and the set-up
  of the interrupt controller and the timer of each core, which share no state, are left out here.
\<close>

subsection \<open>Thread information\<close>

definition MIN_THREAD_SHIFT :: nat where "MIN_THREAD_SHIFT = 14"

definition THREAD_SIZE :: u64 where "THREAD_SIZE = push_bit MIN_THREAD_SHIFT 1"

definition STACK_SIZE :: u64 where "STACK_SIZE = push_bit 14 1"

definition thread_info_sp :: "u64 \<Rightarrow> u64" where
  "thread_info_sp sp = sp AND NOT (THREAD_SIZE - 1)"

definition get_current_cpu_id :: "u64 \<Rightarrow> u32" where
  "get_current_cpu_id mpidr = ucast (mpidr AND 0xff)"

definition thread_info_init :: "u32 \<Rightarrow> u32 \<Rightarrow> thread_info" where
  "thread_info_init flags cpu = \<lparr>ti_cpu = cpu, ti_flags = flags, ti_pgtable = 0, ti_current = None\<rparr>"

text \<open>
  The stack a core starts with (for core 0 set by \<^verbatim>\<open>boot.S\<close>, for the others passed to \<^verbatim>\<open>CPU_ON\<close>) and the
  address at which \<^verbatim>\<open>start_secondary_cpus\<close> initialises its block.
\<close>

definition stack_of :: "u64 \<Rightarrow> u64 \<Rightarrow> nat \<Rightarrow> u64" where
  "stack_of stack_top stack_top_second i =
     (if i = 0 then stack_top else stack_top_second - STACK_SIZE * (of_nat i - 1))"

definition thread_info_of :: "u64 \<Rightarrow> u64 \<Rightarrow> nat \<Rightarrow> u64" where
  "thread_info_of stack_top stack_top_second i =
     (if i = 0 then stack_top - STACK_SIZE else stack_top_second - STACK_SIZE * of_nat i)"

subsection \<open>Steps\<close>

text \<open>
  Where a core is: off; core 0 in \<^verbatim>\<open>kernel_main\<close>, in the loop of \<^verbatim>\<open>start_secondary_cpus\<close> at core \<open>i\<close>
  before and after the call of the firmware; another core in \<^verbatim>\<open>second_kernel_main\<close>; and then in
  \<^verbatim>\<open>main_entry\<close>: before the tasks are created, in \<^verbatim>\<open>spin_lock\<close>, at the load and the store of
  \<^verbatim>\<open>inited_cpu_num ++\<close>, in \<^verbatim>\<open>spin_unlock\<close>, in the waiting loop, before \<^verbatim>\<open>schedule_init_local\<close>, and
  with interrupts enabled.
\<close>

datatype boot_pc =
    Off | Kernel_init | Start nat | Started nat | Second_init
  | Entry | Lock | Load | Store u32 | Unlock | Wait | Local | Enabled

record boot =
  kern :: kstate
  spin :: lock_state
  inited_cpu_num :: u32
  at :: "nat \<Rightarrow> boot_pc"

definition goto :: "nat \<Rightarrow> boot_pc \<Rightarrow> boot \<Rightarrow> boot" where
  "goto c p s = s\<lparr>at := (at s)(c := p)\<rparr>"

definition set_thread :: "nat \<Rightarrow> thread_info \<Rightarrow> kstate \<Rightarrow> kstate" where
  "set_thread c ti k = k\<lparr>threads := (threads k)(c := ti)\<rparr>"

text \<open>What core 0 does at the start of \<^verbatim>\<open>main_entry\<close> to the scheduler's state.\<close>

definition main_tasks :: "kstate \<Rightarrow> kstate" where
  "main_tasks k =
     (let k = schedule_init k;
          k = fst (create_task k 0x80000000 0x80004000)
      in fst (create_task k 0x90000000 0x90004000))"

text \<open>The instructions of \<^verbatim>\<open>spin_trylock\<close>, which \<^verbatim>\<open>main_entry\<close> does not call.\<close>

definition tries :: "lock_pc \<Rightarrow> bool" where
  "tries p \<longleftrightarrow> (case p of Try_ldaxr \<Rightarrow> True | Try_test v \<Rightarrow> True | Try_stlxr \<Rightarrow> True
     | Try_status v \<Rightarrow> True | Try_failed \<Rightarrow> True | _ \<Rightarrow> False)"

inductive boot_step :: "u32 \<Rightarrow> (nat \<Rightarrow> u32) \<Rightarrow> boot \<Rightarrow> boot \<Rightarrow> bool" for smp cpu_on where
  kernel_main: "at s 0 = Kernel_init \<Longrightarrow>
    boot_step smp cpu_on s (goto 0 (Start 1) (s\<lparr>spin := spinlock_init, kern := set_thread 0 (thread_info_init 0 0) (kern s)\<rparr>))"
| cpu_on_ok: "at s 0 = Start i \<Longrightarrow> i < unat smp \<Longrightarrow> cpu_on i = 0 \<Longrightarrow>
    boot_step smp cpu_on s (goto 0 (Started i) (goto i Second_init s))"
| cpu_on_fails: "at s 0 = Start i \<Longrightarrow> i < unat smp \<Longrightarrow> cpu_on i \<noteq> 0 \<Longrightarrow> boot_step smp cpu_on s (goto 0 (Started i) s)"
| thread_init: "at s 0 = Started i \<Longrightarrow>
    boot_step smp cpu_on s (goto 0 (Start (Suc i)) (s\<lparr>kern := set_thread i (thread_info_init 0 (of_nat i)) (kern s)\<rparr>))"
| all_started: "at s 0 = Start i \<Longrightarrow> \<not> i < unat smp \<Longrightarrow> boot_step smp cpu_on s (goto 0 Entry s)"
| second_kernel_main: "at s c = Second_init \<Longrightarrow> boot_step smp cpu_on s (goto c Entry s)"
| entry: "at s c = Entry \<Longrightarrow>
    boot_step smp cpu_on s (goto c Lock (if c = 0 then s\<lparr>kern := main_tasks (kern s)\<rparr> else s))"
| locking: "at s c = Lock \<Longrightarrow> pcs (spin s) c \<noteq> Holding \<Longrightarrow> lock_step c (spin s) l \<Longrightarrow> \<not> tries (pcs l c) \<Longrightarrow>
    boot_step smp cpu_on s (s\<lparr>spin := l\<rparr>)"
| locked: "at s c = Lock \<Longrightarrow> pcs (spin s) c = Holding \<Longrightarrow> boot_step smp cpu_on s (goto c Load s)"
| load: "at s c = Load \<Longrightarrow> boot_step smp cpu_on s (goto c (Store (inited_cpu_num s)) s)"
| store: "at s c = Store v \<Longrightarrow> boot_step smp cpu_on s (goto c Unlock (s\<lparr>inited_cpu_num := v + 1\<rparr>))"
| unlocking: "at s c = Unlock \<Longrightarrow> pcs (spin s) c \<noteq> Idle \<Longrightarrow> lock_step c (spin s) l \<Longrightarrow> boot_step smp cpu_on s (s\<lparr>spin := l\<rparr>)"
| unlocked: "at s c = Unlock \<Longrightarrow> pcs (spin s) c = Idle \<Longrightarrow> boot_step smp cpu_on s (goto c Wait s)"
| barrier: "at s c = Wait \<Longrightarrow> inited_cpu_num s = smp \<Longrightarrow> boot_step smp cpu_on s (goto c Local s)"
| local_init: "at s c = Local \<Longrightarrow> boot_step smp cpu_on s (goto c Enabled (s\<lparr>kern := schedule_init_local (kern s) c\<rparr>))"
| tick: "at s c = Enabled \<Longrightarrow> timer_tick_schedule smp (kern s) c sp = Some (k, sw) \<Longrightarrow> boot_step smp cpu_on s (s\<lparr>kern := k\<rparr>)"

text \<open>The state \<^verbatim>\<open>boot.S\<close> leaves: core 0 enters \<^verbatim>\<open>kernel_main\<close>, the static data are zero.\<close>

inductive boot_reach :: "u32 \<Rightarrow> (nat \<Rightarrow> u32) \<Rightarrow> kstate \<Rightarrow> boot \<Rightarrow> bool" for smp cpu_on k where
  power_on: "boot_reach smp cpu_on k \<lparr>kern = k, spin = spinlock_init, inited_cpu_num = 0, at = (\<lambda>_. Off)(0 := Kernel_init)\<rparr>"
| next_step: "boot_reach smp cpu_on k s \<Longrightarrow> boot_step smp cpu_on s t \<Longrightarrow> boot_reach smp cpu_on k t"

inductive_cases boot_stepE: "boot_step smp cpu_on s t"

subsection \<open>Invariant\<close>

text \<open>Past the increment of the counter; past the barrier.\<close>

definition counted :: "boot_pc \<Rightarrow> bool" where
  "counted p \<longleftrightarrow> p \<in> {Unlock, Wait, Local, Enabled}"

definition passed :: "boot_pc \<Rightarrow> bool" where
  "passed p \<longleftrightarrow> p \<in> {Local, Enabled}"

text \<open>Positions only core 0 takes, and positions it never takes.\<close>

definition primary :: "boot_pc \<Rightarrow> bool" where
  "primary p \<longleftrightarrow> (case p of Kernel_init \<Rightarrow> True | Start i \<Rightarrow> True | Started i \<Rightarrow> True | _ \<Rightarrow> False)"

text \<open>The least core that cannot have been started yet, and how many thread information blocks are ready.\<close>

fun unstarted :: "u32 \<Rightarrow> boot_pc \<Rightarrow> nat" where
  "unstarted smp Kernel_init = 1"
| "unstarted smp (Start i) = i"
| "unstarted smp (Started i) = Suc i"
| "unstarted smp _ = unat smp"

fun ready_blocks :: "u32 \<Rightarrow> boot_pc \<Rightarrow> nat" where
  "ready_blocks smp Kernel_init = 0"
| "ready_blocks smp (Start i) = i"
| "ready_blocks smp (Started i) = i"
| "ready_blocks smp _ = unat smp"

definition order_inv :: "u32 \<Rightarrow> (nat \<Rightarrow> u32) \<Rightarrow> boot \<Rightarrow> bool" where
  "order_inv smp cpu_on s \<longleftrightarrow>
     (\<forall>c. 0 < c \<longrightarrow> \<not> primary (at s c) \<and> (unstarted smp (at s 0) \<le> c \<or> cpu_on c \<noteq> 0 \<longrightarrow> at s c = Off)) \<and>
     at s 0 \<notin> {Off, Second_init} \<and> 0 < unstarted smp (at s 0) \<and> unstarted smp (at s 0) \<le> unat smp"

definition lock_ok :: "boot_pc \<Rightarrow> lock_pc \<Rightarrow> bool" where
  "lock_ok p q \<longleftrightarrow> (case p of Lock \<Rightarrow> \<not> tries q \<and> q \<noteq> Stlr | Load \<Rightarrow> q = Holding | Store v \<Rightarrow> q = Holding
     | Unlock \<Rightarrow> q \<in> {Holding, Stlr, Idle} | _ \<Rightarrow> q = Idle)"

definition crit_inv :: "boot \<Rightarrow> bool" where
  "crit_inv s \<longleftrightarrow> lock_inv (spin s) \<and> (\<forall>c. lock_ok (at s c) (pcs (spin s) c))"

definition count_inv :: "u32 \<Rightarrow> boot \<Rightarrow> bool" where
  "count_inv smp s \<longleftrightarrow> (\<forall>c v. at s c = Store v \<longrightarrow> v = inited_cpu_num s) \<and>
     unat (inited_cpu_num s) = card {c. counted (at s c)} \<and> (\<forall>c. passed (at s c) \<longrightarrow> inited_cpu_num s = smp)"

definition blocks_inv :: "u32 \<Rightarrow> boot \<Rightarrow> bool" where
  "blocks_inv smp s \<longleftrightarrow> (\<forall>c < ready_blocks smp (at s 0). ti_cpu (threads (kern s) c) = of_nat c)"

lemma goto_simps [simp]:
  "at (goto c p s) = (at s)(c := p)" "kern (goto c p s) = kern s" "spin (goto c p s) = spin s"
  "inited_cpu_num (goto c p s) = inited_cpu_num s"
  by (simp_all add: goto_def)

lemma unstarted_all: "\<not> primary p \<Longrightarrow> unstarted smp p = unat smp"
  by (cases p) (simp_all add: primary_def)

lemma order_goto:
  assumes "order_inv smp cpu_on s" "at s c \<noteq> Off" "\<not> primary (at s c)" "\<not> primary p" "p \<notin> {Off, Second_init}"
  shows "order_inv smp cpu_on (goto c p s)"
proof (cases "c = 0")
  case True
  then show ?thesis using assms unstarted_all [of "at s 0" smp] unstarted_all [of p smp] by (simp add: order_inv_def)
next
  case False
  have "\<not> primary (((at s)(c := p)) d) \<and> (unstarted smp (at s 0) \<le> d \<or> cpu_on d \<noteq> 0 \<longrightarrow> ((at s)(c := p)) d = Off)"
    if "0 < d" for d using assms that False by (cases "d = c") (auto simp: order_inv_def)
  then show ?thesis using assms False by (simp add: order_inv_def)
qed

lemma order_kern [simp]:
  "order_inv smp cpu_on (s\<lparr>kern := k\<rparr>) = order_inv smp cpu_on s" "order_inv smp cpu_on (s\<lparr>spin := l\<rparr>) = order_inv smp cpu_on s"
  "order_inv smp cpu_on (s\<lparr>inited_cpu_num := v\<rparr>) = order_inv smp cpu_on s"
  by (simp_all add: order_inv_def)

lemma order_step:
  assumes "boot_step smp cpu_on s t" "order_inv smp cpu_on s"
  shows "order_inv smp cpu_on t"
  using assms
proof (induction rule: boot_step.induct)
  case (kernel_main s)
  then show ?case by (simp add: order_inv_def primary_def)
next
  case (cpu_on_ok s i)
  then have "at s c = Off" if "0 < c" "Suc i \<le> c \<or> cpu_on c \<noteq> 0" for c using that by (auto simp: order_inv_def)
  then show ?case using cpu_on_ok by (simp add: order_inv_def primary_def)
next
  case (cpu_on_fails s i)
  then have "at s c = Off" if "0 < c" "Suc i \<le> c \<or> cpu_on c \<noteq> 0" for c using that by (auto simp: order_inv_def)
  then show ?case using cpu_on_fails by (simp add: order_inv_def primary_def)
next
  case (thread_init s i)
  then show ?case by (simp add: order_inv_def primary_def)
next
  case (all_started s i)
  then show ?case by (simp add: order_inv_def primary_def)
next
  case (entry s c)
  then show ?case by (auto intro!: order_goto simp: primary_def)
qed (simp_all add: order_goto primary_def)

lemma lock_step_other: "lock_step i s t \<Longrightarrow> j \<noteq> i \<Longrightarrow> pcs t j = pcs s j"
  by (induction rule: lock_step.induct) (simp_all add: lock_ops)

lemma lock_step_locking:
  "lock_step i s t \<Longrightarrow> \<not> tries (pcs s i) \<Longrightarrow> pcs s i \<noteq> Stlr \<Longrightarrow> pcs s i \<noteq> Holding \<Longrightarrow> pcs t i \<noteq> Stlr"
  by (induction rule: lock_step.induct) (simp_all add: lock_ops)

lemma lock_step_unlocking: "lock_step i s t \<Longrightarrow> pcs s i = Holding \<or> pcs s i = Stlr \<Longrightarrow> pcs t i = Stlr \<or> pcs t i = Idle"
  by (induction rule: lock_step.induct) (auto simp: lock_ops)

lemma crit_goto:
  "crit_inv s \<Longrightarrow> (lock_ok (at s c) (pcs (spin s) c) \<Longrightarrow> lock_ok p (pcs (spin s) c)) \<Longrightarrow> crit_inv (goto c p s)"
  by (auto simp: crit_inv_def)

lemma crit_lock:
  assumes "crit_inv s" "lock_step c (spin s) l" "lock_ok (at s c) (pcs l c)"
  shows "crit_inv (s\<lparr>spin := l\<rparr>)"
  unfolding crit_inv_def
proof (intro conjI allI)
  show "lock_inv (spin (s\<lparr>spin := l\<rparr>))" using assms lock_step_inv by (simp add: crit_inv_def)
  fix d show "lock_ok (at (s\<lparr>spin := l\<rparr>) d) (pcs (spin (s\<lparr>spin := l\<rparr>)) d)"
    using assms lock_step_other [of c "spin s" l d] by (cases "d = c") (auto simp: crit_inv_def)
qed

lemma crit_kern [simp]: "crit_inv (s\<lparr>kern := k\<rparr>) = crit_inv s" "crit_inv (s\<lparr>inited_cpu_num := v\<rparr>) = crit_inv s"
  by (simp_all add: crit_inv_def)

lemma crit_at: "crit_inv s \<Longrightarrow> at s c = p \<Longrightarrow> lock_ok p (pcs (spin s) c)"
  by (auto simp: crit_inv_def)

lemma crit_step:
  assumes "boot_step smp cpu_on s t" "order_inv smp cpu_on s" "crit_inv s"
  shows "crit_inv t"
  using assms
proof (induction rule: boot_step.induct)
  case (kernel_main s)
  then show ?case using lock_inv_init by (auto simp: crit_inv_def order_inv_def lock_ok_def spinlock_init_def Suc_le_eq)
next
  case (cpu_on_ok s i)
  then have "0 < i" "at s i = Off" by (auto simp: order_inv_def)
  then show ?case using cpu_on_ok by (intro crit_goto) (auto simp: lock_ok_def)
next
  case (locking s c l)
  then show ?case using crit_at [of s c Lock] lock_step_locking [of c "spin s" l] by (intro crit_lock) (auto simp: lock_ok_def)
next
  case (unlocking s c l)
  then show ?case using crit_at [of s c Unlock] lock_step_unlocking [of c "spin s" l] by (intro crit_lock) (auto simp: lock_ok_def)
next
  case (entry s c)
  then show ?case by (intro crit_goto) (auto simp: lock_ok_def tries_def)
qed (auto intro!: crit_goto simp: lock_ok_def)


lemma order_core:
  assumes "order_inv smp cpu_on s" "at s c \<noteq> Off"
  shows "c < unat smp"
proof -
  have "c < unstarted smp (at s 0)"
  proof (rule ccontr)
    assume "\<not> c < unstarted smp (at s 0)"
    then have "0 < c" "unstarted smp (at s 0) \<le> c" using assms(1) by (simp_all add: order_inv_def)
    then show False using assms by (simp add: order_inv_def)
  qed
  then show ?thesis using assms(1) by (simp add: order_inv_def)
qed

lemma counted_core: "order_inv smp cpu_on s \<Longrightarrow> {c. counted (at s c)} \<subseteq> {..<unat smp}"
  using order_core by (fastforce simp: counted_def)

lemma count_goto:
  assumes "count_inv smp s" "counted p = counted (at s c)" "passed p \<Longrightarrow> passed (at s c) \<or> inited_cpu_num s = smp"
    "\<And>v. p = Store v \<Longrightarrow> v = inited_cpu_num s"
  shows "count_inv smp (goto c p s)"
proof -
  have "{d. counted (((at s)(c := p)) d)} = {d. counted (at s d)}" using assms(2) by auto
  moreover have "passed (((at s)(c := p)) d) \<Longrightarrow> inited_cpu_num s = smp" for d
    using assms(1,3) by (cases "d = c") (auto simp: count_inv_def)
  moreover have "((at s)(c := p)) d = Store v \<Longrightarrow> v = inited_cpu_num s" for d v
    using assms(1,4) by (cases "d = c") (auto simp: count_inv_def)
  ultimately show ?thesis using assms(1) by (simp add: count_inv_def del: fun_upd_apply)
qed

lemma count_frame [simp]:
  "count_inv smp (s\<lparr>kern := k\<rparr>) = count_inv smp s" "count_inv smp (s\<lparr>spin := l\<rparr>) = count_inv smp s"
  by (simp_all add: count_inv_def)

lemma holding_once: "crit_inv s \<Longrightarrow> pcs (spin s) c = Holding \<Longrightarrow> pcs (spin s) d = Holding \<Longrightarrow> c = d"
  by (auto simp: crit_inv_def lock_inv_def pc_simps)

lemma count_store:
  assumes "count_inv smp s" "order_inv smp cpu_on s" "crit_inv s" "at s c = Store v"
  shows "count_inv smp (goto c Unlock (s\<lparr>inited_cpu_num := v + 1\<rparr>))"
proof -
  let ?C = "{d. counted (at s d)}"
  have sub: "insert c ?C \<subseteq> {..<unat smp}" using counted_core [OF assms(2)] order_core [OF assms(2), of c] assms(4) by simp
  have fin: "finite ?C" using sub finite_subset by auto
  have "c \<notin> ?C" using assms(4) by (simp add: counted_def)
  then have card: "card (insert c ?C) = Suc (card ?C)" using fin by simp
  have le: "card (insert c ?C) \<le> unat smp" using card_mono [OF _ sub] by simp
  have v: "unat v = card ?C" using assms(1,4) by (auto simp: count_inv_def)
  have "unat (v + 1) = Suc (unat v)"
  proof (rule unat_Suc_less)
    show "v < smp" using le card v by (simp add: word_less_nat_alt)
  qed
  then have num: "unat (v + 1) = card (insert c ?C)" by (simp add: card v)
  have "\<not> passed (at s d)" for d
  proof
    assume "passed (at s d)"
    then have "inited_cpu_num s = smp" using assms(1) by (auto simp: count_inv_def)
    then have "card ?C = unat smp" using assms(1) by (simp add: count_inv_def)
    then show False using le card by simp
  qed
  moreover have "at s d \<noteq> Store w" if "d \<noteq> c" for d w
  proof
    assume "at s d = Store w"
    then have "pcs (spin s) d = Holding" "pcs (spin s) c = Holding"
      using crit_at [OF assms(3)] assms(4) by (fastforce simp: lock_ok_def)+
    then show False using holding_once [OF assms(3)] that by blast
  qed
  moreover have "{d. counted (((at s)(c := Unlock)) d)} = insert c ?C" by (auto simp: counted_def)
  ultimately show ?thesis using num by (auto simp: count_inv_def passed_def)
qed

lemma count_step:
  assumes "boot_step smp cpu_on s t" "order_inv smp cpu_on s" "crit_inv s" "count_inv smp s"
  shows "count_inv smp t"
  using assms
proof (induction rule: boot_step.induct)
  case (store s c v)
  then show ?case by (intro count_store)
next
  case (cpu_on_ok s i)
  then have "0 < i" "at s i = Off" by (auto simp: order_inv_def)
  then show ?case using cpu_on_ok by (intro count_goto) (auto simp: counted_def passed_def)
qed (auto intro!: count_goto simp: counted_def passed_def)


subsection \<open>The scheduler's state during the start\<close>

lemma main_tasks_threads [simp]: "threads (main_tasks k) = threads k"
  by (simp add: main_tasks_def create_task_def schedule_init_def Let_def)

lemma do_schedule_cpu:
  assumes "do_schedule smp k c sp = Some (k', sw)"
  shows "task_count k' = task_count k \<and> (\<forall>d. ti_cpu (threads k' d) = ti_cpu (threads k d))"
proof (cases "task_count k = smp \<or> current k c = None")
  case False
  then obtain t where t: "current k c = Some t" "task_count k \<noteq> smp" by auto
  obtain nx found where p: "pick_loop (task_list k) (task_count k) (tcb_id (task_list k ! t)) 1 (- 1) = (nx, found)"
    by (cases "pick_loop (task_list k) (task_count k) (tcb_id (task_list k ! t)) 1 (- 1)")
  from assms t p show ?thesis by (simp add: do_schedule_def Let_def split: if_splits option.splits) auto
qed (use assms in \<open>auto simp: do_schedule_def split: if_splits\<close>)

lemma tick_frame:
  assumes "timer_tick_schedule smp k c sp = Some (k', sw)"
  shows "task_count k' = task_count k" "ti_cpu (threads k' d) = ti_cpu (threads k d)"
proof -
  obtain t where t: "current k c = Some t" using assms by (cases "current k c") (simp_all add: timer_tick_schedule_def)
  have "task_count k' = task_count k \<and> ti_cpu (threads k' d) = ti_cpu (threads k d)"
    using assms t by (auto simp: timer_tick_schedule_def Let_def split: if_splits dest!: do_schedule_cpu)
  then show "task_count k' = task_count k" "ti_cpu (threads k' d) = ti_cpu (threads k d)" by simp_all
qed

lemma nth_update_field: "f x = f (xs ! i) \<Longrightarrow> f (xs[i := x] ! j) = f (xs ! j)"
  by (cases "i < length xs") (auto simp: nth_list_update list_update_beyond)

text \<open>With as many tasks as cores a tick only counts.\<close>

lemma tick_full:
  assumes "timer_tick_schedule smp k c sp = Some (k', sw)" "task_count k = smp"
  shows "threads k' = threads k" "state_of k' t = state_of k t" "tasks_wf k \<Longrightarrow> tasks_wf k'"
proof -
  obtain t0 n where "current k c = Some t0" and k': "k' = upd_task t0 (\<lambda>t. t\<lparr>tcb_counter := n t\<rparr>) k"
  proof (cases "current k c")
    case (Some t0)
    let ?k = "upd_task t0 (\<lambda>t. t\<lparr>tcb_counter := tcb_counter t - 1\<rparr>) k"
    have "k' = ?k \<or> k' = upd_task t0 (\<lambda>t. t\<lparr>tcb_counter := SYS_TASK_TICK\<rparr>) ?k"
      using assms Some by (auto simp: timer_tick_schedule_def do_schedule_def Let_def split: if_splits)
    then consider "k' = upd_task t0 (\<lambda>t. t\<lparr>tcb_counter := tcb_counter t - 1\<rparr>) k"
      | "k' = upd_task t0 (\<lambda>t. t\<lparr>tcb_counter := SYS_TASK_TICK\<rparr>) k"
      by (cases "t0 < length (task_list k)") (auto simp: upd_task_def list_update_beyond)
    then show thesis
      using that [of t0 "\<lambda>t. tcb_counter t - 1"] that [of t0 "\<lambda>_. SYS_TASK_TICK"] Some by cases simp_all
  qed (use assms in \<open>simp add: timer_tick_schedule_def\<close>)
  show "threads k' = threads k" by (simp add: k')
  show "state_of k' t = state_of k t" unfolding k' by (simp add: nth_update_field [of tcb_state])
  show "tasks_wf k'" if "tasks_wf k"
    using that unfolding k' tasks_wf_def by (simp add: nth_update_field [of tcb_id] nth_update_field [of tcb_cpu_info])
qed

lemma local_frame:
  "task_count (schedule_init_local k c) = task_count k" "ti_cpu (threads (schedule_init_local k c) d) = ti_cpu (threads k d)"
  by (simp_all add: schedule_init_local_def Let_def)

lemma ready_all: "\<not> primary p \<Longrightarrow> ready_blocks smp p = unat smp"
  by (cases p) (simp_all add: primary_def)

lemma blocks_goto:
  assumes "blocks_inv smp s" "\<not> primary (at s c)" "\<not> primary p"
  shows "blocks_inv smp (goto c p s)"
  using assms ready_all [of "at s 0" smp] ready_all [of p smp] by (cases "c = 0") (auto simp: blocks_inv_def)

lemma blocks_kern:
  "blocks_inv smp s \<Longrightarrow> (\<And>c. ti_cpu (threads k c) = ti_cpu (threads (kern s) c)) \<Longrightarrow> blocks_inv smp (s\<lparr>kern := k\<rparr>)"
  "blocks_inv smp (s\<lparr>spin := l\<rparr>) = blocks_inv smp s" "blocks_inv smp (s\<lparr>inited_cpu_num := v\<rparr>) = blocks_inv smp s"
  by (simp_all add: blocks_inv_def)

lemma blocks_step:
  assumes "boot_step smp cpu_on s t" "order_inv smp cpu_on s" "blocks_inv smp s"
  shows "blocks_inv smp t"
  using assms
proof (induction rule: boot_step.induct)
  case (kernel_main s)
  then show ?case by (simp add: blocks_inv_def set_thread_def thread_info_init_def)
next
  case (cpu_on_ok s i)
  then show ?case by (simp add: blocks_inv_def)
next
  case (cpu_on_fails s i)
  then show ?case by (simp add: blocks_inv_def)
next
  case (thread_init s i)
  then show ?case by (simp add: blocks_inv_def set_thread_def thread_info_init_def less_Suc_eq)
next
  case (all_started s i)
  then show ?case by (simp add: blocks_inv_def)
next
  case (entry s c)
  then show ?case by (auto intro!: blocks_goto blocks_kern simp: primary_def)
next
  case (tick s c sp k sw)
  then show ?case using tick_frame [OF tick(2)] by (intro blocks_kern) simp_all
qed (simp_all add: blocks_goto blocks_kern primary_def local_frame)


text \<open>Core 0 has created the tasks.\<close>

definition created :: "boot_pc \<Rightarrow> bool" where
  "created p \<longleftrightarrow> \<not> primary p \<and> p \<noteq> Entry"

definition task_tables :: "kstate \<Rightarrow> bool" where
  "task_tables k \<longleftrightarrow> length (task_list k) = MAX_TASKS \<and> length (g_cpu_dec k) = MAX_TASKS \<and>
     length (cpu_sysregs k) = MAX_TASKS \<and> task_count k = 0"

text \<open>
  With one core the scheduler's invariant holds from the local initialisation on; with two cores
  every core that has enabled interrupts runs the task of its own number.
\<close>

definition kern_inv :: "u32 \<Rightarrow> boot \<Rightarrow> bool" where
  "kern_inv smp s \<longleftrightarrow>
     (if created (at s 0)
      then tasks_wf (kern s) \<and> task_count (kern s) = 2 \<and>
        (if smp = 1 then (if at s 0 = Enabled then sched_inv 1 (kern s) else \<forall>t < 2. state_of (kern s) t = WAITING)
         else \<forall>c. at s c = Enabled \<longrightarrow> current (kern s) c = Some c \<and> state_of (kern s) c = RUNNING)
      else task_tables (kern s) \<and> (\<forall>c. at s c \<noteq> Enabled))"

lemma main_tasks_ready:
  assumes "task_tables k"
  shows "tasks_wf (main_tasks k)" "task_count (main_tasks k) = 2" "t < 2 \<Longrightarrow> state_of (main_tasks k) t = WAITING"
proof -
  have "tasks_wf (schedule_init k)" "task_count (schedule_init k) = 0"
    using assms by (simp_all add: schedule_init_def tasks_wf_def task_tables_def)
  then have "tasks_wf (create_tasks (schedule_init k) boot_tasks) \<and>
      unat (task_count (create_tasks (schedule_init k) boot_tasks)) = 2 \<and>
      (\<forall>t < 2. state_of (create_tasks (schedule_init k) boot_tasks) t = WAITING)"
    using create_tasks_wf [of "schedule_init k" boot_tasks] by (simp add: boot_tasks_def MAX_TASKS_def)
  moreover have "main_tasks k = create_tasks (schedule_init k) boot_tasks" by (simp add: main_tasks_def boot_tasks_def Let_def)
  ultimately show "tasks_wf (main_tasks k)" "task_count (main_tasks k) = 2" "t < 2 \<Longrightarrow> state_of (main_tasks k) t = WAITING"
    by (simp_all add: word_unat_eq_iff)
qed

text \<open>A core past the barrier sees all cores counted in, and all blocks ready.\<close>

lemma barrier_all:
  assumes "order_inv smp cpu_on s" "count_inv smp s" "passed (at s c)" "d < unat smp"
  shows "counted (at s d)"
proof -
  have "{c. counted (at s c)} \<subseteq> {..<unat smp}" using counted_core [OF assms(1)] .
  moreover have "card {c. counted (at s c)} = unat smp" using assms(2,3) by (auto simp: count_inv_def)
  ultimately have "{c. counted (at s c)} = {..<unat smp}" by (intro card_subset_eq) simp_all
  then show ?thesis using assms(4) by auto
qed

lemma barrier_blocks:
  assumes "order_inv smp cpu_on s" "count_inv smp s" "blocks_inv smp s" "passed (at s c)" "d < unat smp"
  shows "ti_cpu (threads (kern s) d) = of_nat d" "created (at s 0)"
proof -
  have "0 < unat smp" using assms(5) by simp
  then have c: "counted (at s 0)" using barrier_all [OF assms(1,2,4)] by simp
  then show "created (at s 0)" by (auto simp: counted_def created_def primary_def)
  have "ready_blocks smp (at s 0) = unat smp" using c by (intro ready_all) (auto simp: counted_def primary_def)
  then show "ti_cpu (threads (kern s) d) = of_nat d" using assms(3,5) by (simp add: blocks_inv_def)
qed

lemma kern_goto:
  assumes "kern_inv smp s" "c = 0 \<Longrightarrow> created p = created (at s 0)" "at s c \<noteq> Enabled" "p \<noteq> Enabled"
  shows "kern_inv smp (goto c p s)"
  using assms by (cases "c = 0") (auto simp: kern_inv_def)

lemma kern_frame [simp]:
  "kern_inv smp (s\<lparr>spin := l\<rparr>) = kern_inv smp s" "kern_inv smp (s\<lparr>inited_cpu_num := v\<rparr>) = kern_inv smp s"
  by (simp_all add: kern_inv_def)


lemma local_two:
  assumes "tasks_wf k" "task_count k = 2" "ti_cpu (threads k c) = of_nat c" "c < 2"
  shows "tasks_wf (schedule_init_local k c)" "current (schedule_init_local k c) c = Some c"
    "state_of (schedule_init_local k c) c = RUNNING" "d \<noteq> c \<Longrightarrow> current (schedule_init_local k c) d = current k d"
    "d \<noteq> c \<Longrightarrow> state_of (schedule_init_local k c) d = state_of k d"
proof -
  have "unat (ti_cpu (threads k c)) = c" unfolding assms(3) using assms(4) by (intro unat_task_id) (simp add: MAX_TASKS_def)
  moreover have "c < length (task_list k)" using assms(1,4) by (simp add: tasks_wf_def MAX_TASKS_def)
  ultimately show "tasks_wf (schedule_init_local k c)" "current (schedule_init_local k c) c = Some c"
    "state_of (schedule_init_local k c) c = RUNNING" "d \<noteq> c \<Longrightarrow> current (schedule_init_local k c) d = current k d"
    "d \<noteq> c \<Longrightarrow> state_of (schedule_init_local k c) d = state_of k d"
    using assms(1) by (auto simp: schedule_init_local_def Let_def tasks_wf_def nth_list_update)
qed

lemma kern_local:
  assumes "order_inv smp cpu_on s" "count_inv smp s" "blocks_inv smp s" "kern_inv smp s" "at s c = Local" "unat smp \<le> 2"
  shows "kern_inv smp (goto c Enabled (s\<lparr>kern := schedule_init_local (kern s) c\<rparr>))"
proof -
  have p: "passed (at s c)" using assms(5) by (simp add: passed_def)
  have c: "c < unat smp" using order_core [OF assms(1)] assms(5) by simp
  note b = barrier_blocks [OF assms(1-3) p c]
  have k: "tasks_wf (kern s)" "task_count (kern s) = 2" using assms(4) b(2) by (auto simp: kern_inv_def)
  show ?thesis
  proof (cases "smp = 1")
    case True
    then have c0: "c = 0" using c by simp
    have "sched_inv 1 (schedule_init_local (kern s) 0)"
      using assms(4,5) b k True c0 by (intro single_core_inv) (auto simp: kern_inv_def)
    then show ?thesis using True c0 k by (auto simp: kern_inv_def created_def primary_def local_frame sched_inv_def)
  next
    case False
    have c2: "c < 2" using c assms(6) by simp
    note l = local_two [OF k b(1) c2]
    have "created (((at s)(c := Enabled)) 0)" using b(2) by (cases "c = 0") (simp_all add: created_def primary_def)
    moreover have "current (schedule_init_local (kern s) c) d = Some d \<and> state_of (schedule_init_local (kern s) c) d = RUNNING"
      if "((at s)(c := Enabled)) d = Enabled" for d
      using l that assms(4) b(2) False by (cases "d = c") (auto simp: kern_inv_def)
    ultimately show ?thesis using l(1) k False by (simp add: kern_inv_def local_frame del: fun_upd_apply)
  qed
qed

lemma kern_tick:
  assumes "order_inv smp cpu_on s" "kern_inv smp s" "at s c = Enabled" "0 < unat smp" "unat smp \<le> 2"
    and t: "timer_tick_schedule smp (kern s) c sp = Some (k, sw)"
  shows "kern_inv smp (s\<lparr>kern := k\<rparr>)"
proof -
  have c: "c < unat smp" using order_core [OF assms(1)] assms(3) by simp
  have cr: "created (at s 0)" using assms(2,3) by (auto simp: kern_inv_def split: if_splits)
  have k: "tasks_wf (kern s)" "task_count (kern s) = 2" using assms(2) cr by (auto simp: kern_inv_def)
  have n: "task_count k = 2" using tick_frame(1) [OF t] k by simp
  show ?thesis
  proof (cases "smp = 1")
    case True
    then have "c = 0" using c by simp
    then have "sched_inv 1 (kern s)" using assms(2,3) True cr by (simp add: kern_inv_def)
    then have "sched_inv 1 k" using sched_step_inv [OF sched_step.step_tick [OF c t]] True by simp
    then show ?thesis using True cr n \<open>c = 0\<close> assms(3) by (simp add: kern_inv_def sched_inv_def)
  next
    case False
    then have "unat smp \<noteq> unat (1 :: u32)" unfolding word_unat_eq_iff .
    then have "unat smp = unat (2 :: u32)" using assms(4,5) by simp
    then have "smp = 2" unfolding word_unat_eq_iff .
    then have "task_count (kern s) = smp" using k by simp
    note f = tick_full [OF t this]
    show ?thesis using assms(2) f cr k n False by (simp add: kern_inv_def)
  qed
qed

lemma kern_step:
  assumes "boot_step smp cpu_on s t" "order_inv smp cpu_on s" "count_inv smp s" "blocks_inv smp s" "kern_inv smp s"
    "0 < unat smp" "unat smp \<le> 2"
  shows "kern_inv smp t"
  using assms
proof (induction rule: boot_step.induct)
  case (kernel_main s)
  then show ?case by (simp add: kern_inv_def created_def primary_def task_tables_def set_thread_def)
next
  case (cpu_on_ok s i)
  then have "0 < i" "at s i = Off" by (auto simp: order_inv_def)
  then show ?case using cpu_on_ok by (intro kern_goto) (simp_all add: created_def primary_def)
next
  case (thread_init s i)
  then show ?case by (simp add: kern_inv_def created_def primary_def task_tables_def set_thread_def)
next
  case (second_kernel_main s c)
  then have "c \<noteq> 0" by (intro notI) (simp add: order_inv_def)
  then show ?case using second_kernel_main by (intro kern_goto) simp_all
next
  case (entry s c)
  show ?case
  proof (cases "c = 0")
    case True
    then have "task_tables (kern s)" "\<And>d. at s d \<noteq> Enabled" using entry by (simp_all add: kern_inv_def created_def)
    then show ?thesis using main_tasks_ready [of "kern s"] True by (simp add: kern_inv_def created_def primary_def)
  next
    case False
    then show ?thesis using entry by (auto intro!: kern_goto)
  qed
next
  case (local_init s c)
  then show ?case by (intro kern_local)
next
  case (tick s c sp k sw)
  then show ?case by (intro kern_tick)
qed (auto intro!: kern_goto simp: created_def primary_def)


subsection \<open>Properties\<close>

lemma boot_reach_order:
  assumes "boot_reach smp cpu_on k s" "0 < unat smp"
  shows "order_inv smp cpu_on s"
  using assms(1)
proof (induction rule: boot_reach.induct)
  case power_on
  then show ?case using assms(2) by (simp add: order_inv_def primary_def)
qed (rule order_step)

lemma order_cpu_on: "order_inv smp cpu_on s \<Longrightarrow> at s d \<noteq> Off \<Longrightarrow> 0 < d \<Longrightarrow> cpu_on d = 0"
  by (rule ccontr) (simp add: order_inv_def)

lemma boot_reach_counts:
  assumes "boot_reach smp cpu_on k s" "0 < unat smp"
  shows "crit_inv s \<and> count_inv smp s \<and> blocks_inv smp s"
  using assms(1)
proof (induction rule: boot_reach.induct)
  case power_on
  show ?case using lock_inv_init
    by (simp add: crit_inv_def count_inv_def blocks_inv_def lock_ok_def counted_def passed_def spinlock_init_def)
next
  case (next_step s t)
  then show ?case using boot_reach_order [OF next_step(1) assms(2)] crit_step count_step blocks_step by blast
qed

lemma boot_reach_kern:
  assumes "boot_reach smp cpu_on k s" "0 < unat smp" "unat smp \<le> 2" "task_tables k"
  shows "kern_inv smp s"
  using assms(1)
proof (induction rule: boot_reach.induct)
  case power_on
  show ?case using assms(4) by (simp add: kern_inv_def created_def primary_def)
next
  case (next_step s t)
  have i: "count_inv smp s" "blocks_inv smp s" using boot_reach_counts [OF next_step(1) assms(2)] by simp_all
  show ?case by (rule kern_step [OF next_step(2) boot_reach_order [OF next_step(1) assms(2)] i next_step.IH assms(2,3)])
qed

text \<open>
  C8. The start-up barrier, for every number of cores and every answer of the firmware: a core that
  is past the barrier finds every core counted in, the thread information block of every core
  initialised with the core's number, although core 0 writes it only after it has started the core,
  and the tasks created; no increment of the counter is lost; and if the firmware refuses to start
  a core, no core ever passes.
\<close>

theorem boot_barrier:
  assumes "boot_reach smp cpu_on k s" "0 < unat smp" "passed (at s c)" "d < unat smp"
  shows "counted (at s d) \<and> unat (inited_cpu_num s) = card {e. counted (at s e)} \<and>
     ti_cpu (threads (kern s) d) = of_nat d \<and> created (at s 0) \<and> (0 < d \<longrightarrow> cpu_on d = 0)"
proof -
  note o = boot_reach_order [OF assms(1,2)]
  have i: "count_inv smp s" "blocks_inv smp s" using boot_reach_counts [OF assms(1,2)] by simp_all
  have d: "counted (at s d)" using barrier_all [OF o i(1) assms(3,4)] .
  then have "cpu_on d = 0" if "0 < d" using order_cpu_on [OF o _ that] by (auto simp: counted_def)
  then show ?thesis using d i(1) barrier_blocks [OF o i assms(3,4)] by (simp add: count_inv_def)
qed

text \<open>
  C7. The kernel as it is configured, with its two tasks on one or two cores: however the steps of
  the cores interleave, from power-on over the barrier to timer ticks that come before the other
  core is ready, every core with interrupts enabled has a current task that is in state
  \<^verbatim>\<open>RUNNING\<close>, two such cores never have the same one, and a timer tick never goes through a null
  task pointer.
\<close>

theorem boot_exclusive:
  assumes "boot_reach smp cpu_on k s" "0 < unat smp" "unat smp \<le> 2" "task_tables k" "at s c = Enabled"
  shows "(\<exists>t < 2. current (kern s) c = Some t \<and> state_of (kern s) t = RUNNING) \<and>
     (\<forall>d. at s d = Enabled \<and> d \<noteq> c \<longrightarrow> current (kern s) d \<noteq> current (kern s) c) \<and>
     timer_tick_schedule smp (kern s) c sp \<noteq> None"
proof -
  note o = boot_reach_order [OF assms(1,2)] and kn = boot_reach_kern [OF assms(1-4)]
  have c: "e < unat smp" if "at s e = Enabled" for e using order_core [OF o] that by simp
  have cr: "created (at s 0)" using kn assms(5) by (auto simp: kern_inv_def split: if_splits)
  have n: "task_count (kern s) = 2" using kn cr by (simp add: kern_inv_def)
  show ?thesis
  proof (cases "smp = 1")
    case True
    then have c0: "e = 0" if "at s e = Enabled" for e using c [OF that] by simp
    then have "at s 0 = Enabled" using assms(5) by auto
    then have inv: "sched_inv 1 (kern s)" using kn cr True by (simp add: kern_inv_def)
    obtain t where "t < 2" "current (kern s) c = Some t" "state_of (kern s) t = RUNNING"
      using inv c0 [OF assms(5)] n by (auto simp: sched_inv_def)
    moreover have "timer_tick_schedule smp (kern s) c sp \<noteq> None"
    proof -
      have "0 < unat (1 :: u32)" by simp
      then obtain s' sw where "timer_tick_schedule 1 (kern s) 0 sp = Some (s', sw)" by (rule timer_tick_inv [OF inv])
      then show ?thesis using True c0 [OF assms(5)] by simp
    qed
    ultimately show ?thesis using c0 assms(5) by blast
  next
    case False
    have e: "current (kern s) e = Some e \<and> state_of (kern s) e = RUNNING" if "at s e = Enabled" for e
      using kn cr False that by (simp add: kern_inv_def)
    have "unat smp \<noteq> unat (1 :: u32)" using False unfolding word_unat_eq_iff .
    then have "unat smp = unat (2 :: u32)" using assms(2,3) by simp
    then have "smp = 2" unfolding word_unat_eq_iff .
    then have "timer_tick_schedule smp (kern s) c sp \<noteq> None"
      using e [OF assms(5)] n by (simp add: timer_tick_schedule_def do_schedule_def Let_def)
    then show ?thesis using e [OF assms(5)] e c [OF assms(5)] assms(3) by auto
  qed
qed

lemma unat_thread_info_sp: "unat (thread_info_sp sp) = 2 ^ 14 * (unat sp div 2 ^ 14)"
proof -
  have "thread_info_sp sp = push_bit 14 (drop_bit 14 sp)"
  proof -
    have "THREAD_SIZE - 1 = mask 14" by (simp add: THREAD_SIZE_def MIN_THREAD_SHIFT_def mask_eq_exp_minus_1)
    then show ?thesis unfolding thread_info_sp_def
      by (intro bit_word_eqI) (auto simp: bit_and_iff bit_not_iff bit_mask_iff bit_push_bit_iff bit_drop_bit_eq)
  qed
  also have "\<dots> = sp - take_bit 14 sp" using bits_ident [of 14 sp] by (simp add: algebra_simps)
  also have "unat \<dots> = unat sp - unat sp mod 2 ^ 14"
    by (subst unat_sub) (simp_all add: word_le_nat_alt take_bit_eq_mod unat_mod_distrib)
  finally show ?thesis by (simp add: minus_mod_eq_mult_div)
qed

lemma unat_stack_offset: "i \<le> 4 \<Longrightarrow> unat (STACK_SIZE * of_nat i) = 2 ^ 14 * i"
proof -
  assume "i \<le> 4"
  moreover have "STACK_SIZE * of_nat i = (of_nat (2 ^ 14 * i) :: u64)" by (simp add: STACK_SIZE_def)
  ultimately show ?thesis by (simp only: unat_of_nat) simp
qed

text \<open>The stacks that \<^verbatim>\<open>boot.S\<close> reserves: one for core 0, four below \<^verbatim>\<open>_stack_top_second\<close> for the others.\<close>

definition stacks_ok :: "u64 \<Rightarrow> u64 \<Rightarrow> bool" where
  "stacks_ok st st2 \<longleftrightarrow> unat st mod 2 ^ 14 = 0 \<and> unat st2 mod 2 ^ 14 = 0 \<and> 2 ^ 14 \<le> unat st \<and>
     unat st + 4 * 2 ^ 14 \<le> unat st2"

lemma stack_bounds:
  assumes "stacks_ok st st2" "i \<le> 4"
  shows "unat (thread_info_of st st2 i) = (if i = 0 then unat st - 2 ^ 14 else unat st2 - 2 ^ 14 * i)"
    and "unat (stack_of st st2 i) = unat (thread_info_of st st2 i) + 2 ^ 14"
    and "unat (thread_info_of st st2 i) mod 2 ^ 14 = 0"
proof -
  define a b where "a = unat st div 2 ^ 14" and "b = unat st2 div 2 ^ 14"
  then have ab: "unat st = 2 ^ 14 * a" "unat st2 = 2 ^ 14 * b" using assms(1) by (auto simp: stacks_ok_def)
  have le: "1 \<le> a" "a + 4 \<le> b" using assms(1) unfolding stacks_ok_def ab by simp_all
  have ss: "unat STACK_SIZE = 2 ^ 14" by (simp add: STACK_SIZE_def)
  have info: "unat (st - STACK_SIZE) = unat st - 2 ^ 14" "j \<le> 4 \<Longrightarrow> unat (st2 - STACK_SIZE * of_nat j) = unat st2 - 2 ^ 14 * j" for j
    using le by (subst unat_sub; simp add: word_le_nat_alt ss ab unat_stack_offset)+
  show t: "unat (thread_info_of st st2 i) = (if i = 0 then unat st - 2 ^ 14 else unat st2 - 2 ^ 14 * i)"
    using info(1) info(2) [OF assms(2)] by (simp add: thread_info_of_def)
  have "unat (stack_of st st2 i) = (if i = 0 then unat st else unat st2 - 2 ^ 14 * (i - 1))"
    using info(2) [of "i - 1"] assms(2) by (cases i) (simp_all add: stack_of_def)
  moreover have "2 ^ 14 * (b - i) + 2 ^ 14 = 2 ^ 14 * (b - (i - 1))" if "0 < i" using le assms(2) that by simp
  ultimately show "unat (stack_of st st2 i) = unat (thread_info_of st st2 i) + 2 ^ 14"
    unfolding t ab using le by (simp flip: diff_mult_distrib2)
  show "unat (thread_info_of st st2 i) mod 2 ^ 14 = 0"
    unfolding t ab using mod_mult_self1_is_0 [of "2 ^ 14" "a - 1"] by (simp flip: diff_mult_distrib2)
qed

text \<open>
  Every stack pointer inside the 16 KB stack of a core leads \<^verbatim>\<open>current_thread_info\<close> to the block
  that \<^verbatim>\<open>start_secondary_cpus\<close> initialised for that core, at the bottom of the stack; different cores
  have disjoint stacks, so no core finds the block of another.
\<close>

theorem thread_info_found:
  assumes "stacks_ok st st2" "i \<le> 4" "j \<le> 4"
    and "unat (thread_info_of st st2 i) \<le> unat sp" "unat sp < unat (stack_of st st2 i)"
  shows "thread_info_sp sp = thread_info_of st st2 i \<and>
    (thread_info_sp sp = thread_info_of st st2 j \<longleftrightarrow> i = j)"
proof -
  note b = stack_bounds [OF assms(1,2)]
  obtain q where q: "unat (thread_info_of st st2 i) = 2 ^ 14 * q" using b(3) by fastforce
  have "unat sp div 2 ^ 14 = q" using assms(4,5) unfolding b(2) q by (intro div_nat_eqI) simp_all
  then have sp: "thread_info_sp sp = thread_info_of st st2 i"
    by (simp only: word_unat_eq_iff unat_thread_info_sp q)
  have "unat (thread_info_of st st2 i) = unat (thread_info_of st st2 j) \<longleftrightarrow> i = j"
    using assms(1-3) unfolding b(1) stack_bounds(1) [OF assms(1,3)] by (auto simp: stacks_ok_def)
  then show ?thesis unfolding sp by (simp only: word_unat_eq_iff simp_thms)
qed


theorem thread_info_found_witness:
  "thread_info_sp 0x40123f00 = thread_info_of 0x40108000 0x40124000 1 \<and>
    (thread_info_sp 0x40123f00 = thread_info_of 0x40108000 0x40124000 2 \<longleftrightarrow> (1 :: nat) = 2)"
  by (rule thread_info_found) (simp_all add: stacks_ok_def thread_info_of_def stack_of_def STACK_SIZE_def)

text \<open>A run of one core up to enabled interrupts.\<close>

definition demo_lock :: "u32 \<Rightarrow> bool \<Rightarrow> lock_pc \<Rightarrow> lock_state" where
  "demo_lock v b p = \<lparr>lock = v, monitor = (\<lambda>_. False)(0 := b), pcs = (\<lambda>_. Idle)(0 := p)\<rparr>"

definition demo_boot :: "boot_pc \<Rightarrow> u32 \<Rightarrow> lock_state \<Rightarrow> kstate \<Rightarrow> boot" where
  "demo_boot p n l k = \<lparr>kern = k, spin = l, inited_cpu_num = n, at = (\<lambda>_. Off)(0 := p)\<rparr>"

lemma demo_boot_simps [simp]:
  "goto 0 q (demo_boot p n l k) = demo_boot q n l k"
  "at (demo_boot p n l k) 0 = p" "spin (demo_boot p n l k) = l" "kern (demo_boot p n l k) = k"
  "inited_cpu_num (demo_boot p n l k) = n" "(demo_boot p n l k)\<lparr>spin := l'\<rparr> = demo_boot p n l' k"
  "(demo_boot p n l k)\<lparr>kern := k'\<rparr> = demo_boot p n l k'" "(demo_boot p n l k)\<lparr>inited_cpu_num := n'\<rparr> = demo_boot p n' l k"
  by (simp_all add: demo_boot_def goto_def)

lemma demo_lock_simps [simp]:
  "pcs (demo_lock v b p) 0 = p" "lock (demo_lock v b p) = v" "monitor (demo_lock v b p) 0 = b"
  "jump 0 q (demo_lock v b p) = demo_lock v b q" "load_excl 0 (demo_lock v b p) = demo_lock v True p"
  "store w (demo_lock v b p) = demo_lock w False p" "spinlock_init = demo_lock 0 False Idle"
  by (simp_all add: demo_lock_def lock_ops spinlock_init_def fun_eq_iff)

lemma demo_next:
  "boot_reach smp f k0 s \<Longrightarrow> boot_step smp f s t \<Longrightarrow> t = u \<Longrightarrow> boot_reach smp f k0 u"
  using boot_reach.next_step by blast

lemma demo_locking:
  assumes "boot_reach 1 f k0 (demo_boot Lock n (demo_lock v b p) k)" "lock_step 0 (demo_lock v b p) l" "p \<noteq> Holding" "\<not> tries (pcs l 0)"
  shows "boot_reach 1 f k0 (demo_boot Lock n l k)"
  using demo_next [OF assms(1) boot_step.locking [where c = 0]] assms(2-4) by simp

lemma demo_lock_path:
  assumes "boot_reach 1 f k0 (demo_boot Lock n (demo_lock 0 False Idle) k)"
  shows "boot_reach 1 f k0 (demo_boot Lock n (demo_lock 1 False Holding) k)"
proof -
  have 1: "boot_reach 1 f k0 (demo_boot Lock n (demo_lock 0 False Ldaxr) k)"
    using demo_locking [OF assms lock_step.call_lock] by (simp add: tries_def)
  have 2: "boot_reach 1 f k0 (demo_boot Lock n (demo_lock 0 True (Test 0)) k)"
    using demo_locking [OF 1 lock_step.ldaxr] by (simp add: tries_def)
  have 3: "boot_reach 1 f k0 (demo_boot Lock n (demo_lock 0 True Stlxr) k)"
    using demo_locking [OF 2 lock_step.test_free] by (simp add: tries_def)
  have 4: "boot_reach 1 f k0 (demo_boot Lock n (demo_lock 1 False (Status 0)) k)"
    using demo_locking [OF 3 lock_step.stlxr_ok] by (simp add: tries_def)
  show ?thesis using demo_locking [OF 4 lock_step.status_ok] by (simp add: tries_def)
qed

definition demo_kern :: kstate where
  "demo_kern = schedule_init_local (main_tasks (set_thread 0 (thread_info_init 0 0) boot0)) 0"

lemma demo_boot_reach: "boot_reach 1 (\<lambda>_. 0) boot0 (demo_boot Enabled 1 (demo_lock 0 False Idle) demo_kern)"
proof -
  let ?l = "demo_lock 0 False Idle" and ?h = "demo_lock 1 False Holding" and ?k = "set_thread 0 (thread_info_init 0 0) boot0"
  let ?r = "boot_reach 1 (\<lambda>_. 0) boot0"
  have "?r (demo_boot Kernel_init 0 ?l boot0)" using boot_reach.power_on [of 1 "\<lambda>_. 0" boot0] by (simp add: demo_boot_def)
  then have "?r (demo_boot (Start 1) 0 ?l ?k)" by (rule demo_next) (rule boot_step.kernel_main, simp, simp)
  then have "?r (demo_boot Entry 0 ?l ?k)" by (rule demo_next) (rule boot_step.all_started [of _ 1], simp, simp, simp)
  then have "?r (demo_boot Lock 0 ?l (main_tasks ?k))" by (rule demo_next) (rule boot_step.entry [of _ 0], simp, simp)
  then have "?r (demo_boot Lock 0 ?h (main_tasks ?k))" by (rule demo_lock_path)
  then have "?r (demo_boot Load 0 ?h (main_tasks ?k))" by (rule demo_next) (rule boot_step.locked [of _ 0], simp, simp, simp)
  then have "?r (demo_boot (Store 0) 0 ?h (main_tasks ?k))" by (rule demo_next) (rule boot_step.load [of _ 0], simp, simp)
  then have "?r (demo_boot Unlock 1 ?h (main_tasks ?k))" by (rule demo_next) (rule boot_step.store [of _ 0 0], simp, simp)
  then have "?r (demo_boot Unlock 1 (demo_lock 1 False Stlr) (main_tasks ?k))"
    by (rule demo_next) (rule boot_step.unlocking [of _ 0, OF _ _ lock_step.call_unlock], simp, simp, simp, simp)
  then have "?r (demo_boot Unlock 1 ?l (main_tasks ?k))"
    by (rule demo_next) (rule boot_step.unlocking [of _ 0, OF _ _ lock_step.stlr], simp, simp, simp, simp)
  then have "?r (demo_boot Wait 1 ?l (main_tasks ?k))" by (rule demo_next) (rule boot_step.unlocked [of _ 0], simp, simp, simp)
  then have "?r (demo_boot Local 1 ?l (main_tasks ?k))" by (rule demo_next) (rule boot_step.barrier [of _ 0], simp, simp, simp)
  then show ?thesis by (rule demo_next) (rule boot_step.local_init [of _ 0], simp, simp add: demo_kern_def)
qed

theorem boot_barrier_witness:
  "let s = demo_boot Enabled 1 (demo_lock 0 False Idle) demo_kern in
     counted (at s 0) \<and> unat (inited_cpu_num s) = card {e. counted (at s e)} \<and>
     ti_cpu (threads (kern s) 0) = 0 \<and> created (at s 0)"
  unfolding Let_def using boot_barrier [OF demo_boot_reach, of 0 0] by (simp add: passed_def)

theorem boot_exclusive_witness:
  "let s = demo_boot Enabled 1 (demo_lock 0 False Idle) demo_kern in
     (\<exists>t < 2. current (kern s) 0 = Some t \<and> state_of (kern s) t = RUNNING) \<and> timer_tick_schedule 1 (kern s) 0 None \<noteq> None"
  unfolding Let_def using boot_exclusive [OF demo_boot_reach, of 0 None] by (simp add: task_tables_def boot0_def)

end
