(* ===== verification/Tasklist.thy ===== *)
theory Tasklist
  imports Console
begin

text \<open>
  The report of the tasks that both starts print (\<^verbatim>\<open>print_current_task_list\<close> of \<^verbatim>\<open>schedule/task.c\<close>): the
  task table formatted by \<^verbatim>\<open>printf\<close> and handed to the console. The theory joins the scheduler's state,
  the formatted output and the console.
\<close>

subsection \<open>Model\<close>

text \<open>The two formats, \<^verbatim>\<open>"id: %x, elr: 0x%x\n"\<close> and \<^verbatim>\<open>"\n"\<close>; \<open>f1\<close> and \<open>f2\<close> are their addresses.\<close>

definition task_format :: "u8 list" where
  "task_format = [105, 100, 58, 32, 37, 120, 44, 32, 101, 108, 114, 58, 32, 48, 120, 37, 120, 10]"

definition newline_format :: "u8 list" where
  "newline_format = [10]"

partial_function (option) task_list_loop ::
    "dev \<Rightarrow> u64 \<Rightarrow> u64 \<Rightarrow> u64 \<Rightarrow> u32 \<Rightarrow> mem \<Rightarrow> system \<Rightarrow> (mem \<times> system) option" where
  "task_list_loop dev stk buf f1 i m s =
     (if i < task_count (tasks s)
      then do {
        let task = task_list (tasks s) ! unat i;
        (r, m, s) \<leftarrow> printf dev stk buf f1
           [ucast (tcb_id task), tf_elr (cpu_ctx (g_cpu_dec (tasks s) ! tcb_cpu_info task))] m s;
        task_list_loop dev stk buf f1 (i + 1) m s
      }
      else Some (m, s))"

definition print_current_task_list ::
    "dev \<Rightarrow> u64 \<Rightarrow> u64 \<Rightarrow> u64 \<Rightarrow> u64 \<Rightarrow> mem \<Rightarrow> system \<Rightarrow> (mem \<times> system) option" where
  "print_current_task_list dev stk buf f1 f2 m s = do {
     (m, s) \<leftarrow> task_list_loop dev stk buf f1 0 m s;
     (r, m, s) \<leftarrow> printf dev stk buf f2 [] m s;
     Some (m, s)
   }"

subsection \<open>Specification\<close>

text \<open>The line of a task: its number and the low 32 bits of its entry address, in hexadecimal.\<close>

definition task_line :: "tcb_t \<Rightarrow> cpu_t \<Rightarrow> u8 list" where
  "task_line t p = [105, 100, 58, 32] @ num_text 16 (unat (tcb_id t)) @ [44, 32, 101, 108, 114, 58, 32, 48, 120] @
     num_text 16 (unat (tf_elr (cpu_ctx p)) mod 2 ^ 32) @ [10]"

definition task_lines :: "kstate \<Rightarrow> nat \<Rightarrow> u8 list" where
  "task_lines k i = concat (map (\<lambda>t. task_line (task_list k ! t) (g_cpu_dec k ! tcb_cpu_info (task_list k ! t)))
     [i..<unat (task_count k)])"

text \<open>The stack of a print and the formats, apart from each other.\<close>

definition print_space :: "u64 \<Rightarrow> u64 \<Rightarrow> u64 \<Rightarrow> u64 \<Rightarrow> mem \<Rightarrow> bool" where
  "print_space stk buf f1 f2 m \<longleftrightarrow> clear buf 1023 stk 25 \<and>
     cstr m f1 task_format \<and> off buf 1023 stk f1 (length task_format) \<and>
     cstr m f2 newline_format \<and> off buf 1023 stk f2 (length newline_format)"

subsection \<open>A print of known text\<close>

text \<open>
  The effect of prints: the text is sent, room for \<open>n\<close> characters is left, and nothing else changes but
  the local arrays of the prints.
\<close>

definition printed :: "dev \<Rightarrow> u64 \<Rightarrow> u64 \<Rightarrow> u8 list \<Rightarrow> nat \<Rightarrow> mem \<times> system \<Rightarrow> mem \<times> system \<Rightarrow> bool" where
  "printed dev stk buf out n = (\<lambda>(m, s) (m', s'). console_sent s' = console_sent s @ out \<and> console_room dev n s' \<and>
     console_frame s s' \<and> (\<forall>a. outside buf 1023 stk a \<longrightarrow> m' a = m a))"

lemma printed_trans:
  "printed dev stk buf xs n ms ms' \<Longrightarrow> printed dev stk buf ys k ms' ms'' \<Longrightarrow> printed dev stk buf (xs @ ys) k ms ms''"
  unfolding printed_def by (auto split: prod.splits intro: console_frame_trans)

lemma printf_text:
  assumes "list_all (fmt_ok m buf 1023 stk) ds" "cstr m fmt (concat (map fmt_text ds))"
    and "off buf 1023 stk fmt (length (concat (map fmt_text ds)))" "clear buf 1023 stk 25"
    and "out = concat (map fmt_out ds)" "length out \<le> 1023" "0 \<notin> set out" "console_room dev (length out + n) s"
  shows "\<exists>r m' s'. printf dev stk buf fmt (concat (map fmt_args ds)) m s = Some (r, m', s') \<and>
    printed dev stk buf out n (m, s) (m', s')"
proof -
  have "takeWhile (\<lambda>c. c \<noteq> 0) out = out" using assms(7) by (auto simp: takeWhile_eq_all_conv)
  then have "out = takeWhile (\<lambda>c. c \<noteq> 0) (take 1023 out)" by (simp only: take_all [OF assms(6)])
  from printf_room [OF assms(1-5) this assms(8), of "[]"] obtain m' s' where
    "printf dev stk buf fmt (concat (map fmt_args ds)) m s = Some (of_nat (length out), m', s')"
    "console_sent s' = console_sent s @ out" "console_room dev n s'" "\<forall>a. outside buf 1023 stk a \<longrightarrow> m' a = m a"
    unfolding append_Nil2 by blast
  with printf_frame [OF this(1)] show ?thesis by (auto simp: printed_def)
qed

text \<open>A format apart from the buffers survives a print.\<close>

lemma cstr_survives:
  assumes "cstr m f xs" "off buf n stk f (length xs)" "\<forall>a. outside buf n stk a \<longrightarrow> m' a = m a"
  shows "cstr m' f xs"
  using assms cstr_cong [of xs m' f m] by (auto simp: off_def)

lemma print_space_survives:
  "print_space stk buf f1 f2 m \<Longrightarrow> \<forall>a. outside buf 1023 stk a \<longrightarrow> m' a = m a \<Longrightarrow> print_space stk buf f1 f2 m'"
  using cstr_survives by (fastforce simp: print_space_def)

lemma printed_space:
  "printed dev stk buf out n (m, s) (m', s') \<Longrightarrow> print_space stk buf f1 f2 m \<Longrightarrow> print_space stk buf f1 f2 m'"
  using print_space_survives [of stk buf f1 f2 m m'] by (simp add: printed_def)

subsection \<open>One line\<close>

definition plain_x :: "u64 \<Rightarrow> directive" where
  "plain_x x = Num Hex \<lparr>fs_alt = False, fs_zero = False, fs_minus = False, fs_width = [], fs_long = 0\<rparr> x"

definition line_directives :: "u64 \<Rightarrow> u64 \<Rightarrow> directive list" where
  "line_directives x y = map Plain [105, 100, 58, 32] @ [plain_x x] @
     map Plain [44, 32, 101, 108, 114, 58, 32, 48, 120] @ [plain_x y, Plain 10]"

lemma hex_text: "length (num_text 16 (unat (x :: u32))) \<le> 8" "0 \<notin> set (num_text 16 k)"
proof -
  have "unat x < 2 ^ LENGTH(32)" by (rule unsigned_less)
  then have "unat x < 16 ^ 8" by simp
  from lsd_length [OF this] show "length (num_text 16 (unat x)) \<le> 8" by (simp add: num_text_def)
  show "0 \<notin> set (num_text 16 k)" using lsd_nonzero [of 16 k] by (simp add: num_text_def)
qed

lemma unat_low_word: "unat (ucast x :: u32) = unat x mod 2 ^ 32" for x :: u64
  by (simp add: unsigned_ucast_eq take_bit_eq_mod)

lemma plain_x_out: "fmt_out (plain_x x) = num_text 16 (unat (ucast x :: u32))"
  by (simp add: plain_x_def uns_text_def padded_def fs_props_def width_val_def)

lemma line_directives_texts:
  "concat (map fmt_text (line_directives x y)) = task_format"
  "concat (map fmt_args (line_directives x y)) = [x, y]"
  "list_all (fmt_ok m buf n stk) (line_directives x y)"
  by (simp_all add: line_directives_def plain_x_def task_format_def fs_text_def fs_ok_def)

lemma line_directives_out:
  "concat (map fmt_out (line_directives (ucast (tcb_id t)) (tf_elr (cpu_ctx p)))) = task_line t p"
proof -
  have "ucast (ucast (tcb_id t) :: u64) = tcb_id t" by (simp add: ucast_up_ucast_id is_up)
  then show ?thesis by (simp add: line_directives_def plain_x_out task_line_def unat_low_word)
qed

lemma task_line_bounds: "length (task_line t p) \<le> 1023" "0 \<notin> set (task_line t p)"
proof -
  show "length (task_line t p) \<le> 1023"
    using hex_text(1) [of "tcb_id t"] hex_text(1) [of "ucast (tf_elr (cpu_ctx p))"]
    by (simp add: task_line_def unat_low_word)
  show "0 \<notin> set (task_line t p)" using hex_text(2) by (simp add: task_line_def)
qed

lemma print_line:
  assumes "print_space stk buf f1 f2 m" "console_room dev (length (task_line t p) + n) s"
  shows "\<exists>r m' s'. printf dev stk buf f1 [ucast (tcb_id t), tf_elr (cpu_ctx p)] m s = Some (r, m', s') \<and>
    printed dev stk buf (task_line t p) n (m, s) (m', s')"
proof -
  let ?ds = "line_directives (ucast (tcb_id t)) (tf_elr (cpu_ctx p))"
  have "list_all (fmt_ok m buf 1023 stk) ?ds" "cstr m f1 (concat (map fmt_text ?ds))"
    "off buf 1023 stk f1 (length (concat (map fmt_text ?ds)))" "clear buf 1023 stk 25"
    using assms(1) by (simp_all only: line_directives_texts print_space_def)
  from printf_text [OF this line_directives_out [symmetric] task_line_bounds assms(2)]
  show ?thesis unfolding line_directives_texts .
qed

lemma print_newline:
  assumes "print_space stk buf f1 f2 m" "console_room dev (Suc n) s"
  shows "\<exists>r m' s'. printf dev stk buf f2 [] m s = Some (r, m', s') \<and> printed dev stk buf [10] n (m, s) (m', s')"
proof -
  have "list_all (fmt_ok m buf 1023 stk) [Plain 10]" "cstr m f2 (concat (map fmt_text [Plain 10]))"
    "off buf 1023 stk f2 (length (concat (map fmt_text [Plain 10])))" "clear buf 1023 stk 25"
    using assms(1) by (simp_all add: print_space_def newline_format_def)
  from printf_text [OF this refl, of dev n s] assms(2) show ?thesis by simp
qed

lemma task_lines_step:
  "i < task_count k \<Longrightarrow> task_lines k (unat i) =
     task_line (task_list k ! unat i) (g_cpu_dec k ! tcb_cpu_info (task_list k ! unat i)) @ task_lines k (unat (i + 1))"
  by (simp add: task_lines_def upt_rec [of "unat i"] word_less_nat_alt unat_Suc_less)

lemma task_list_loop_prints:
  assumes "print_space stk buf f1 f2 m" "console_room dev (length (task_lines (tasks s) (unat i)) + n) s"
  shows "\<exists>m' s'. task_list_loop dev stk buf f1 i m s = Some (m', s') \<and>
    printed dev stk buf (task_lines (tasks s) (unat i)) n (m, s) (m', s')"
  using assms
proof (induction "unat (task_count (tasks s)) - unat i" arbitrary: i m s rule: less_induct)
  case less
  show ?case
  proof (cases "i < task_count (tasks s)")
    case False
    then have "task_lines (tasks s) (unat i) = []" by (simp add: task_lines_def word_less_nat_alt)
    with False less.prems show ?thesis by (simp add: task_list_loop.simps printed_def)
  next
    case True
    let ?t = "task_list (tasks s) ! unat i"
    let ?p = "g_cpu_dec (tasks s) ! tcb_cpu_info ?t"
    let ?rest = "task_lines (tasks s) (unat (i + 1))"
    have "console_room dev (length (task_line ?t ?p) + (length ?rest + n)) s"
      using less.prems(2) by (simp add: task_lines_step [OF True] add.assoc)
    from print_line [OF less.prems(1) this] obtain r m1 s1 where p:
      "printf dev stk buf f1 [ucast (tcb_id ?t), tf_elr (cpu_ctx ?p)] m s = Some (r, m1, s1)"
      "printed dev stk buf (task_line ?t ?p) (length ?rest + n) (m, s) (m1, s1)" by blast
    then have k: "tasks s1 = tasks s" "console_room dev (length ?rest + n) s1"
      by (auto simp: printed_def dest: console_frameD)
    have "unat (task_count (tasks s1)) - unat (i + 1) < unat (task_count (tasks s)) - unat i"
      using True k(1) by (simp add: word_less_nat_alt unat_Suc_less)
    from less.hyps [OF this printed_space [OF p(2) less.prems(1)]] k obtain m' s' where l:
      "task_list_loop dev stk buf f1 (i + 1) m1 s1 = Some (m', s')" "printed dev stk buf ?rest n (m1, s1) (m', s')"
      by auto
    from printed_trans [OF p(2) l(2)] have "printed dev stk buf (task_lines (tasks s) (unat i)) n (m, s) (m', s')"
      by (simp add: task_lines_step [OF True])
    with True p(1) l(1) show ?thesis by (simp add: task_list_loop.simps [of dev stk buf f1 i] Let_def)
  qed
qed

lemma print_list_printed:
  assumes "print_space stk buf f1 f2 m" "console_room dev (length (task_lines (tasks s) 0) + 1) s"
  shows "\<exists>m' s'. print_current_task_list dev stk buf f1 f2 m s = Some (m', s') \<and>
    printed dev stk buf (task_lines (tasks s) 0 @ [10]) 0 (m, s) (m', s')"
proof -
  from task_list_loop_prints [where i = 0 and n = 1, OF assms(1), of dev s] assms(2) obtain m1 s1 where
    1: "task_list_loop dev stk buf f1 0 m s = Some (m1, s1)" "printed dev stk buf (task_lines (tasks s) 0) 1 (m, s) (m1, s1)"
    by auto
  then have "console_room dev (Suc 0) s1" by (simp add: printed_def)
  from print_newline [OF printed_space [OF 1(2) assms(1)] this] obtain r m2 s2 where
    2: "printf dev stk buf f2 [] m1 s1 = Some (r, m2, s2)" "printed dev stk buf [10] 0 (m1, s1) (m2, s2)" by blast
  from 1(1) 2(1) printed_trans [OF 1(2) 2(2)] show ?thesis by (simp add: print_current_task_list_def)
qed

text \<open>
  C15. \<^verbatim>\<open>print_current_task_list\<close> returns and sends to the console exactly one line for each task, in the
  order of the table, with the number of the task and the low 32 bits of its entry address in hexadecimal,
  and an empty line at the end; the tasks are unchanged, and so is every byte of the memory outside
  the local arrays of \<^verbatim>\<open>printf\<close>.
\<close>

theorem print_current_task_list_lines:
  assumes "print_space stk buf f1 f2 m" "console_room dev (length (task_lines (tasks s) 0) + 1) s"
  shows "\<exists>m' s'. print_current_task_list dev stk buf f1 f2 m s = Some (m', s') \<and>
    console_sent s' = console_sent s @ task_lines (tasks s) 0 @ [10] \<and> tasks s' = tasks s \<and>
    (\<forall>a. outside buf 1023 stk a \<longrightarrow> m' a = m a)"
  using print_list_printed [OF assms] by (auto simp: printed_def dest: console_frameD)

text \<open>The formats below the buffers, and the tasks of \<open>demo\<close> on a console that drains.\<close>

definition demo_formats :: mem where
  "demo_formats = put_bytes (put_bytes (\<lambda>_. 0) 0x100 (task_format @ [0])) 0x200 (newline_format @ [0])"

lemma demo_print_space: "print_space 0x800 0x300 0x100 0x200 demo_formats"
  using off_below [of "0x100" "length task_format" "0x300" "0x800" 1023]
    off_below [of "0x200" "length newline_format" "0x300" "0x800" 1023]
  by (simp add: print_space_def clear_console demo_formats_def put_bytes_def task_format_def newline_format_def)

theorem print_current_task_list_lines_witness:
  "\<exists>m' s'. print_current_task_list (\<lambda>h a. 0) 0x800 0x300 0x100 0x200 demo_formats demo_console = Some (m', s') \<and>
     console_sent s' = task_lines demo 0 @ [10] \<and> tasks s' = demo \<and>
     (\<forall>a. outside 0x300 1023 0x800 a \<longrightarrow> m' a = demo_formats a)"
proof -
  have "console_room (\<lambda>h a. 0) n demo_console" for n
    by (simp add: console_room_def drains_def demo_console_def)
  moreover have "console_sent demo_console = []" "tasks demo_console = demo"
    by (simp_all add: console_sent_def demo_console_def)
  ultimately show ?thesis
    using print_current_task_list_lines [OF demo_print_space, of "\<lambda>h a. 0" demo_console] by simp
qed


end
