(* ===== verification/Ram.thy ===== *)
theory Ram
  imports Ept Printf
begin

text \<open>
  One memory, two granularities: the copies and the prints work on bytes, the translation tables on
  64-bit words at aligned addresses. The bytes are the memory; \<open>words_of\<close> reads them as little-endian
  words, \<open>bytes_of\<close> is the memory whose aligned words are given. A store of an aligned word through this
  view is the store of its eight bytes (\<open>store_word\<close>).
\<close>

definition store64 :: "mem \<Rightarrow> u64 \<Rightarrow> u64 \<Rightarrow> mem" where
  "store64 m a v = put_bytes m a (map (\<lambda>i. ucast (drop_bit (8 * i) v)) [0..<8])"

definition words_of :: "mem \<Rightarrow> wmem" where
  "words_of m a = foldr (\<lambda>i w. ucast (m (a + of_nat i)) OR push_bit 8 w) [0..<8] 0"

definition align8 :: "u64 \<Rightarrow> u64" where
  "align8 x = of_nat (8 * (unat x div 8))"

definition bytes_of :: "wmem \<Rightarrow> mem" where
  "bytes_of w x = ucast (drop_bit (8 * (unat x mod 8)) (w (align8 x)))"

lemma unat_align8: "unat (align8 x) = 8 * (unat x div 8)"
proof -
  have "8 * (unat x div 8) \<le> unat x" by simp
  also have "\<dots> < 2 ^ 64" using unsigned_less [of x] by simp
  finally show ?thesis unfolding align8_def by (intro of_nat_inverse) simp_all
qed

lemma align8_aligned: "unat a mod 8 = 0 \<Longrightarrow> i < 8 \<Longrightarrow> align8 (a + of_nat i) = a \<and> unat (a + of_nat i) mod 8 = i"
proof -
  assume a: "unat a mod 8 = 0" "i < 8"
  then obtain q where q: "unat a = 8 * q" by auto
  have "8 * q < 2 ^ 64" using unsigned_less [of a] unfolding q [symmetric] by simp
  then have "8 * q + i < 2 ^ 64" using a(2) by simp
  then have u: "unat (a + of_nat i) = 8 * q + i" using q a(2) by (simp add: unat_plus_if_size word_size unat_of_nat)
  then have "unat (align8 (a + of_nat i)) = unat a" unfolding unat_align8 q using a(2) by simp
  then show ?thesis using u a(2) by (simp add: word_unat_eq_iff)
qed

lemma bit_words_of: "bit (words_of m a) n \<longleftrightarrow> n < 64 \<and> bit (m (a + of_nat (n div 8))) (n mod 8)"
proof -
  have "bit (foldr (\<lambda>i w. ucast (m (a + of_nat i)) OR push_bit 8 w) [k..<8] (0 :: u64)) n \<longleftrightarrow>
      n < 64 \<and> k + n div 8 < 8 \<and> bit (m (a + of_nat (k + n div 8))) (n mod 8)" if "k \<le> 8" for k n
    using that
  proof (induction "8 - k" arbitrary: k n)
    case 0
    then show ?case by simp
  next
    case (Suc j)
    then have k: "k < 8" "j = 8 - (k + 1)" by simp_all
    have up: "[k..<8] = k # [k + 1..<8]" using k(1) by (simp add: upt_conv_Cons)
    show ?case
    proof (cases "n < 8")
      case True
      then show ?thesis using k(1) by (simp add: up bit_or_iff bit_push_bit_iff bit_ucast_iff)
    next
      case False
      then obtain i where i: "n = 8 + i" using le_Suc_ex [of 8 n] by auto
      have "\<not> bit (m (a + of_nat k)) n" using False by (auto dest: bit_imp_le_length)
      moreover have "n div 8 = Suc (i div 8)" "n mod 8 = i mod 8" by (simp_all add: i)
      moreover have "k + 1 + i div 8 = k + Suc (i div 8)" by simp
      ultimately show ?thesis using Suc.hyps(1) [OF k(2), of i] k(1)
        by (auto simp only: up foldr_Cons o_apply bit_or_iff bit_push_bit_iff bit_ucast_iff i) (auto simp: i)
    qed
  qed
  from this [of 0 n] show ?thesis by (auto simp: words_of_def less_mult_imp_div_less)
qed

lemma words_of_bytes:
  assumes "unat a mod 8 = 0"
  shows "words_of (bytes_of w) a = w a"
proof (rule bit_word_eqI)
  fix n assume n: "n < LENGTH(64)"
  then have "n div 8 < 8" by (simp add: less_mult_imp_div_less)
  from align8_aligned [OF assms this] show "bit (words_of (bytes_of w) a) n = bit (w a) n"
    using n by (simp add: bit_words_of bytes_of_def bit_ucast_iff bit_drop_bit_eq)
qed

lemma bytes_of_words:
  assumes "w (align8 x) = words_of m (align8 x)"
  shows "bytes_of w x = m x"
proof (rule bit_word_eqI)
  fix n assume n: "n < LENGTH(8)"
  have "unat (align8 x + of_nat (unat x mod 8)) = unat x"
  proof -
    have "unat x < 2 ^ LENGTH(64)" by (rule unsigned_less)
    then show ?thesis using unat_align8 [of x] mult_div_mod_eq [of 8 "unat x"]
      by (simp add: unat_plus_if_size word_size unat_of_nat)
  qed
  then have x: "align8 x + of_nat (unat x mod 8) = x" by (simp only: word_unat_eq_iff)
  have "(8 * (unat x mod 8) + n) div 8 = unat x mod 8" "(8 * (unat x mod 8) + n) mod 8 = n" "8 * (unat x mod 8) + n < 64"
    using n mod_less_divisor [of 8 "unat x"] by auto
  with n x show "bit (bytes_of w x) n = bit (m x) n"
    by (simp add: bytes_of_def assms bit_ucast_iff bit_drop_bit_eq bit_words_of)
qed

lemma words_of_cong: "(\<And>i. i < 8 \<Longrightarrow> m (a + of_nat i) = m' (a + of_nat i)) \<Longrightarrow> words_of m a = words_of m' a"
  by (rule bit_word_eqI) (simp add: bit_words_of less_mult_imp_div_less)

lemma store_word:
  assumes "unat p mod 8 = 0"
  shows "bytes_of ((words_of m)(p := v)) = store64 m p v"
proof
  fix x
  show "bytes_of ((words_of m)(p := v)) x = store64 m p v x"
  proof (cases "unat (x - p) < 8")
    case True
    moreover have "x = p + of_nat (unat (x - p))" by simp
    ultimately obtain i where i: "x = p + of_nat i" "i < 8" by blast
    with align8_aligned [OF assms i(2)] True show ?thesis by (simp add: bytes_of_def store64_def put_bytes_def unat_of_nat)
  next
    case False
    have "align8 x \<noteq> p"
    proof
      assume p: "align8 x = p"
      have "unat (x - p) = unat x - unat p" using unat_align8 [of x] p by (intro unat_sub) (simp add: word_le_nat_alt)
      then show False using False unat_align8 [of x] p by (simp add: minus_mult_div_eq_mod)
    qed
    then have "bytes_of ((words_of m)(p := v)) x = m x" by (intro bytes_of_words) simp
    then show ?thesis using False by (simp add: store64_def put_bytes_def)
  qed
qed

end
