(* ===== verification/Hyper.thy ===== *)
theory Hyper
  imports Exception Tasklist Ram
begin

text \<open>
  The start of the hypervisor (\<^verbatim>\<open>main_hyper.c\<close>): the stage-2 control register, the copies of the
  guest's three images, and \<^verbatim>\<open>hyper_main\<close>, which composes the initialisation of every component. There is
  one memory, the member \<open>kmem\<close> of the system: the images, the translation tables, the word that the
  start stores for its test and the stack and formats of the prints all lie in it. The
  addresses of the images, of the tables and of the formats come from the linker and are parameters, as
  are the entry of the test guest and the size of a cache line. The messages in between and barriers are
  left out; the report of the tasks at the end is part of the model.
\<close>

subsection \<open>Stage-2 control\<close>

definition VTCR_T0SZ :: "u64 \<Rightarrow> u64" where "VTCR_T0SZ x = push_bit 0 x"

definition VTCR_SL0 :: "u64 \<Rightarrow> u64" where "VTCR_SL0 x = push_bit 6 x"

definition VTCR_IRGN0_WBWA :: u64 where "VTCR_IRGN0_WBWA = push_bit 8 0x1"

definition VTCR_ORGN0_WBWA :: u64 where "VTCR_ORGN0_WBWA = push_bit 10 0x1"

definition VTCR_SH0_IS :: u64 where "VTCR_SH0_IS = push_bit 12 0x3"

definition VTCR_TG0_4K :: u64 where "VTCR_TG0_4K = push_bit 14 0x0"

definition VTCR_PS_MASK_36_BITS :: u64 where "VTCR_PS_MASK_36_BITS = push_bit 16 0b001"

definition VTCR_VS_8BIT :: u64 where "VTCR_VS_8BIT = push_bit 19 0"

lemmas vtcr_defs = VTCR_T0SZ_def VTCR_SL0_def VTCR_IRGN0_WBWA_def VTCR_ORGN0_WBWA_def VTCR_SH0_IS_def
  VTCR_TG0_4K_def VTCR_PS_MASK_36_BITS_def VTCR_VS_8BIT_def

subsection \<open>State\<close>

record images =
  guset_bin_start :: u64
  guset_bin_end :: u64
  guset_dtb_start :: u64
  guset_dtb_end :: u64
  guset_fs_start :: u64
  guset_fs_end :: u64

record hyper =
  hsys :: system
  h_L2_root :: u64
  h_L3_root :: u64
  h_vttbr_el2 :: u64
  h_ops :: "dcache_op list"
  h_line :: u64
  vtcr_el2 :: u64

text \<open>The memory of the system, changed as bytes, and seen and changed by the operations on the tables.\<close>

definition on_ram :: "(mem \<Rightarrow> mem) \<Rightarrow> hyper \<Rightarrow> hyper" where
  "on_ram f s = s\<lparr>hsys := (hsys s)\<lparr>kmem := f (kmem (hsys s))\<rparr>\<rparr>"

definition ept_of :: "hyper \<Rightarrow> ept_t" where
  "ept_of s = \<lparr>ept_L2_root = h_L2_root s, ept_L3_root = h_L3_root s, ept_mem = words_of (kmem (hsys s)),
     ept_ops = h_ops s, vttbr_el2 = h_vttbr_el2 s\<rparr>"

definition put_ept :: "ept_t option \<Rightarrow> hyper \<Rightarrow> hyper res" where
  "put_ept x s = bind_res (or_fault Loop_forever x) (\<lambda>e.
     Ret (s\<lparr>hsys := (hsys s)\<lparr>kmem := bytes_of (ept_mem e)\<rparr>, h_L2_root := ept_L2_root e, h_L3_root := ept_L3_root e,
            h_ops := ept_ops e, h_vttbr_el2 := vttbr_el2 e\<rparr>))"

definition vtcr_init :: "hyper \<Rightarrow> hyper" where
  "vtcr_init s =
     (let vtcr_val = VTCR_VS_8BIT OR VTCR_PS_MASK_36_BITS OR VTCR_TG0_4K OR VTCR_SH0_IS OR VTCR_ORGN0_WBWA OR
            VTCR_IRGN0_WBWA;
          vtcr_val = vtcr_val OR VTCR_T0SZ (64 - 32);
          vtcr_val = vtcr_val OR VTCR_SL0 0x1
      in s\<lparr>vtcr_el2 := vtcr_val\<rparr>)"

subsection \<open>Images\<close>

definition GUEST_KERNEL_START :: u64 where "GUEST_KERNEL_START = 0x70200000"

definition GUEST_DTB_START :: u64 where "GUEST_DTB_START = 0x70000000"

definition GUEST_FS_START :: u64 where "GUEST_FS_START = 0x78000000"

definition copy_guest :: "images \<Rightarrow> mem \<Rightarrow> mem" where
  "copy_guest im m = fst (memcpy m GUEST_KERNEL_START (guset_bin_start im) (guset_bin_end im - guset_bin_start im))"

definition copy_dtb :: "images \<Rightarrow> mem \<Rightarrow> mem" where
  "copy_dtb im m = fst (memcpy m GUEST_DTB_START (guset_dtb_start im) (guset_dtb_end im - guset_dtb_start im))"

definition copy_fs :: "images \<Rightarrow> mem \<Rightarrow> mem" where
  "copy_fs im m = fst (memcpy m GUEST_FS_START (guset_fs_start im) (guset_fs_end im - guset_fs_start im))"

subsection \<open>Start\<close>

text \<open>
  \<^verbatim>\<open>guest_trap_init\<close> only reads \<^verbatim>\<open>HCR_EL2\<close>. The result is the state in which \<^verbatim>\<open>guest_start\<close> is
  called, on core 0; \<open>f1\<close> and \<open>f2\<close> are the addresses of the formats of the report.
\<close>

definition hyper_main :: "dev \<Rightarrow> images \<Rightarrow> u64 \<Rightarrow> u64 \<Rightarrow> u64 \<Rightarrow> u64 \<Rightarrow> hyper \<Rightarrow> hyper res" where
  "hyper_main dev im ept_L1 test_guest f1 f2 s =
     (let y = io_early_init (hsys s);
          (g, h) = gic_virtual_init dev (gicv2 y) (bus y)
      in bind_res (timer_init dev 0 (y\<lparr>gicv2 := g, bus := h\<rparr>)) (\<lambda>y.
         let s = vtcr_init (s\<lparr>hsys := y\<rparr>)
         in bind_res (put_ept (guest_ept_init (h_line s) ept_L1 (words_of (kmem (hsys s)))) s) (\<lambda>s.
         let s = on_ram (copy_dtb im) s;
             s = on_ram (copy_guest im) s;
             s = on_ram (copy_fs im) s
         in bind_res (put_ept (mmio_map_gicd (h_line s) (ept_of s)) s) (\<lambda>s.
         bind_res (put_ept (mmio_map_gicc (h_line s) (ept_of s)) s) (\<lambda>s.
         bind_res (vm_init (hsys s)) (\<lambda>y.
         let s = s\<lparr>hsys := y\<rparr>
         in bind_res (put_ept (no_access (h_line s) (ept_of s) MMIO_ARREA) s) (\<lambda>s.
         let s = on_ram (\<lambda>m. store64 m 0x50000000 0x1234) s;
             k = schedule_init (tasks (hsys s));
             k = fst (craete_vm_task k test_guest);
             k = fst (craete_vm_task k GUEST_KERNEL_START);
             k = schedule_init_local k 0;
             y = (hsys s)\<lparr>tasks := k\<rparr>
         in bind_res (or_fault Loop_forever (print_current_task_list dev (pr_stk y) (pr_buf y) f1 f2 (kmem y) y))
              (\<lambda>(m, y). Ret (s\<lparr>hsys := y\<lparr>kmem := m\<rparr>\<rparr>)))))))))"

subsection \<open>Images: correctness\<close>

lemma in_range_iff:
  fixes d n x :: u64
  assumes "unat d + unat n \<le> 2 ^ 64"
  shows "x - d < n \<longleftrightarrow> unat d \<le> unat x \<and> unat x < unat d + unat n"
  using assms unsigned_less [of d] by (auto simp: word_less_nat_alt unat_sub_if_size word_size)

text \<open>
  A source range in the hypervisor's image, below the region of the guest, of at most \<open>bound\<close>
  bytes.
\<close>

definition image_ok :: "u64 \<Rightarrow> u64 \<Rightarrow> nat \<Rightarrow> bool" where
  "image_ok a e bound \<longleftrightarrow> unat a \<le> unat e \<and> unat e \<le> 0x50000000 \<and> unat (e - a) \<le> bound"

definition images_ok :: "images \<Rightarrow> bool" where
  "images_ok im \<longleftrightarrow> image_ok (guset_dtb_start im) (guset_dtb_end im) 0x200000 \<and>
     image_ok (guset_bin_start im) (guset_bin_end im) 0x7e00000 \<and>
     image_ok (guset_fs_start im) (guset_fs_end im) 0x8000000"

text \<open>A copy of such an image to \<open>d\<close>, seen at an address.\<close>

lemma memcpy_image:
  assumes "image_ok a e bound" "0x50000000 \<le> unat d" "unat d + bound \<le> 2 ^ 32"
  shows "fst (memcpy m d a (e - a)) x =
     (if unat d \<le> unat x \<and> unat x < unat d + unat (e - a) then m (a + (x - d)) else m x)"
proof -
  let ?n = "e - a"
  have n: "unat ?n = unat e - unat a" using assms(1) by (simp add: image_ok_def unat_sub word_le_nat_alt)
  have "a + k \<noteq> d + j" if "j < k" "k < ?n" for j k
  proof
    assume eq: "a + k = d + j"
    have "unat (a + k) = unat a + unat k" "unat (d + j) = unat d + unat j"
      using that assms n unfolding image_ok_def word_less_nat_alt by (simp_all add: unat_plus_if_size word_size)
    then have "unat a + unat k = unat d + unat j" using eq by (simp only:)
    then show False using that assms n unfolding image_ok_def word_less_nat_alt by (elim conjE) linarith
  qed
  then have "memcpy_loop m d a 0 ?n = copied m d a ?n" by (rule memcpy_copied)
  moreover have "unat d + unat ?n \<le> 2 ^ 64" using assms unfolding image_ok_def by simp
  ultimately show ?thesis by (simp add: memcpy_def copied_def in_range_iff)
qed

lemma store64_other: "unat a + 8 \<le> unat x \<or> unat x < unat a \<Longrightarrow> unat a + 8 \<le> 2 ^ 64 \<Longrightarrow> store64 m a v x = m x"
  using in_range_iff [of a 8 x] by (auto simp: store64_def put_bytes_def word_less_nat_alt)

text \<open>The three copies, in order.\<close>

definition copies :: "images \<Rightarrow> mem \<Rightarrow> mem" where
  "copies im m = copy_fs im (copy_guest im (copy_dtb im m))"

lemma copies_at:
  assumes "images_ok im"
  shows "unat x < 0x70000000 \<Longrightarrow> copies im m x = m x"
    and "unat k < unat (guset_dtb_end im - guset_dtb_start im) \<Longrightarrow>
      copies im m (GUEST_DTB_START + k) = m (guset_dtb_start im + k)"
    and "unat k < unat (guset_bin_end im - guset_bin_start im) \<Longrightarrow>
      copies im m (GUEST_KERNEL_START + k) = m (guset_bin_start im + k)"
    and "unat k < unat (guset_fs_end im - guset_fs_start im) \<Longrightarrow>
      copies im m (GUEST_FS_START + k) = m (guset_fs_start im + k)"
proof -
  note ok = assms [unfolded images_ok_def]
  note starts = GUEST_DTB_START_def GUEST_KERNEL_START_def GUEST_FS_START_def
  have d: "copy_dtb im m x = (if 0x70000000 \<le> unat x \<and> unat x < 0x70000000 + unat (guset_dtb_end im - guset_dtb_start im)
      then m (guset_dtb_start im + (x - 0x70000000)) else m x)" for m x
    using memcpy_image [of "guset_dtb_start im" "guset_dtb_end im" "0x200000" GUEST_DTB_START m x] ok by (simp add: copy_dtb_def starts)
  have g: "copy_guest im m x = (if 0x70200000 \<le> unat x \<and> unat x < 0x70200000 + unat (guset_bin_end im - guset_bin_start im)
      then m (guset_bin_start im + (x - 0x70200000)) else m x)" for m x
    using memcpy_image [of "guset_bin_start im" "guset_bin_end im" "0x7e00000" GUEST_KERNEL_START m x] ok by (simp add: copy_guest_def starts)
  have f: "copy_fs im m x = (if 0x78000000 \<le> unat x \<and> unat x < 0x78000000 + unat (guset_fs_end im - guset_fs_start im)
      then m (guset_fs_start im + (x - 0x78000000)) else m x)" for m x
    using memcpy_image [of "guset_fs_start im" "guset_fs_end im" "0x8000000" GUEST_FS_START m x] ok by (simp add: copy_fs_def starts)
  have src: "unat (a + k) < 0x50000000" if "image_ok a e b" "unat k < unat (e - a)" for a e b k
    using that by (auto simp: image_ok_def unat_sub word_le_nat_alt unat_plus_if_size word_size)
  have dst: "unat (d + k) = unat d + unat k" if "unat d \<le> 0x78000000" "unat k \<le> 0x8000000" for d k :: u64
    using that by (simp add: unat_plus_if_size word_size)
  have sz: "unat (guset_dtb_end im - guset_dtb_start im) \<le> 0x200000" "unat (guset_bin_end im - guset_bin_start im) \<le> 0x7e00000"
    "unat (guset_fs_end im - guset_fs_start im) \<le> 0x8000000" using ok by (simp_all add: image_ok_def)
  show "copies im m x = m x" if "unat x < 0x70000000" using that by (simp add: copies_def f g d)
  show "copies im m (GUEST_DTB_START + k) = m (guset_dtb_start im + k)" if "unat k < unat (guset_dtb_end im - guset_dtb_start im)"
    using that sz dst [of "0x70000000" k] by (simp add: copies_def starts f g d)
  show "copies im m (GUEST_KERNEL_START + k) = m (guset_bin_start im + k)" if "unat k < unat (guset_bin_end im - guset_bin_start im)"
    using that sz dst [of "0x70200000" k] src [OF conjunct1 [OF conjunct2 [OF ok]] that] by (simp add: copies_def starts f g d)
  show "copies im m (GUEST_FS_START + k) = m (guset_fs_start im + k)" if "unat k < unat (guset_fs_end im - guset_fs_start im)"
    using that sz dst [of "0x78000000" k] src [OF conjunct2 [OF conjunct2 [OF ok]] that] by (simp add: copies_def starts f g d)
qed

subsection \<open>Start: correctness\<close>

lemma timer_init_ret:
  "\<exists>h. timer_init dev c s = Ret (s\<lparr>cntp_tval_el0 := (cntp_tval_el0 s)(c := 100000), cntp_ctl_el0 := (cntp_ctl_el0 s)(c := 0b1),
     g_handler_vec := (g_handler_vec s)[30 := Some Timer_interrupt], bus := h\<rparr>)"
  by (simp add: timer_init_def irq_install_def TIMER_VECTOR_def NR_HANDLERS_def Let_def split: prod.splits) blast

lemma vm_init_ret:
  "\<exists>v. vm_init s = Ret (s\<lparr>vgics := v, g_handler_vec := (g_handler_vec s)[27 := Some V_timer, 33 := Some Fake_console]\<rparr>)"
  by (simp add: vm_init_def vgic_register_def virtual_gic_register_int_def irq_install_def NR_HANDLERS_def
      HV_TIMER_VECTOR_def PL011_INT_def SPI_ID_MAX_def) blast

text \<open>The scheduler's state in which the guest starts.\<close>

definition guest_tasks :: "u64 \<Rightarrow> kstate \<Rightarrow> kstate" where
  "guest_tasks test_guest k = schedule_init_local
     (fst (craete_vm_task (fst (craete_vm_task (schedule_init k) test_guest)) GUEST_KERNEL_START)) 0"

lemma guest_tasks_ready:
  fixes k k' :: kstate and test_guest :: u64
  assumes "boot_state k" "wf_frame (ctx_of k 1)"
  defines "k' \<equiv> guest_tasks test_guest k"
  shows "sched_inv 1 k'" "task_count k' = 2" "current k' 0 = Some 0" "state_of k' 1 = WAITING"
    "tf_elr (ctx_of k' 0) = test_guest" "tf_elr (ctx_of k' 1) = GUEST_KERNEL_START"
    "frame_reg (ctx_of k' 1) 0 = GUEST_DTB_START"
proof -
  let ?k0 = "schedule_init k"
  let ?k1 = "fst (craete_vm_task ?k0 test_guest)"
  let ?k2 = "fst (craete_vm_task ?k1 GUEST_KERNEL_START)"
  have k: "length (task_list k) = 64" "length (g_cpu_dec k) = 64" "length (cpu_sysregs k) = 64" "task_count k = 0"
      "ti_cpu (threads k 0) = 0"
    using assms(1) by (simp_all add: boot_state_def MAX_TASKS_def)
  note ev = k'_def guest_tasks_def schedule_init_def craete_vm_task_def schedule_init_local_def Let_def MAX_TASKS_def
  show "task_count k' = 2" "current k' 0 = Some 0" "state_of k' 1 = WAITING" "tf_elr (ctx_of k' 0) = test_guest"
    "tf_elr (ctx_of k' 1) = GUEST_KERNEL_START" by (simp_all add: ev k)
  show "frame_reg (ctx_of k' 1) 0 = GUEST_DTB_START"
    using assms(2) by (simp add: ev k frame_reg_def wf_frame_def NUM_REGS_def GUEST_DTB_START_def)
  have wf0: "tasks_wf ?k0" and c0: "task_count ?k0 = 0"
    using assms(1) by (simp_all add: schedule_init_def tasks_wf_def boot_state_def)
  have g1: "grown ?k0 ?k1" using create_task_grown(2) [of ?k0] wf0 by (simp add: c0 tasks_wf_def MAX_TASKS_def)
  have wf1: "tasks_wf ?k1" using tasks_wf_grown [OF wf0 _ g1] by (simp add: c0 MAX_TASKS_def)
  have c1: "task_count ?k1 = 1" using g1 by (simp add: grown_def c0)
  have g2: "grown ?k1 ?k2" using create_task_grown(2) [of ?k1] wf1 by (simp add: c1 tasks_wf_def MAX_TASKS_def)
  have wf2: "tasks_wf ?k2" using tasks_wf_grown [OF wf1 _ g2] by (simp add: c1 MAX_TASKS_def)
  have c2: "task_count ?k2 = 2" using g2 by (simp add: grown_def c1)
  have w: "state_of ?k2 0 = WAITING" "state_of ?k2 1 = WAITING" by (simp_all add: ev k)
  have "ti_cpu (threads ?k2 0) = 0" using k g1 g2 by (simp add: schedule_init_def grown_def)
  moreover have "t < 2 \<longleftrightarrow> t = 0 \<or> t = 1" for t :: nat by auto
  ultimately show "sched_inv 1 k'" using wf2 w unfolding k'_def guest_tasks_def by (intro single_core_inv) (simp_all add: c2)
qed


text \<open>The pages whose accesses trap: the interrupt controller and the test page.\<close>

definition trapped :: "u64 \<Rightarrow> bool" where
  "trapped gpa \<longleftrightarrow> 0x8000000 \<le> gpa \<and> gpa < 0x8020000 \<or> 0x50000000 \<le> gpa \<and> gpa < 0x50001000"

subsection \<open>The tables in the memory\<close>

text \<open>
  The tables are \<open>N_WORDS\<close> words from \<^verbatim>\<open>ept_L1\<close> on. Writing them leaves every byte outside alone, and
  a change of the memory outside leaves every one of their words alone.
\<close>

definition N_WORDS :: nat where "N_WORDS = 0x100A00"

definition in_tables :: "u64 \<Rightarrow> u64 \<Rightarrow> bool" where
  "in_tables b x \<longleftrightarrow> unat b \<le> unat x \<and> unat x < unat b + 8 * N_WORDS"

definition tables_only :: "u64 \<Rightarrow> wmem \<Rightarrow> wmem \<Rightarrow> bool" where
  "tables_only b w w' \<longleftrightarrow> (\<forall>a. (\<forall>i < N_WORDS. a \<noteq> elem b i) \<longrightarrow> w' a = w a)"

lemma in_tab_elem: "in_tab (elem b q) lo hi a \<Longrightarrow> q + hi \<le> N_WORDS \<Longrightarrow> \<exists>i < N_WORDS. a = elem b i"
proof -
  assume "in_tab (elem b q) lo hi a" "q + hi \<le> N_WORDS"
  then obtain k where k: "idx (elem b q) a = Some k" "q + k < N_WORDS" by (auto simp: in_tab_def split: option.splits)
  then have "k < 2 ^ 60" by (simp add: N_WORDS_def)
  with k idx_Some_iff [of k "elem b q" a] show ?thesis by (auto simp: elem_elem)
qed

lemma tables_only_trap: "hi \<le> 0x100000 \<Longrightarrow> tables_only b w (trap_tab (elem b 2560) lo hi w)"
  using in_tab_elem [of b 2560 lo hi] by (fastforce simp: tables_only_def trap_tab_def N_WORDS_def)

lemma tables_only_build: "ept_base_ok b \<Longrightarrow> tables_only b w (ept_mem (ept_build b w))"
  using in_tab_elem [of b 2560 0 "0x100000"] in_tab_elem [of b 512 0 2048] in_tab_elem [of b 0 0 4]
  by (fastforce simp: tables_only_def ept_roots fill_def N_WORDS_def elem_def)

lemma elem_words:
  assumes "ept_base_ok b" "i < N_WORDS"
  shows "unat (elem b i) mod 8 = 0" and "j < 8 \<Longrightarrow> in_tables b (elem b i + of_nat j)"
proof -
  have "unat b mod 8 = unat b mod 4096 mod 8" by (simp add: mod_mod_cancel)
  then have "unat b mod 8 = 0" using assms(1) by (simp add: ept_base_ok_def)
  moreover have u: "unat (elem b i) = unat b + 8 * i"
    using assms by (intro unat_elem) (simp_all add: ept_base_ok_def N_WORDS_def)
  ultimately show "unat (elem b i) mod 8 = 0" by (simp add: mod_add_eq [symmetric])
  show "in_tables b (elem b i + of_nat j)" if "j < 8"
    using that u assms by (simp add: in_tables_def ept_base_ok_def N_WORDS_def unat_plus_if_size word_size unat_of_nat)
qed

lemma words_in_tables:
  assumes "ept_base_ok b" "i < N_WORDS" "\<And>x. in_tables b x \<Longrightarrow> m' x = m x"
  shows "words_of m' (elem b i) = words_of m (elem b i)"
  using elem_words(2) [OF assms(1,2)] by (intro words_of_cong assms(3)) simp

lemma bytes_outside:
  assumes "ept_base_ok b" "tables_only b (words_of m) w" "\<not> in_tables b x"
  shows "bytes_of w x = m x"
proof (rule bytes_of_words)
  have "align8 x \<noteq> elem b i" if "i < N_WORDS" for i
  proof
    assume "align8 x = elem b i"
    then have "8 * (unat x div 8) = unat b + 8 * i"
      using that assms(1) unat_align8 [of x] unat_elem [of b i] by (simp add: ept_base_ok_def N_WORDS_def)
    moreover have "unat x < 8 * (unat x div 8) + 8" "8 * (unat x div 8) \<le> unat x" by simp_all
    ultimately show False using assms(3) that by (simp add: in_tables_def)
  qed
  then show "w (align8 x) = words_of m (align8 x)" using assms(2) by (simp add: tables_only_def)
qed


text \<open>Pages made inaccessible, on the memory.\<close>

definition trap_mem :: "u64 \<Rightarrow> nat \<Rightarrow> nat \<Rightarrow> mem \<Rightarrow> mem" where
  "trap_mem b lo hi m = bytes_of (trap_tab (elem b 2560) lo hi (words_of m))"

definition build_mem :: "u64 \<Rightarrow> mem \<Rightarrow> mem" where
  "build_mem b m = bytes_of (ept_mem (ept_build b (words_of m)))"

text \<open>The memory at the report of the tasks.\<close>

definition guest_mem :: "u64 \<Rightarrow> images \<Rightarrow> mem \<Rightarrow> mem" where
  "guest_mem b im m = store64 (trap_mem b 0x50000 0x50001 (trap_mem b 0x8010 0x8020 (trap_mem b 0x8000 0x8010
     (copies im (build_mem b m))))) 0x50000000 0x1234"

lemma trap_mem_other: "ept_base_ok b \<Longrightarrow> hi \<le> 0x100000 \<Longrightarrow> \<not> in_tables b x \<Longrightarrow> trap_mem b lo hi m x = m x"
  unfolding trap_mem_def by (rule bytes_outside [OF _ tables_only_trap])

lemma build_mem_other: "ept_base_ok b \<Longrightarrow> \<not> in_tables b x \<Longrightarrow> build_mem b m x = m x"
  unfolding build_mem_def by (rule bytes_outside [OF _ tables_only_build])

lemma trap_mem_words:
  "ept_base_ok b \<Longrightarrow> i < N_WORDS \<Longrightarrow>
     words_of (trap_mem b lo hi m) (elem b i) = trap_tab (elem b 2560) lo hi (words_of m) (elem b i)"
  unfolding trap_mem_def by (intro words_of_bytes elem_words)

lemma build_mem_words:
  "ept_base_ok b \<Longrightarrow> i < N_WORDS \<Longrightarrow> words_of (build_mem b m) (elem b i) = ept_mem (ept_build b (words_of m)) (elem b i)"
  unfolding build_mem_def by (intro words_of_bytes elem_words)

text \<open>The tables end below the test page, and so does everything of the image.\<close>

definition tables_low :: "u64 \<Rightarrow> bool" where
  "tables_low b \<longleftrightarrow> ept_base_ok b \<and> unat b + 8 * N_WORDS \<le> 0x50000000"

lemma guest_mem_words:
  assumes "tables_low b" "images_ok im" "i < N_WORDS"
  shows "words_of (guest_mem b im m) (elem b i) = trap_tab (elem b 2560) 0x50000 0x50001 (trap_tab (elem b 2560) 0x8010 0x8020
     (trap_tab (elem b 2560) 0x8000 0x8010 (ept_mem (ept_build b (words_of m))))) (elem b i)"
proof -
  note b = assms(1) [unfolded tables_low_def, THEN conjunct1]
  have low: "unat x < 0x50000000" if "in_tables b x" for x using that assms(1) by (simp add: in_tables_def tables_low_def)
  have "words_of (store64 m' 0x50000000 v) (elem b i) = words_of m' (elem b i)" for m' v
    using low by (intro words_in_tables [OF b assms(3)] store64_other) auto
  moreover have "words_of (copies im m') (elem b i) = words_of m' (elem b i)" for m'
    using low by (intro words_in_tables [OF b assms(3)] copies_at(1) [OF assms(2)]) fastforce
  ultimately show ?thesis unfolding guest_mem_def
    by (simp add: trap_mem_words [OF b assms(3)] trap_tab_def build_mem_words [OF b assms(3)])
qed

lemma guest_mem_low:
  assumes "tables_low b" "images_ok im" "unat x < unat b"
  shows "guest_mem b im m x = m x"
proof -
  have "\<not> in_tables b x" "unat x < 0x50000000" using assms by (simp_all add: in_tables_def tables_low_def)
  then show ?thesis using assms(1) copies_at(1) [OF assms(2)]
    by (simp add: guest_mem_def store64_other trap_mem_other build_mem_other tables_low_def)
qed

lemma guest_mem_image:
  assumes "tables_low b" "images_ok im" "0x70000000 \<le> unat x"
  shows "guest_mem b im m x = copies im (build_mem b m) x"
proof -
  have "\<not> in_tables b x" using assms by (simp add: in_tables_def tables_low_def)
  then show ?thesis using assms(1,3)
    by (simp add: guest_mem_def store64_other trap_mem_other tables_low_def)
qed

text \<open>An image at or above the guest's memory, copied from below the tables.\<close>

lemma image_low:
  assumes "image_ok a e n" "unat e \<le> unat b" "unat k < unat (e - a)" "ept_base_ok b"
  shows "build_mem b m (a + k) = m (a + k)"
proof (rule build_mem_other [OF assms(4)])
  have "unat (e - a) = unat e - unat a" using assms(1) by (simp add: image_ok_def unat_sub word_le_nat_alt)
  then have "unat (a + k) < unat b" using assms by (auto simp: image_ok_def unat_plus_if_size word_size)
  then show "\<not> in_tables b (a + k)" by (simp add: in_tables_def)
qed

definition images_below :: "images \<Rightarrow> u64 \<Rightarrow> bool" where
  "images_below im b \<longleftrightarrow> images_ok im \<and> unat (guset_dtb_end im) \<le> unat b \<and> unat (guset_bin_end im) \<le> unat b \<and>
     unat (guset_fs_end im) \<le> unat b"

lemma guest_mem_images:
  assumes "tables_low b" "images_below im b"
  shows "unat k < unat (guset_dtb_end im - guset_dtb_start im) \<Longrightarrow>
      guest_mem b im m (GUEST_DTB_START + k) = m (guset_dtb_start im + k)"
    and "unat k < unat (guset_bin_end im - guset_bin_start im) \<Longrightarrow>
      guest_mem b im m (GUEST_KERNEL_START + k) = m (guset_bin_start im + k)"
    and "unat k < unat (guset_fs_end im - guset_fs_start im) \<Longrightarrow>
      guest_mem b im m (GUEST_FS_START + k) = m (guset_fs_start im + k)"
proof -
  have im: "images_ok im" and b: "ept_base_ok b" using assms by (simp_all add: images_below_def tables_low_def)
  note ok = im [unfolded images_ok_def]
  note starts = GUEST_DTB_START_def GUEST_KERNEL_START_def GUEST_FS_START_def
  have sz: "unat (guset_dtb_end im - guset_dtb_start im) \<le> 0x200000" "unat (guset_bin_end im - guset_bin_start im) \<le> 0x7e00000"
    "unat (guset_fs_end im - guset_fs_start im) \<le> 0x8000000" using ok by (simp_all add: image_ok_def)
  have up: "0x70000000 \<le> unat (d + k)" if "0x70000000 \<le> unat d" "unat d \<le> 0x78000000" "unat k \<le> 0x8000000" for d :: u64
    using that by (simp add: unat_plus_if_size word_size)
  show "guest_mem b im m (GUEST_DTB_START + k) = m (guset_dtb_start im + k)" if k: "unat k < unat (guset_dtb_end im - guset_dtb_start im)"
    using guest_mem_image [OF assms(1) im up [of GUEST_DTB_START]] copies_at(2) [OF im k] image_low [OF conjunct1 [OF ok] _ k b] sz k assms(2)
    by (simp add: starts images_below_def)
  show "guest_mem b im m (GUEST_KERNEL_START + k) = m (guset_bin_start im + k)" if k: "unat k < unat (guset_bin_end im - guset_bin_start im)"
    using guest_mem_image [OF assms(1) im up [of GUEST_KERNEL_START]] copies_at(3) [OF im k] image_low [OF conjunct1 [OF conjunct2 [OF ok]] _ k b] sz k assms(2)
    by (simp add: starts images_below_def)
  show "guest_mem b im m (GUEST_FS_START + k) = m (guset_fs_start im + k)" if k: "unat k < unat (guset_fs_end im - guset_fs_start im)"
    using guest_mem_image [OF assms(1) im up [of GUEST_FS_START]] copies_at(4) [OF im k] image_low [OF conjunct2 [OF conjunct2 [OF ok]] _ k b] sz k assms(2)
    by (simp add: starts images_below_def)
qed


subsection \<open>The course of the start\<close>

lemma put_build:
  assumes "line_ok (h_line s)" "ept_base_ok b"
  shows "\<exists>ops. put_ept (guest_ept_init (h_line s) b (words_of (kmem (hsys s)))) s =
     Ret (s\<lparr>hsys := (hsys s)\<lparr>kmem := build_mem b (kmem (hsys s))\<rparr>, h_L2_root := elem b 512, h_L3_root := elem b 2560,
       h_ops := ops, h_vttbr_el2 := b\<rparr>)"
proof -
  from guest_ept_init_builds [OF assms, of "words_of (kmem (hsys s))"] obtain ops where
    "guest_ept_init (h_line s) b (words_of (kmem (hsys s))) = Some ((ept_build b (words_of (kmem (hsys s))))\<lparr>ept_ops := ops\<rparr>)" by blast
  then have "put_ept (guest_ept_init (h_line s) b (words_of (kmem (hsys s)))) s =
     Ret (s\<lparr>hsys := (hsys s)\<lparr>kmem := build_mem b (kmem (hsys s))\<rparr>, h_L2_root := elem b 512, h_L3_root := elem b 2560,
       h_ops := ops, h_vttbr_el2 := b\<rparr>)" by (simp add: put_ept_def build_mem_def ept_roots [OF assms(2)])
  then show ?thesis ..
qed

lemma put_same:
  "put_ept (Some ((ept_of s)\<lparr>ept_mem := w, ept_ops := ops\<rparr>)) s = Ret (s\<lparr>hsys := (hsys s)\<lparr>kmem := bytes_of w\<rparr>, h_ops := ops\<rparr>)"
  by (cases s) (simp add: put_ept_def ept_of_def)

lemma apply_entry:
  assumes "line_ok line" "ept_base_ok b" "ept_L3_root e = elem b 2560" "unat gpa < 2 ^ 33"
  shows "\<exists>os. apply_ept line (ept_L3_root e + 8 * drop_bit 12 gpa) = Some os"
proof -
  have "unat (drop_bit 12 gpa) < 2 ^ 33" using assms(4) by (simp add: drop_bit_eq_div unat_div_distrib)
  then show ?thesis using apply_tables [OF assms(1,2), of "2560 + unat (drop_bit 12 gpa)"] assms(3) by (simp add: elem_word elem_elem)
qed

lemma put_traps:
  assumes "line_ok (h_line s)" "ept_base_ok b" "h_L3_root s = elem b 2560" "q + 16 \<le> 0x100000" "area = word_of_nat (4096 * q)"
  shows "\<exists>ops. put_ept (mmio_map_loop (h_line s) area 0 (ept_of s)) s =
     Ret (s\<lparr>hsys := (hsys s)\<lparr>kmem := trap_mem b q (q + 16) (kmem (hsys s))\<rparr>, h_ops := ops\<rparr>)"
proof -
  have r: "ept_L3_root (ept_of s) = elem b 2560" using assms(3) by (simp add: ept_of_def)
  have u: "unat area \<le> 2 ^ 32" using assms(4,5) by (simp add: unat_of_nat del: of_nat_mult)
  have "(ept_of s)\<lparr>ept_ops := ept_ops (ept_of s)\<rparr> = ept_of s" by simp
  with mmio_map_loop_traps [OF apply_entry [OF assms(1,2) r] u, of 0 "ept_ops (ept_of s)"] obtain ops where
    "mmio_map_loop (h_line s) area 0 (ept_of s) = Some ((trap_loop area 0 (ept_of s))\<lparr>ept_ops := ops\<rparr>)" by auto
  also have "trap_loop area 0 (ept_of s) = (ept_of s)\<lparr>ept_mem := trap_tab (elem b 2560) q (q + 16) (words_of (kmem (hsys s)))\<rparr>"
    using trap_loop_eq [of 0 q "ept_of s"] assms(4) unfolding assms(5) by (simp add: r) (simp add: ept_of_def)
  finally show ?thesis by (auto simp: trap_mem_def put_same)
qed

lemma put_trap:
  assumes "line_ok (h_line s)" "ept_base_ok b" "h_L3_root s = elem b 2560"
  shows "\<exists>ops. put_ept (no_access (h_line s) (ept_of s) MMIO_ARREA) s =
     Ret (s\<lparr>hsys := (hsys s)\<lparr>kmem := trap_mem b 0x50000 0x50001 (kmem (hsys s))\<rparr>, h_ops := ops\<rparr>)"
proof -
  have r: "ept_L3_root (ept_of s) = elem b 2560" using assms(3) by (simp add: ept_of_def)
  from no_access_traps [of "h_line s" "ept_of s" MMIO_ARREA] apply_entry [OF assms(1,2) r, of MMIO_ARREA] obtain ops where
    "no_access (h_line s) (ept_of s) MMIO_ARREA = Some ((trap_page (ept_of s) MMIO_ARREA)\<lparr>ept_ops := ops\<rparr>)"
    by (auto simp: get_ept_entry_def MMIO_ARREA_def)
  also have "trap_page (ept_of s) MMIO_ARREA = (ept_of s)\<lparr>ept_mem := trap_tab (elem b 2560) 0x50000 0x50001 (words_of (kmem (hsys s)))\<rparr>"
    using trap_page_eq [of "0x50000" MMIO_ARREA "ept_of s"] by (simp add: r MMIO_ARREA_def) (simp add: ept_of_def)
  finally show ?thesis by (auto simp: trap_mem_def put_same)
qed

lemma io_early_keeps: "tasks (io_early_init y) = tasks y" "kmem (io_early_init y) = kmem y" "pr_stk (io_early_init y) = pr_stk y"
    "pr_buf (io_early_init y) = pr_buf y" "g_handler_vec (io_early_init y) = g_handler_vec y" "uart_op (io_early_init y) = Some Early_ops"
  by (simp_all add: io_early_init_def)

text \<open>The start up to the report of the tasks.\<close>

definition started :: "u64 \<Rightarrow> images \<Rightarrow> u64 \<Rightarrow> system \<Rightarrow> system \<Rightarrow> bool" where
  "started b im test_guest y0 y \<longleftrightarrow> tasks y = guest_tasks test_guest (tasks y0) \<and> kmem y = guest_mem b im (kmem y0) \<and>
     pr_stk y = pr_stk y0 \<and> pr_buf y = pr_buf y0 \<and> uart_op y = Some Early_ops \<and>
     g_handler_vec y = (g_handler_vec y0)[30 := Some Timer_interrupt, 27 := Some V_timer, 33 := Some Fake_console]"

lemma hyper_main_runs:
  assumes "line_ok (h_line s)" "ept_base_ok b"
  shows "\<exists>y ops. started b im test_guest (hsys s) y \<and> hyper_main dev im b test_guest f1 f2 s =
     bind_res (or_fault Loop_forever (print_current_task_list dev (pr_stk y) (pr_buf y) f1 f2 (kmem y) y))
       (\<lambda>(m, y). Ret ((vtcr_init s)\<lparr>hsys := y\<lparr>kmem := m\<rparr>, h_L2_root := elem b 512, h_L3_root := elem b 2560,
          h_ops := ops, h_vttbr_el2 := b\<rparr>))"
proof -
  let ?y = "io_early_init (hsys s)"
  obtain g h where gh: "gic_virtual_init dev (gicv2 ?y) (bus ?y) = (g, h)" by (cases "gic_virtual_init dev (gicv2 ?y) (bus ?y)")
  obtain y1 where y1: "timer_init dev 0 (?y\<lparr>gicv2 := g, bus := h\<rparr>) = Ret y1" "tasks y1 = tasks (hsys s)" "kmem y1 = kmem (hsys s)"
      "pr_stk y1 = pr_stk (hsys s)" "pr_buf y1 = pr_buf (hsys s)" "uart_op y1 = Some Early_ops"
      "g_handler_vec y1 = (g_handler_vec (hsys s))[30 := Some Timer_interrupt]"
    using timer_init_ret [of dev 0 "?y\<lparr>gicv2 := g, bus := h\<rparr>"] by (force simp: io_early_keeps)
  let ?s1 = "vtcr_init (s\<lparr>hsys := y1\<rparr>)"
  have l: "h_line ?s1 = h_line s" by (simp add: vtcr_init_def)
  from put_build [of ?s1 b] assms obtain o1 where s2: "put_ept (guest_ept_init (h_line ?s1) b (words_of (kmem (hsys ?s1)))) ?s1 =
     Ret (?s1\<lparr>hsys := (hsys ?s1)\<lparr>kmem := build_mem b (kmem (hsys ?s1))\<rparr>, h_L2_root := elem b 512, h_L3_root := elem b 2560,
       h_ops := o1, h_vttbr_el2 := b\<rparr>)" (is "_ = Ret ?s2") unfolding l by blast
  let ?s3 = "on_ram (copy_fs im) (on_ram (copy_guest im) (on_ram (copy_dtb im) ?s2))"
  have k3: "h_line ?s3 = h_line s" "h_L3_root ?s3 = elem b 2560" by (simp_all add: on_ram_def vtcr_init_def)
  from put_traps [of ?s3 b "0x8000" MMIO_AREA_GICD] k3 assms obtain o2 where s4: "put_ept (mmio_map_gicd (h_line ?s3) (ept_of ?s3)) ?s3 =
     Ret (?s3\<lparr>hsys := (hsys ?s3)\<lparr>kmem := trap_mem b 0x8000 0x8010 (kmem (hsys ?s3))\<rparr>, h_ops := o2\<rparr>)" (is "_ = Ret ?s4")
    by (auto simp: mmio_map_gicd_def MMIO_AREA_GICD_def)
  have k4: "h_line ?s4 = h_line s" "h_L3_root ?s4 = elem b 2560" using k3 by simp_all
  from put_traps [of ?s4 b "0x8010" MMIO_AREA_GICC] k4 assms obtain o3 where s5: "put_ept (mmio_map_gicc (h_line ?s4) (ept_of ?s4)) ?s4 =
     Ret (?s4\<lparr>hsys := (hsys ?s4)\<lparr>kmem := trap_mem b 0x8010 0x8020 (kmem (hsys ?s4))\<rparr>, h_ops := o3\<rparr>)" (is "_ = Ret ?s5")
    by (auto simp: mmio_map_gicc_def MMIO_AREA_GICC_def)
  obtain v where y6: "vm_init (hsys ?s5) = Ret ((hsys ?s5)\<lparr>vgics := v,
      g_handler_vec := (g_handler_vec (hsys ?s5))[27 := Some V_timer, 33 := Some Fake_console]\<rparr>)" (is "_ = Ret ?y6")
    using vm_init_ret by blast
  let ?s6 = "?s5\<lparr>hsys := ?y6\<rparr>"
  have k6: "h_line ?s6 = h_line s" "h_L3_root ?s6 = elem b 2560" using k3 by simp_all
  from put_trap [of ?s6 b] k6 assms obtain o4 where s7: "put_ept (no_access (h_line ?s6) (ept_of ?s6) MMIO_ARREA) ?s6 =
     Ret (?s6\<lparr>hsys := (hsys ?s6)\<lparr>kmem := trap_mem b 0x50000 0x50001 (kmem (hsys ?s6))\<rparr>, h_ops := o4\<rparr>)" (is "_ = Ret ?s7") by auto
  let ?s8 = "on_ram (\<lambda>m. store64 m 0x50000000 0x1234) ?s7"
  let ?y8 = "(hsys ?s8)\<lparr>tasks := guest_tasks test_guest (tasks (hsys ?s8))\<rparr>"
  have m: "hyper_main dev im b test_guest f1 f2 s =
     bind_res (or_fault Loop_forever (print_current_task_list dev (pr_stk ?y8) (pr_buf ?y8) f1 f2 (kmem ?y8) ?y8))
       (\<lambda>(m, y). Ret (?s8\<lparr>hsys := y\<lparr>kmem := m\<rparr>\<rparr>))"
    unfolding hyper_main_def Let_def gh prod.case y1(1) bind_res_simps s2 s4 s5 y6 s7 guest_tasks_def ..
  have st: "started b im test_guest (hsys s) ?y8" using y1
    by (simp add: started_def on_ram_def vtcr_init_def guest_mem_def copies_def)
  have "?s8\<lparr>hsys := y\<rparr> = (vtcr_init s)\<lparr>hsys := y, h_L2_root := elem b 512, h_L3_root := elem b 2560, h_ops := o4, h_vttbr_el2 := b\<rparr>" for y
    by (simp add: on_ram_def vtcr_init_def)
  then show ?thesis unfolding m by (intro exI [of _ ?y8] exI [of _ o4] conjI st) simp
qed


lemma hyper_main_stuck:
  assumes "ept_base_ok b" "h_line s = 0"
  shows "hyper_main dev im b test_guest f1 f2 s = Err Loop_forever"
proof -
  let ?y = "io_early_init (hsys s)"
  obtain g h where gh: "gic_virtual_init dev (gicv2 ?y) (bus ?y) = (g, h)" by (cases "gic_virtual_init dev (gicv2 ?y) (bus ?y)")
  obtain y1 where y1: "timer_init dev 0 (?y\<lparr>gicv2 := g, bus := h\<rparr>) = Ret y1" using timer_init_ret by blast
  have "h_line (vtcr_init (s\<lparr>hsys := y1\<rparr>)) = 0" using assms(2) by (simp add: vtcr_init_def)
  then show ?thesis unfolding hyper_main_def Let_def gh prod.case y1 bind_res_simps
    by (simp add: guest_ept_init_stuck [OF assms(1)] put_ept_def)
qed

text \<open>The stage-2 translation of an address in the memory of the start.\<close>

lemma guest_walk:
  fixes m m' :: mem
  assumes "tables_low b" "images_ok im" "unat gpa < 2 ^ 32" "\<And>x. in_tables b x \<Longrightarrow> m' x = guest_mem b im m x"
  defines "e \<equiv> page_entry (word_of_nat (4096 * (unat gpa div 4096)))"
  shows "stage2_walk (words_of m') b gpa = Some (elem b 2560 + 8 * drop_bit 12 gpa)"
    and "words_of m' (elem b 2560 + 8 * drop_bit 12 gpa) = (if trapped gpa then no_rw e else e)"
proof -
  note b = assms(1) [unfolded tables_low_def, THEN conjunct1]
  let ?L3 = "elem b 2560" and ?p = "unat gpa div 4096" and ?w = "words_of m"
  have w: "words_of m' (elem b i) = trap_tab ?L3 0x50000 0x50001 (trap_tab ?L3 0x8010 0x8020
     (trap_tab ?L3 0x8000 0x8010 (ept_mem (ept_build b ?w)))) (elem b i)" if "i < N_WORDS" for i
    using words_in_tables [OF b that assms(4)] guest_mem_words [OF assms(1,2) that] by simp
  have p: "?p < 0x100000" using assms(3) by simp
  have rng: "(0x8000 \<le> ?p \<and> ?p < 0x8010) \<or> (0x8010 \<le> ?p \<and> ?p < 0x8020) \<or> (0x50000 \<le> ?p \<and> ?p < 0x50001) \<longleftrightarrow> trapped gpa"
    using page_range [of "0x8000" gpa] page_range [of "0x8020" gpa] page_range [of "0x50000" gpa] page_range [of "0x50001" gpa]
    by (auto simp: trapped_def simp flip: not_le)
  have a: "?L3 + 8 * drop_bit 12 gpa = elem ?L3 ?p" by (simp add: elem_word drop_bit_eq_div unat_div_distrib)
  show "stage2_walk (words_of m') b gpa = Some (?L3 + 8 * drop_bit 12 gpa)"
    unfolding a by (rule walk_kept [OF b assms(3), where m = ?w]) (simp add: w trap_keeps N_WORDS_def)
  have "words_of m' (elem ?L3 ?p) = trap_tab ?L3 0x50000 0x50001 (trap_tab ?L3 0x8010 0x8020
     (trap_tab ?L3 0x8000 0x8010 (ept_mem (ept_build b ?w)))) (elem ?L3 ?p)"
    using w [of "2560 + ?p"] p by (simp add: elem_elem N_WORDS_def)
  then show "words_of m' (?L3 + 8 * drop_bit 12 gpa) = (if trapped gpa then no_rw e else e)"
    unfolding a using rng ept_reads(3) [OF b p, of ?w] by (auto simp: e_def trap_tab_at [OF p] simp del: of_nat_mult)
qed

lemma trapped_entry:
  assumes "unat gpa < 2 ^ 32" "e = (if trapped gpa then no_rw (page_entry (word_of_nat (4096 * (unat gpa div 4096))))
      else page_entry (word_of_nat (4096 * (unat gpa div 4096))))"
  shows "desc_table e \<and> unat (out_addr e) = 4096 * (unat gpa div 4096) \<and> bit e 6 = (\<not> trapped gpa) \<and> bit e 7 = (\<not> trapped gpa)"
proof -
  let ?w = "word_of_nat (4096 * (unat gpa div 4096)) :: u64"
  have p: "unat gpa div 4096 < 0x100000" using assms(1) by simp
  have "out_addr (no_rw (page_entry ?w)) = out_addr (page_entry ?w)"
    by (intro bit_word_eqI) (auto simp: bit_out_addr bit_no_rw)
  moreover have "out_addr (page_entry ?w) = ?w" using out_addr_page page_aligned_bits(1,2) [OF p] .
  moreover have "unat ?w = 4096 * (unat gpa div 4096)" using p by (simp add: unat_of_nat del: of_nat_mult)
  moreover have "desc_table (no_rw (page_entry ?w)) = desc_table (page_entry ?w)" by (simp add: desc_table_def bit_no_rw)
  moreover have "bit (page_entry ?w) 6" "bit (page_entry ?w) 7" "desc_table (page_entry ?w)"
    by (simp_all add: desc_table_def bit_page_entry)
  ultimately show ?thesis unfolding assms(2) by (simp add: Let_def bit_no_rw del: of_nat_mult)
qed

text \<open>
  The layout of the image: the guest's images, the two formats and the local arrays of a print lie below the
  tables, which \<^verbatim>\<open>link_hyper.lds\<close> puts at the end; the tables end at or below \<^verbatim>\<open>0x50000000\<close>, the
  word that the start writes for its test.
\<close>

definition hyper_layout :: "images \<Rightarrow> u64 \<Rightarrow> u64 \<Rightarrow> u64 \<Rightarrow> system \<Rightarrow> bool" where
  "hyper_layout im b f1 f2 y \<longleftrightarrow> tables_low b \<and> images_below im b \<and>
     unat f1 + length task_format < unat b \<and> unat f2 + length newline_format < unat b \<and>
     unat (pr_buf y) + 1024 \<le> unat b \<and> unat (pr_stk y) + 26 \<le> unat b \<and>
     print_space (pr_stk y) (pr_buf y) f1 f2 (kmem y)"

lemma layout_outside:
  assumes "hyper_layout im b f1 f2 y" "unat b \<le> unat x"
  shows "outside (pr_buf y) 1023 (pr_stk y) x"
proof -
  have "unat (x - a) = unat x - unat a" if "unat a \<le> unat b" for a
    using that assms(2) by (intro unat_sub) (simp add: word_le_nat_alt)
  then show ?thesis using assms by (auto simp: hyper_layout_def outside_def)
qed

lemma layout_space:
  assumes "hyper_layout im b f1 f2 y"
  shows "print_space (pr_stk y) (pr_buf y) f1 f2 (guest_mem b im (kmem y))"
proof -
  have "guest_mem b im (kmem y) (f + of_nat i) = kmem y (f + of_nat i)" if "unat f + n < unat b" "i \<le> n" for f i n
  proof (rule guest_mem_low)
    have "unat b < 2 ^ 40" using assms by (simp add: hyper_layout_def tables_low_def ept_base_ok_def)
    then show "unat (f + of_nat i) < unat b" using that by (simp add: unat_plus_if_size word_size unat_of_nat)
  qed (use assms in \<open>simp_all add: hyper_layout_def images_below_def\<close>)
  then have "cstr (guest_mem b im (kmem y)) f xs = cstr (kmem y) f xs" if "unat f + length xs < unat b" for f xs
    using that by (intro cstr_cong) blast
  then show ?thesis using assms by (simp add: hyper_layout_def print_space_def)
qed

lemma console_sent_kmem [simp]: "console_sent (y\<lparr>kmem := m\<rparr>) = console_sent y"
  by (simp add: console_sent_def split: option.splits uart_ops.splits)

lemma hyper_main_returns:
  assumes "hyper_layout im b f1 f2 (hsys s)" "drains dev" "line_ok (h_line s)"
  shows "\<exists>s' before. hyper_main dev im b test_guest f1 f2 s = Ret s' \<and>
     (\<forall>x. unat b \<le> unat x \<longrightarrow> kmem (hsys s') x = guest_mem b im (kmem (hsys s)) x) \<and>
     tasks (hsys s') = guest_tasks test_guest (tasks (hsys s)) \<and>
     console_sent (hsys s') = before @ task_lines (tasks (hsys s')) 0 @ [10] \<and>
     g_handler_vec (hsys s') =
       (g_handler_vec (hsys s))[30 := Some Timer_interrupt, 27 := Some V_timer, 33 := Some Fake_console] \<and>
     h_L3_root s' = elem b 2560 \<and> h_vttbr_el2 s' = b \<and> vtcr_el2 s' = vtcr_el2 (vtcr_init s)"
proof -
  have b: "ept_base_ok b" using assms(1) by (simp add: hyper_layout_def tables_low_def)
  from hyper_main_runs [OF assms(3) b, of im test_guest dev f1 f2] obtain y ops where y: "started b im test_guest (hsys s) y" and
    run: "hyper_main dev im b test_guest f1 f2 s =
     bind_res (or_fault Loop_forever (print_current_task_list dev (pr_stk y) (pr_buf y) f1 f2 (kmem y) y))
       (\<lambda>(m, y). Ret ((vtcr_init s)\<lparr>hsys := y\<lparr>kmem := m\<rparr>, h_L2_root := elem b 512, h_L3_root := elem b 2560,
          h_ops := ops, h_vttbr_el2 := b\<rparr>))" by blast
  note st = y [unfolded started_def]
  have "print_space (pr_stk y) (pr_buf y) f1 f2 (kmem y)" using layout_space [OF assms(1)] st by simp
  moreover have "console_room dev n y" for n using assms(2) st by (simp add: console_room_def)
  ultimately obtain m' y' where pr: "print_current_task_list dev (pr_stk y) (pr_buf y) f1 f2 (kmem y) y = Some (m', y')"
    "printed dev (pr_stk y) (pr_buf y) (task_lines (tasks y) 0 @ [10]) 0 (kmem y, y) (m', y')" using print_list_printed by blast
  then have fr: "console_frame y y'" and sent: "console_sent y' = console_sent y @ task_lines (tasks y) 0 @ [10]"
    by (simp_all add: printed_def)
  have "m' x = guest_mem b im (kmem (hsys s)) x" if "unat b \<le> unat x" for x
    using pr(2) layout_outside [OF assms(1) that] st by (simp add: printed_def)
  then show ?thesis using run pr(1) sent console_frameD(1,2) [OF fr] st by auto
qed

lemma images_kept:
  assumes "tables_low b" "images_below im b" "\<And>x. unat b \<le> unat x \<Longrightarrow> m' x = guest_mem b im m x"
  shows "unat k < unat (guset_dtb_end im - guset_dtb_start im) \<Longrightarrow> m' (GUEST_DTB_START + k) = m (guset_dtb_start im + k)"
    "unat k < unat (guset_bin_end im - guset_bin_start im) \<Longrightarrow> m' (GUEST_KERNEL_START + k) = m (guset_bin_start im + k)"
    "unat k < unat (guset_fs_end im - guset_fs_start im) \<Longrightarrow> m' (GUEST_FS_START + k) = m (guset_fs_start im + k)"
proof -
  have up: "m' (d + k) = guest_mem b im m (d + k)" if "0x70000000 \<le> unat d" "unat d \<le> 0x78000000" "unat k \<le> 0x8000000" for d
    using that assms(1) by (intro assms(3)) (simp add: tables_low_def unat_plus_if_size word_size)
  have sz: "unat (guset_dtb_end im - guset_dtb_start im) \<le> 0x200000" "unat (guset_bin_end im - guset_bin_start im) \<le> 0x7e00000"
    "unat (guset_fs_end im - guset_fs_start im) \<le> 0x8000000" using assms(2) by (simp_all add: images_below_def images_ok_def image_ok_def)
  show "unat k < unat (guset_dtb_end im - guset_dtb_start im) \<Longrightarrow> m' (GUEST_DTB_START + k) = m (guset_dtb_start im + k)"
    "unat k < unat (guset_bin_end im - guset_bin_start im) \<Longrightarrow> m' (GUEST_KERNEL_START + k) = m (guset_bin_start im + k)"
    "unat k < unat (guset_fs_end im - guset_fs_start im) \<Longrightarrow> m' (GUEST_FS_START + k) = m (guset_fs_start im + k)"
    using sz guest_mem_images [OF assms(1,2), of k m] up [of GUEST_DTB_START] up [of GUEST_KERNEL_START] up [of GUEST_FS_START]
    by (simp_all add: GUEST_DTB_START_def GUEST_KERNEL_START_def GUEST_FS_START_def)
qed

lemma vtcr_fields:
  "(bitfield 0 6 (vtcr_el2 (vtcr_init s)), bitfield 6 2 (vtcr_el2 (vtcr_init s)), bitfield 14 2 (vtcr_el2 (vtcr_init s))) = (64 - 32, 1, 0)"
  by (simp add: vtcr_init_def vtcr_defs bitfield_def take_bit_eq_mod drop_bit_eq_div push_bit_eq_mult)

text \<open>
  C9. \<^verbatim>\<open>hyper_main\<close>, with the images, the tables and the prints in one memory laid out as above, a
  console that drains and a cache line of at most \<open>2 ^ 32\<close> bytes, hangs if the size of the line is 0 and
  otherwise reaches the start of the guest. There, the three images lie unchanged at their
  guest addresses; every 32-bit guest address is mapped to itself through the walk that the stage-2
  control register selects (4 KB pages, 32-bit addresses, from level 1), with access rights exactly
  outside the interrupt controller and the test page; the two virtual machines are tasks 0 and 1,
  the first is current on core 0 and the scheduler's invariant holds, the second waits with its
  entry at the kernel image and \<^verbatim>\<open>x0\<close> pointing to the device tree; the timer, the virtual timer
  and the serial interrupt have their handlers; and the console's output ends with the report of the tasks.
\<close>

theorem hyper_main_ready:
  assumes "hyper_layout im b f1 f2 (hsys s)" "drains dev" "unat (h_line s) \<le> 2 ^ 32"
    "boot_state (tasks (hsys s))" "wf_frame (ctx_of (tasks (hsys s)) 1)"
    "length (g_handler_vec (hsys s)) = NR_HANDLERS" "unat gpa < 2 ^ 32"
  shows "if h_line s = 0 then hyper_main dev im b test_guest f1 f2 s = Err Loop_forever
   else \<exists>s'. hyper_main dev im b test_guest f1 f2 s = Ret s' \<and>
     (\<forall>k. unat k < unat (guset_dtb_end im - guset_dtb_start im) \<longrightarrow>
        kmem (hsys s') (GUEST_DTB_START + k) = kmem (hsys s) (guset_dtb_start im + k)) \<and>
     (\<forall>k. unat k < unat (guset_bin_end im - guset_bin_start im) \<longrightarrow>
        kmem (hsys s') (GUEST_KERNEL_START + k) = kmem (hsys s) (guset_bin_start im + k)) \<and>
     (\<forall>k. unat k < unat (guset_fs_end im - guset_fs_start im) \<longrightarrow>
        kmem (hsys s') (GUEST_FS_START + k) = kmem (hsys s) (guset_fs_start im + k)) \<and>
     stage2_walk (words_of (kmem (hsys s'))) (h_vttbr_el2 s') gpa = Some (get_ept_entry (ept_of s') gpa) \<and>
     (let e = words_of (kmem (hsys s')) (get_ept_entry (ept_of s') gpa) in
        desc_table e \<and> unat (out_addr e) = 4096 * (unat gpa div 4096) \<and>
        bit e 6 = (\<not> trapped gpa) \<and> bit e 7 = (\<not> trapped gpa)) \<and>
     (bitfield 0 6 (vtcr_el2 s'), bitfield 6 2 (vtcr_el2 s'), bitfield 14 2 (vtcr_el2 s')) = (64 - 32, 1, 0) \<and>
     (let k = tasks (hsys s') in sched_inv 1 k \<and> task_count k = 2 \<and> current k 0 = Some 0 \<and> state_of k 1 = WAITING \<and>
        tf_elr (ctx_of k 0) = test_guest \<and> tf_elr (ctx_of k 1) = GUEST_KERNEL_START \<and>
        frame_reg (ctx_of k 1) 0 = GUEST_DTB_START \<and>
        (\<exists>before. console_sent (hsys s') = before @ task_lines k 0 @ [10])) \<and>
     map (\<lambda>v. g_handler_vec (hsys s') ! v) [27, 30, 33] = map Some [V_timer, Timer_interrupt, Fake_console]"
proof (cases "h_line s = 0")
  case True
  then show ?thesis using assms(1) hyper_main_stuck by (simp add: hyper_layout_def tables_low_def)
next
  case False
  have low: "tables_low b" and im: "images_below im b" "images_ok im"
    using assms(1) by (simp_all add: hyper_layout_def images_below_def)
  have "line_ok (h_line s)" using False assms(3) by (simp add: line_ok_def)
  from hyper_main_returns [OF assms(1,2) this, of test_guest] obtain s' before where
    r: "hyper_main dev im b test_guest f1 f2 s = Ret s'"
    and mem: "\<And>x. unat b \<le> unat x \<Longrightarrow> kmem (hsys s') x = guest_mem b im (kmem (hsys s)) x"
    and k: "tasks (hsys s') = guest_tasks test_guest (tasks (hsys s))"
    and sent: "console_sent (hsys s') = before @ task_lines (tasks (hsys s')) 0 @ [10]"
    and hv: "g_handler_vec (hsys s') =
       (g_handler_vec (hsys s))[30 := Some Timer_interrupt, 27 := Some V_timer, 33 := Some Fake_console]"
    and v: "h_L3_root s' = elem b 2560" "h_vttbr_el2 s' = b" "vtcr_el2 s' = vtcr_el2 (vtcr_init s)" by blast
  have e: "get_ept_entry (ept_of s') gpa = elem b 2560 + 8 * drop_bit 12 gpa" by (simp add: get_ept_entry_def ept_of_def v)
  have "kmem (hsys s') x = guest_mem b im (kmem (hsys s)) x" if "in_tables b x" for x
    using that by (intro mem) (simp add: in_tables_def)
  note walk = guest_walk [OF low im(2) assms(7) this]
  have entry: "let e = words_of (kmem (hsys s')) (get_ept_entry (ept_of s') gpa) in
        desc_table e \<and> unat (out_addr e) = 4096 * (unat gpa div 4096) \<and>
        bit e 6 = (\<not> trapped gpa) \<and> bit e 7 = (\<not> trapped gpa)"
    using trapped_entry [OF assms(7) walk(2)] unfolding e Let_def .
  have h: "map (\<lambda>v. g_handler_vec (hsys s') ! v) [27, 30, 33] = map Some [V_timer, Timer_interrupt, Fake_console]"
    using assms(6) by (simp add: hv NR_HANDLERS_def)
  have "stage2_walk (words_of (kmem (hsys s'))) (h_vttbr_el2 s') gpa = Some (get_ept_entry (ept_of s') gpa)"
    using walk(1) unfolding e v .
  then show ?thesis
    unfolding if_not_P [OF False]
    using entry h vtcr_fields [of s] images_kept [OF low im(1) mem] guest_tasks_ready [OF assms(4,5), of test_guest] sent
    by (intro exI [of _ s'] conjI r) (simp_all add: v k Let_def)
qed

definition demo_images :: images where
  "demo_images = \<lparr>guset_bin_start = 0x40100000, guset_bin_end = 0x41100000, guset_dtb_start = 0x41100000,
     guset_dtb_end = 0x41102000, guset_fs_start = 0x41102400, guset_fs_end = 0x43000000\<rparr>"


text \<open>The hypervisor as it is loaded: its two formats in the image, the rest of the memory filled with 7.\<close>

definition demo_ram :: mem where
  "demo_ram = put_bytes (put_bytes (\<lambda>_. 7) 0x40090100 (task_format @ [0])) 0x40090200 (newline_format @ [0])"

definition demo_hyper :: hyper where
  "demo_hyper = \<lparr>hsys = demo_sys\<lparr>tasks := boot0, kmem := demo_ram, pr_stk := 0x43f00000, pr_buf := 0x43e00000\<rparr>,
     h_L2_root = 0, h_L3_root = 0, h_vttbr_el2 = 0, h_ops = [], h_line = 64, vtcr_el2 = 0\<rparr>"

lemma demo_layout: "hyper_layout demo_images 0x44000000 0x40090100 0x40090200 (hsys demo_hyper)"
proof -
  have c: "clear 0x43e00000 1023 0x43f00000 25"
    unfolding clear_def
  proof (intro allI impI)
    fix i :: nat assume i: "i \<le> 25"
    then have "(0x43f00000 + of_nat i - 0x43e00000 :: u64) = of_nat (0x100000 + i)" by simp
    then show "1023 < unat (0x43f00000 + of_nat i - 0x43e00000 :: u64)"
      using i by (simp only:) (simp add: unat_of_nat del: of_nat_add)
  qed
  have s: "cstr demo_ram 0x40090100 task_format" "cstr demo_ram 0x40090200 newline_format"
    by (simp_all add: demo_ram_def put_bytes_def task_format_def newline_format_def)
  show ?thesis
    using c s off_below [of "0x40090100" "length task_format" "0x43e00000" "0x43f00000" 1023]
      off_below [of "0x40090200" "length newline_format" "0x43e00000" "0x43f00000" 1023]
    by (simp add: hyper_layout_def tables_low_def ept_base_ok_def N_WORDS_def images_below_def images_ok_def image_ok_def demo_images_def
        demo_hyper_def print_space_def task_format_def newline_format_def)
qed

theorem hyper_main_ready_witness:
  "if h_line demo_hyper = 0 then hyper_main (\<lambda>h a. 0) demo_images 0x44000000 0x40090000 0x40090100 0x40090200 demo_hyper = Err Loop_forever
   else \<exists>s'. hyper_main (\<lambda>h a. 0) demo_images 0x44000000 0x40090000 0x40090100 0x40090200 demo_hyper = Ret s' \<and>
     (\<forall>k. unat k < unat (guset_dtb_end demo_images - guset_dtb_start demo_images) \<longrightarrow>
        kmem (hsys s') (GUEST_DTB_START + k) = kmem (hsys demo_hyper) (guset_dtb_start demo_images + k)) \<and>
     (\<forall>k. unat k < unat (guset_bin_end demo_images - guset_bin_start demo_images) \<longrightarrow>
        kmem (hsys s') (GUEST_KERNEL_START + k) = kmem (hsys demo_hyper) (guset_bin_start demo_images + k)) \<and>
     (\<forall>k. unat k < unat (guset_fs_end demo_images - guset_fs_start demo_images) \<longrightarrow>
        kmem (hsys s') (GUEST_FS_START + k) = kmem (hsys demo_hyper) (guset_fs_start demo_images + k)) \<and>
     stage2_walk (words_of (kmem (hsys s'))) (h_vttbr_el2 s') 0x50000010 = Some (get_ept_entry (ept_of s') 0x50000010) \<and>
     (let e = words_of (kmem (hsys s')) (get_ept_entry (ept_of s') 0x50000010) in
        desc_table e \<and> unat (out_addr e) = 4096 * (unat (0x50000010 :: u64) div 4096) \<and>
        bit e 6 = (\<not> trapped 0x50000010) \<and> bit e 7 = (\<not> trapped 0x50000010)) \<and>
     (bitfield 0 6 (vtcr_el2 s'), bitfield 6 2 (vtcr_el2 s'), bitfield 14 2 (vtcr_el2 s')) = (64 - 32, 1, 0) \<and>
     (let k = tasks (hsys s') in sched_inv 1 k \<and> task_count k = 2 \<and> current k 0 = Some 0 \<and> state_of k 1 = WAITING \<and>
        tf_elr (ctx_of k 0) = 0x40090000 \<and> tf_elr (ctx_of k 1) = GUEST_KERNEL_START \<and>
        frame_reg (ctx_of k 1) 0 = GUEST_DTB_START \<and>
        (\<exists>before. console_sent (hsys s') = before @ task_lines k 0 @ [10])) \<and>
     map (\<lambda>v. g_handler_vec (hsys s') ! v) [27, 30, 33] = map Some [V_timer, Timer_interrupt, Fake_console]"
proof (rule hyper_main_ready [OF demo_layout])
  show "boot_state (tasks (hsys demo_hyper))" using boot_state_boot0 by (simp add: demo_hyper_def)
qed (simp_all add: drains_def demo_hyper_def demo_sys_def boot0_def wf_frame_def MAX_TASKS_def)


end
