(* ===== verification/Kernel.thy ===== *)
theory Kernel
  imports Boot Hyper
begin

text \<open>
  The start of the kernel without hypervisor (\<^verbatim>\<open>main.c\<close>), what each core does on its own: the devices
  of core 0 and of the other cores, the copies of the two applications and the creation of their
  tasks. How the cores interleave is the subject of the theory of the start-up barrier.
\<close>

subsection \<open>Operations\<close>

definition copy_app1 :: "u64 \<Rightarrow> u64 \<Rightarrow> mem \<Rightarrow> mem" where
  "copy_app1 app1_bin_start app1_bin_end m = fst (memcpy m 0x80000000 app1_bin_start (app1_bin_end - app1_bin_start))"

definition copy_app2 :: "u64 \<Rightarrow> u64 \<Rightarrow> mem \<Rightarrow> mem" where
  "copy_app2 app2_bin_start app2_bin_end m = fst (memcpy m 0x90000000 app2_bin_start (app2_bin_end - app2_bin_start))"

text \<open>\<^verbatim>\<open>kernel_main\<close> up to the start of the other cores, on core 0.\<close>

definition kernel_main_init :: "dev \<Rightarrow> system \<Rightarrow> system res" where
  "kernel_main_init dev s =
     (let s = io_early_init s;
          (g, h) = gic_init dev (gicv2 s) (bus s);
          h = write32 0x1 0x8000404 h
      in timer_init dev 0 (s\<lparr>gicv2 := g, bus := h\<rparr>))"

text \<open>\<^verbatim>\<open>second_kernel_main\<close> up to \<^verbatim>\<open>main_entry\<close>, on core \<open>c\<close>.\<close>

definition second_kernel_main :: "dev \<Rightarrow> nat \<Rightarrow> system \<Rightarrow> system" where
  "second_kernel_main dev c s =
     (let h = gicc_init (bus s);
          (_, h) = gic_test_init dev h
      in timer_init_second dev c (s\<lparr>bus := h\<rparr>))"

text \<open>The part of \<^verbatim>\<open>main_entry\<close> that only core 0 runs.\<close>

definition main_entry_primary :: "u64 \<Rightarrow> u64 \<Rightarrow> u64 \<Rightarrow> u64 \<Rightarrow> kstate \<Rightarrow> mem \<Rightarrow> kstate \<times> mem" where
  "main_entry_primary a1 e1 a2 e2 k m = (main_tasks k, copy_app2 a2 e2 (copy_app1 a1 e1 m))"

subsection \<open>Correctness\<close>

text \<open>An application image in the kernel's half of the address space, at most 256 MB long.\<close>

definition app_ok :: "u64 \<Rightarrow> u64 \<Rightarrow> bool" where
  "app_ok a e \<longleftrightarrow> 2 ^ 48 \<le> unat a \<and> unat a \<le> unat e \<and> unat (e - a) \<le> 0x10000000"

lemma memcpy_app:
  assumes "app_ok a e" "unat d < 2 ^ 32"
  shows "fst (memcpy m d a (e - a)) x =
     (if unat d \<le> unat x \<and> unat x < unat d + unat (e - a) then m (a + (x - d)) else m x)"
proof -
  have n: "unat (e - a) = unat e - unat a" using assms(1) by (simp add: app_ok_def unat_sub word_le_nat_alt)
  have "a + k \<noteq> d + j" if "j < k" "k < e - a" for j k
  proof
    assume eq: "a + k = d + j"
    have k: "unat k < unat e - unat a" "unat j < unat k" using that n by (simp_all add: word_less_nat_alt)
    then have "unat (a + k) = unat a + unat k" using unsigned_less [of e, where ?'a = nat] by (simp add: unat_plus_if_size word_size)
    moreover have "unat (d + j) = unat d + unat j"
      using assms k n by (simp add: unat_plus_if_size word_size app_ok_def)
    ultimately have "unat a + unat k = unat d + unat j" using eq by (simp only:)
    then show False using assms k n by (simp add: app_ok_def)
  qed
  then have "memcpy_loop m d a 0 (e - a) = copied m d a (e - a)" by (rule memcpy_copied)
  moreover have "unat d + unat (e - a) \<le> 2 ^ 64" using assms unfolding app_ok_def by simp
  ultimately show ?thesis by (simp add: memcpy_def copied_def in_range_iff)
qed


lemma app_tasks:
  assumes "task_tables k"
  shows "tf_elr (ctx_of (main_tasks k) 0) = 0x80000000" "tf_elr (ctx_of (main_tasks k) 1) = 0x90000000"
    "tf_spsr (ctx_of (main_tasks k) 0) = 0" "tf_spsr (ctx_of (main_tasks k) 1) = 0"
    "tf_usp (ctx_of (main_tasks k) 0) = 0x80004000" "tf_usp (ctx_of (main_tasks k) 1) = 0x90004000"
  using assms by (simp_all add: main_tasks_def schedule_init_def create_task_def Let_def task_tables_def MAX_TASKS_def SPSR_EL1_USER_def)

lemma app_images:
  assumes "app_ok a1 e1" "app_ok a2 e2"
  shows "unat i < unat (e1 - a1) \<Longrightarrow> copy_app2 a2 e2 (copy_app1 a1 e1 m) (0x80000000 + i) = m (a1 + i)"
    and "unat i < unat (e2 - a2) \<Longrightarrow> copy_app2 a2 e2 (copy_app1 a1 e1 m) (0x90000000 + i) = m (a2 + i)"
proof -
  have len: "unat (e1 - a1) \<le> 0x10000000" "unat (e2 - a2) \<le> 0x10000000" using assms by (simp_all add: app_ok_def)
  have dst: "unat (d + i) = unat d + unat i" if "unat d \<le> 0x90000000" "unat i \<le> 0x10000000" for d i :: u64
    using that by (simp add: unat_plus_if_size word_size)
  have src: "2 ^ 48 \<le> unat (a2 + i)" if "unat i < unat (e2 - a2)"
    using assms(2) that unsigned_less [of e2, where ?'a = nat]
    by (simp add: app_ok_def unat_sub word_le_nat_alt unat_plus_if_size word_size)
  show "copy_app2 a2 e2 (copy_app1 a1 e1 m) (0x80000000 + i) = m (a1 + i)" if "unat i < unat (e1 - a1)"
    using that len dst [of "0x80000000" i] by (simp add: copy_app1_def copy_app2_def memcpy_app [OF assms(1)] memcpy_app [OF assms(2)])
  show "copy_app2 a2 e2 (copy_app1 a1 e1 m) (0x90000000 + i) = m (a2 + i)" if "unat i < unat (e2 - a2)"
    using that len dst [of "0x90000000" i] src [OF that]
    by (simp add: copy_app1_def copy_app2_def memcpy_app [OF assms(1)] memcpy_app [OF assms(2)])
qed

lemmas gic_run = gic_init_def gicc_init_def gic_test_init_def cpu_num_def read32_def write32_def Let_def gic_enable_int_def
  gic_get_enable_def write8_def

lemma kernel_main_devices:
  assumes "length (g_handler_vec s) = NR_HANDLERS"
  shows "\<exists>s'. kernel_main_init dev s = Ret s' \<and> g_handler_vec s' ! 30 = Some Timer_interrupt \<and>
     Wr32 GICC_CTLR 1 \<in> set (bus s') \<and> cntp_ctl_el0 s' 0 = 1 \<and> cntp_tval_el0 s' 0 = 100000"
  using assms by (simp add: kernel_main_init_def timer_init_def irq_install_def TIMER_VECTOR_def NR_HANDLERS_def gic_run io_early_init_def)

lemma second_devices:
  "let s' = second_kernel_main dev c s in g_handler_vec s' = g_handler_vec s \<and>
     (\<exists>h. bus s' = bus s @ h \<and> Wr32 GICC_CTLR 1 \<in> set h) \<and> cntp_ctl_el0 s' c = 1 \<and> cntp_tval_el0 s' c = 100000"
  by (simp add: second_kernel_main_def timer_init_second_def gic_run)

text \<open>
  C10. When core 0 has prepared the start, the two applications lie unchanged at \<open>0x80000000\<close> and
  \<open>0x90000000\<close> and the two waiting tasks enter them in user mode, each with its own stack; the
  interrupt of the timer has its handler, the timers of core 0 and of every other core that has run
  \<^verbatim>\<open>second_kernel_main\<close> are armed, and each of them has turned on its processor interface.
\<close>

theorem kernel_start_ready:
  assumes "app_ok a1 e1" "app_ok a2 e2" "task_tables k" "length (g_handler_vec s) = NR_HANDLERS"
  shows "\<exists>s'. kernel_main_init dev s = Ret s' \<and>
     (case main_entry_primary a1 e1 a2 e2 k m of (k', m') \<Rightarrow>
       (\<forall>i. unat i < unat (e1 - a1) \<longrightarrow> m' (0x80000000 + i) = m (a1 + i)) \<and>
       (\<forall>i. unat i < unat (e2 - a2) \<longrightarrow> m' (0x90000000 + i) = m (a2 + i)) \<and>
       task_count k' = 2 \<and> state_of k' 0 = WAITING \<and> state_of k' 1 = WAITING \<and>
       (tf_elr (ctx_of k' 0), tf_usp (ctx_of k' 0), tf_spsr (ctx_of k' 0)) = (0x80000000, 0x80004000, 0) \<and>
       (tf_elr (ctx_of k' 1), tf_usp (ctx_of k' 1), tf_spsr (ctx_of k' 1)) = (0x90000000, 0x90004000, 0)) \<and>
     g_handler_vec s' ! 30 = Some Timer_interrupt \<and>
     Wr32 GICC_CTLR 1 \<in> set (bus s') \<and> cntp_ctl_el0 s' 0 = 1 \<and> cntp_tval_el0 s' 0 = 100000 \<and>
     (let s'' = second_kernel_main dev c s' in g_handler_vec s'' = g_handler_vec s' \<and>
        (\<exists>h. bus s'' = bus s' @ h \<and> Wr32 GICC_CTLR 1 \<in> set h) \<and> cntp_ctl_el0 s'' c = 1 \<and> cntp_tval_el0 s'' c = 100000)"
proof -
  obtain s' where s': "kernel_main_init dev s = Ret s'" "g_handler_vec s' ! 30 = Some Timer_interrupt"
    "Wr32 GICC_CTLR 1 \<in> set (bus s')" "cntp_ctl_el0 s' 0 = 1" "cntp_tval_el0 s' 0 = 100000"
    using kernel_main_devices [OF assms(4)] by blast
  show ?thesis
    using s' app_images [OF assms(1,2)] app_tasks [OF assms(3)] main_tasks_ready [OF assms(3)] second_devices [of dev c s']
    by (intro exI [of _ s']) (simp add: main_entry_primary_def)
qed

theorem kernel_start_ready_witness:
  "\<exists>s'. kernel_main_init (\<lambda>h a. 0) demo_sys = Ret s' \<and>
     (case main_entry_primary 0xffff000040100000 0xffff000040100800 0xffff000040100800 0xffff000040101000 boot0 (\<lambda>a. 1) of (k', m') \<Rightarrow>
       (\<forall>i. unat i < unat ((0xffff000040100800 :: u64) - 0xffff000040100000) \<longrightarrow> m' (0x80000000 + i) = (\<lambda>a. 1) (0xffff000040100000 + i)) \<and>
       (\<forall>i. unat i < unat ((0xffff000040101000 :: u64) - 0xffff000040100800) \<longrightarrow> m' (0x90000000 + i) = (\<lambda>a. 1) (0xffff000040100800 + i)) \<and>
       task_count k' = 2 \<and> state_of k' 0 = WAITING \<and> state_of k' 1 = WAITING \<and>
       (tf_elr (ctx_of k' 0), tf_usp (ctx_of k' 0), tf_spsr (ctx_of k' 0)) = (0x80000000, 0x80004000, 0) \<and>
       (tf_elr (ctx_of k' 1), tf_usp (ctx_of k' 1), tf_spsr (ctx_of k' 1)) = (0x90000000, 0x90004000, 0)) \<and>
     g_handler_vec s' ! 30 = Some Timer_interrupt \<and>
     Wr32 GICC_CTLR 1 \<in> set (bus s') \<and> cntp_ctl_el0 s' 0 = 1 \<and> cntp_tval_el0 s' 0 = 100000 \<and>
     (let s'' = second_kernel_main (\<lambda>h a. 0) 1 s' in g_handler_vec s'' = g_handler_vec s' \<and>
        (\<exists>h. bus s'' = bus s' @ h \<and> Wr32 GICC_CTLR 1 \<in> set h) \<and> cntp_ctl_el0 s'' 1 = 1 \<and> cntp_tval_el0 s'' 1 = 100000)"
  by (rule kernel_start_ready [where m = "\<lambda>a. 1"])
    (simp_all add: app_ok_def task_tables_def boot0_def demo_sys_def)

end
