(* ===== verification/Dw8250.thy ===== *)
theory Dw8250
  imports Mmio
begin

text \<open>
  The driver of the DesignWare serial port (\<^verbatim>\<open>io/uart_dw_apb.c\<close>). The offsets are those of the
  members of \<^verbatim>\<open>DW8250Regs\<close>; an access through a member is one 32-bit access to the device. The loops
  that wait for the device are partial functions.
\<close>

subsection \<open>Registers\<close>

definition rbr :: u64 where "rbr = 0x00"

definition ier :: u64 where "ier = 0x04"

definition fcr :: u64 where "fcr = 0x08"

definition lcr :: u64 where "lcr = 0x0c"

definition mcr :: u64 where "mcr = 0x10"

definition lsr :: u64 where "lsr = 0x14"

definition usr :: u64 where "usr = 0x28"

definition dlf :: u64 where "dlf = 0x30"

lemmas dw_regs = rbr_def ier_def fcr_def lcr_def mcr_def lsr_def usr_def dlf_def

record DW8250 =
  base_vaddr :: u64

definition regs :: "DW8250 \<Rightarrow> u64 \<Rightarrow> u64" where
  "regs u member = base_vaddr u + member"

subsection \<open>Operations\<close>

definition UART_SRC_CLK :: u32 where "UART_SRC_CLK = 25000000"

definition BST_UART_DLF_LEN :: nat where "BST_UART_DLF_LEN = 6"

definition BAUDRATE :: u32 where "BAUDRATE = 115200"

definition get_baud_divider :: "u32 \<Rightarrow> u32" where
  "get_baud_divider baudrate = push_bit (BST_UART_DLF_LEN - 4) UART_SRC_CLK div baudrate"

partial_function (option) busy_loop :: "dev \<Rightarrow> DW8250 \<Rightarrow> hist \<Rightarrow> hist option" where
  "busy_loop dev u h =
     (let (v, h) = read32 dev (regs u usr) h in
      if v AND 0b1 \<noteq> 0 then busy_loop dev u h else Some h)"

text \<open>A compound assignment to a register: a read and a write.\<close>

definition update32 :: "dev \<Rightarrow> (u32 \<Rightarrow> u32) \<Rightarrow> u64 \<Rightarrow> hist \<Rightarrow> hist" where
  "update32 dev f a h = (let (v, h) = read32 dev a h in write32 (f v) a h)"

definition DW8250_init :: "dev \<Rightarrow> DW8250 \<Rightarrow> hist \<Rightarrow> hist option" where
  "DW8250_init dev u h =
     (let divider = get_baud_divider BAUDRATE in do {
        h \<leftarrow> busy_loop dev u h;
        let h = write32 0 (regs u ier) h;
        let h = write32 1 (regs u fcr) h;
        let h = write32 0 (regs u mcr) h;
        let h = update32 dev (\<lambda>v. v OR push_bit 1 1) (regs u mcr) h;
        let h = update32 dev (\<lambda>v. v OR push_bit 7 1) (regs u lcr) h;
        let h = write32 (drop_bit BST_UART_DLF_LEN divider AND 0xff) (regs u rbr) h;
        let h = write32 (drop_bit (BST_UART_DLF_LEN + 8) divider AND 0xff) (regs u ier) h;
        let h = write32 (divider AND (push_bit BST_UART_DLF_LEN 1 - 1)) (regs u dlf) h;
        let h = update32 dev (\<lambda>v. v AND NOT (push_bit 7 1)) (regs u lcr) h;
        Some (update32 dev (\<lambda>v. v OR 0b11) (regs u lcr) h)
      })"

partial_function (option) DW8250_putchar :: "dev \<Rightarrow> DW8250 \<Rightarrow> u8 \<Rightarrow> hist \<Rightarrow> hist option" where
  "DW8250_putchar dev u c h =
     (let (v, h) = read32 dev (regs u lsr) h in
      if v AND push_bit 6 1 = 0 then DW8250_putchar dev u c h
      else Some (write32 (ucast c) (regs u rbr) h))"

definition DW8250_getchar :: "dev \<Rightarrow> DW8250 \<Rightarrow> hist \<Rightarrow> u8 \<times> hist" where
  "DW8250_getchar dev u h =
     (let (v, h) = read32 dev (regs u lsr) h in
      if v AND 0b1 \<noteq> 0 then (let (v, h) = read32 dev (regs u rbr) h in (ucast (v AND 0xff), h))
      else (0, h))"

definition DW8250_set_ier :: "DW8250 \<Rightarrow> bool \<Rightarrow> hist \<Rightarrow> hist" where
  "DW8250_set_ier u enable h = (if enable then write32 1 (regs u ier) h else write32 0 (regs u ier) h)"

subsection \<open>Correctness\<close>

lemma one_flag: "(ucast (v :: u64) :: u32) AND 0b1 \<noteq> 0 \<longleftrightarrow> bit v 0"
  using and_single_eq_0_iff [of 0 "ucast v :: u32"] ucast_flag [of 0 v] unfolding power_0 numeral_One by simp

text \<open>Both waiting loops poll a status register.\<close>

interpretation dw_busy: polling dev "regs u usr" "\<lambda>v. \<not> bit v 0" Some "busy_loop dev u" for dev u
proof
  fix h
  show "busy_loop dev u h = (if \<not> bit (dev h (regs u usr)) 0 then Some (h @ [Rd (regs u usr)]) else busy_loop dev u (h @ [Rd (regs u usr)]))"
    unfolding busy_loop.simps [of dev u h] read32_def Let_def prod.case one_flag by simp
qed

interpretation dw_put: polling dev "regs u lsr" "\<lambda>v. bit v 6" "\<lambda>h. Some (write32 (ucast c) (regs u rbr) h)" "DW8250_putchar dev u c"
  for dev u c
proof
  fix h
  show "DW8250_putchar dev u c h = (if bit (dev h (regs u lsr)) 6
      then Some (write32 (ucast c) (regs u rbr) (h @ [Rd (regs u lsr)])) else DW8250_putchar dev u c (h @ [Rd (regs u lsr)]))"
    using and_single_eq_0_iff [of 6 "ucast (dev h (regs u lsr)) :: u32"]
    by (subst DW8250_putchar.simps) (simp add: read32_def ucast_flag)
qed

text \<open>
  On a device that becomes idle after \<open>k\<close> polls, \<^verbatim>\<open>DW8250_init\<close> returns and has told the device
  exactly: interrupts off, buffers on, flow control off and request to send, the divisor latch
  opened, filled and closed, eight data bits. The parts of the divisor make up 868, the divider of
  115200 baud in 64ths, and reach the two latches and the fraction register. On a device that
  reports room after \<open>j\<close> polls, \<^verbatim>\<open>DW8250_putchar\<close> then returns and has told it the character.
\<close>

theorem dw8250_init_putchar:
  assumes "\<forall>i < k. bit (dev (h @ replicate i (Rd (regs u usr))) (regs u usr)) 0"
    and "\<not> bit (dev (h @ replicate k (Rd (regs u usr))) (regs u usr)) 0"
  shows "\<exists>h' v1 v2 v3 v4. DW8250_init dev u h = Some h' \<and>
     writes h' = writes h @ [Wr32 (regs u ier) 0, Wr32 (regs u fcr) 1, Wr32 (regs u mcr) 0, Wr32 (regs u mcr) v1,
       Wr32 (regs u lcr) v2, Wr32 (regs u rbr) (868 div 64), Wr32 (regs u ier) 0, Wr32 (regs u dlf) (868 mod 64),
       Wr32 (regs u lcr) v3, Wr32 (regs u lcr) v4] \<and>
     bit v1 1 \<and> bit v2 7 \<and> \<not> bit v3 7 \<and> bit v4 0 \<and> bit v4 1 \<and> get_baud_divider BAUDRATE = 868 \<and>
     ((\<forall>i < j. \<not> bit (dev (h' @ replicate i (Rd (regs u lsr))) (regs u lsr)) 6) \<and>
        bit (dev (h' @ replicate j (Rd (regs u lsr))) (regs u lsr)) 6 \<longrightarrow>
      DW8250_putchar dev u c h' = Some (h' @ replicate (Suc j) (Rd (regs u lsr)) @ [Wr32 (regs u rbr) (ucast c)]))"
proof -
  let ?h0 = "h @ replicate (Suc k) (Rd (regs u usr))"
  have b: "busy_loop dev u h = Some ?h0" using assms by (intro dw_busy.polls) simp_all
  have d: "get_baud_divider BAUDRATE = 868" by (simp add: get_baud_divider_def BST_UART_DLF_LEN_def UART_SRC_CLK_def BAUDRATE_def)
  have w: "writes (replicate n (Rd a)) = []" for n a by (simp add: writes_def)
  let ?run = "\<lambda>v1 v2 v3 v4. ?h0 @ [Wr32 (regs u ier) 0, Wr32 (regs u fcr) 1, Wr32 (regs u mcr) 0, Rd (regs u mcr), Wr32 (regs u mcr) v1,
      Rd (regs u lcr), Wr32 (regs u lcr) v2, Wr32 (regs u rbr) (868 div 64), Wr32 (regs u ier) 0, Wr32 (regs u dlf) (868 mod 64),
      Rd (regs u lcr), Wr32 (regs u lcr) v3, Rd (regs u lcr), Wr32 (regs u lcr) v4]"
  have "\<exists>r1 r2 r3 r4. DW8250_init dev u h = Some (?run (r1 OR push_bit 1 1) (r2 OR push_bit 7 1) (r3 AND NOT (push_bit 7 1)) (r4 OR 0b11))"
    unfolding DW8250_init_def d Let_def b by (simp add: update32_def read32_def write32_def BST_UART_DLF_LEN_def) blast
  then obtain r1 r2 r3 r4 where init: "DW8250_init dev u h =
      Some (?run (r1 OR push_bit 1 1) (r2 OR push_bit 7 1) (r3 AND NOT (push_bit 7 1)) (r4 OR 0b11))" by blast
  have bits: "bit (r1 OR push_bit 1 1) 1" "bit (r2 OR push_bit 7 1) 7" "\<not> bit (r3 AND NOT (push_bit 7 1)) 7"
    "bit (r4 OR 0b11) 0" "bit (r4 OR 0b11) 1" for r1 r2 r3 r4 :: u32
    by (simp_all only: bit_or_iff bit_and_iff bit_not_iff bit_push_bit_iff) simp_all
  have put: "(\<forall>i < j. \<not> bit (dev (h' @ replicate i (Rd (regs u lsr))) (regs u lsr)) 6) \<and>
        bit (dev (h' @ replicate j (Rd (regs u lsr))) (regs u lsr)) 6 \<longrightarrow>
      DW8250_putchar dev u c h' = Some (h' @ replicate (Suc j) (Rd (regs u lsr)) @ [Wr32 (regs u rbr) (ucast c)])" for h'
    using dw_put.polls [where k = j and h = h' and dev = dev and u = u and c = c] by (auto simp: write32_def)
  show ?thesis unfolding init
    by (rule exI [of _ "?run (r1 OR push_bit 1 1) (r2 OR push_bit 7 1) (r3 AND NOT (push_bit 7 1)) (r4 OR 0b11)"],
      rule exI [of _ "r1 OR push_bit 1 1"], rule exI [of _ "r2 OR push_bit 7 1"], rule exI [of _ "r3 AND NOT (push_bit 7 1)"],
      rule exI [of _ "r4 OR 0b11"], intro conjI refl bits d put) (simp add: w)
qed

theorem dw8250_init_putchar_witness:
  "\<exists>h' v1 v2 v3 v4. DW8250_init (\<lambda>h a. 0x40) \<lparr>base_vaddr = 0x20008000\<rparr> [] = Some h' \<and>
     writes h' = writes [] @ [Wr32 (regs \<lparr>base_vaddr = 0x20008000\<rparr> ier) 0, Wr32 (regs \<lparr>base_vaddr = 0x20008000\<rparr> fcr) 1,
       Wr32 (regs \<lparr>base_vaddr = 0x20008000\<rparr> mcr) 0, Wr32 (regs \<lparr>base_vaddr = 0x20008000\<rparr> mcr) v1,
       Wr32 (regs \<lparr>base_vaddr = 0x20008000\<rparr> lcr) v2, Wr32 (regs \<lparr>base_vaddr = 0x20008000\<rparr> rbr) (868 div 64),
       Wr32 (regs \<lparr>base_vaddr = 0x20008000\<rparr> ier) 0, Wr32 (regs \<lparr>base_vaddr = 0x20008000\<rparr> dlf) (868 mod 64),
       Wr32 (regs \<lparr>base_vaddr = 0x20008000\<rparr> lcr) v3, Wr32 (regs \<lparr>base_vaddr = 0x20008000\<rparr> lcr) v4] \<and>
     bit v1 1 \<and> bit v2 7 \<and> \<not> bit v3 7 \<and> bit v4 0 \<and> bit v4 1 \<and> get_baud_divider BAUDRATE = 868 \<and>
     ((\<forall>i < 0. \<not> bit ((\<lambda>h a. 0x40 :: u64) (h' @ replicate i (Rd (regs \<lparr>base_vaddr = 0x20008000\<rparr> lsr))) (regs \<lparr>base_vaddr = 0x20008000\<rparr> lsr)) 6) \<and>
        bit ((\<lambda>h a. 0x40 :: u64) (h' @ replicate 0 (Rd (regs \<lparr>base_vaddr = 0x20008000\<rparr> lsr))) (regs \<lparr>base_vaddr = 0x20008000\<rparr> lsr)) 6 \<longrightarrow>
      DW8250_putchar (\<lambda>h a. 0x40) \<lparr>base_vaddr = 0x20008000\<rparr> 65 h' =
        Some (h' @ replicate (Suc 0) (Rd (regs \<lparr>base_vaddr = 0x20008000\<rparr> lsr)) @ [Wr32 (regs \<lparr>base_vaddr = 0x20008000\<rparr> rbr) (ucast (65 :: u8))]))"
  by (rule dw8250_init_putchar [where k = 0]) simp_all

end
