(* ===== verification/Rbtree.thy ===== *)
theory Rbtree
  imports Kqueue
begin

text \<open>
  The red-black tree of \<^verbatim>\<open>lib/rbtree.c\<close>. Each member of \<^verbatim>\<open>rbnode_t\<close> is a map from node addresses to
  values; the nodes lie in the static array \<^verbatim>\<open>node_pool\<close>, behind the queue node of each of its
  64-byte entries. An access through an address that is not a node of the pool, the null pointer in
  particular, is a fault, the value \<open>None\<close>. Freed nodes are kept in a sentinel queue. The comparison
  of a tree is a function of two keys. Loops that follow pointers are partial functions.
\<close>

subsection \<open>Nodes\<close>

definition RBTREE_NODE_POOL_NUM :: nat where "RBTREE_NODE_POOL_NUM = 1024"

datatype node_color_t = NODE_RED | NODE_BLACK

record rbnode_t =
  rb_base :: u64
  rb_key :: "u64 \<Rightarrow> u64"
  rb_val :: "u64 \<Rightarrow> u64"
  rb_par :: "u64 \<Rightarrow> u64"
  rb_left :: "u64 \<Rightarrow> u64"
  rb_right :: "u64 \<Rightarrow> u64"
  rb_color :: "u64 \<Rightarrow> node_color_t"

definition node_addr :: "u64 \<Rightarrow> nat \<Rightarrow> u64" where
  "node_addr base i = base + word_of_nat (64 * i) + 16"

definition is_node :: "u64 \<Rightarrow> u64 \<Rightarrow> bool" where
  "is_node base p \<longleftrightarrow> p \<noteq> 0 \<and> unat (p - base - 16) mod 64 = 0 \<and> unat (p - base - 16) div 64 < RBTREE_NODE_POOL_NUM"

definition rd :: "(rbnode_t \<Rightarrow> u64 \<Rightarrow> 'a) \<Rightarrow> u64 \<Rightarrow> rbnode_t \<Rightarrow> 'a option" where
  "rd f p m = (if is_node (rb_base m) p then Some (f m p) else None)"

definition wr_key :: "u64 \<Rightarrow> u64 \<Rightarrow> rbnode_t \<Rightarrow> rbnode_t option" where
  "wr_key p v m = (if is_node (rb_base m) p then Some (m\<lparr>rb_key := (rb_key m)(p := v)\<rparr>) else None)"

definition wr_val :: "u64 \<Rightarrow> u64 \<Rightarrow> rbnode_t \<Rightarrow> rbnode_t option" where
  "wr_val p v m = (if is_node (rb_base m) p then Some (m\<lparr>rb_val := (rb_val m)(p := v)\<rparr>) else None)"

definition wr_par :: "u64 \<Rightarrow> u64 \<Rightarrow> rbnode_t \<Rightarrow> rbnode_t option" where
  "wr_par p v m = (if is_node (rb_base m) p then Some (m\<lparr>rb_par := (rb_par m)(p := v)\<rparr>) else None)"

definition wr_left :: "u64 \<Rightarrow> u64 \<Rightarrow> rbnode_t \<Rightarrow> rbnode_t option" where
  "wr_left p v m = (if is_node (rb_base m) p then Some (m\<lparr>rb_left := (rb_left m)(p := v)\<rparr>) else None)"

definition wr_right :: "u64 \<Rightarrow> u64 \<Rightarrow> rbnode_t \<Rightarrow> rbnode_t option" where
  "wr_right p v m = (if is_node (rb_base m) p then Some (m\<lparr>rb_right := (rb_right m)(p := v)\<rparr>) else None)"

definition wr_color :: "u64 \<Rightarrow> node_color_t \<Rightarrow> rbnode_t \<Rightarrow> rbnode_t option" where
  "wr_color p v m = (if is_node (rb_base m) p then Some (m\<lparr>rb_color := (rb_color m)(p := v)\<rparr>) else None)"

lemmas rb_access = rd_def wr_key_def wr_val_def wr_par_def wr_left_def wr_right_def wr_color_def

text \<open>\<^verbatim>\<open>if (x) x->par = p\<close>, \<^verbatim>\<open>x != NULL && x->color == NODE_RED\<close>, and the copy of key and value.\<close>

definition adopt :: "u64 \<Rightarrow> u64 \<Rightarrow> rbnode_t \<Rightarrow> rbnode_t option" where
  "adopt x p m = (if x \<noteq> 0 then wr_par x p m else Some m)"

definition is_red :: "u64 \<Rightarrow> rbnode_t \<Rightarrow> bool option" where
  "is_red x m = (if x \<noteq> 0 then do { c \<leftarrow> rd rb_color x m; Some (c = NODE_RED) } else Some False)"

definition copy_kv :: "u64 \<Rightarrow> u64 \<Rightarrow> rbnode_t \<Rightarrow> rbnode_t option" where
  "copy_kv to src m = do {
     k \<leftarrow> rd rb_key src m;
     m \<leftarrow> wr_key to k m;
     v \<leftarrow> rd rb_val src m;
     wr_val to v m
   }"

definition put_kv :: "u64 \<Rightarrow> u64 \<Rightarrow> u64 \<Rightarrow> rbnode_t \<Rightarrow> rbnode_t option" where
  "put_kv to k v m = do { m \<leftarrow> wr_key to k m; wr_val to v m }"

subsection \<open>Rotation\<close>

text \<open>The four branches of \<^verbatim>\<open>rotate\<close>.\<close>

definition rotate_ll :: "u64 \<Rightarrow> u64 \<Rightarrow> u64 \<Rightarrow> rbnode_t \<Rightarrow> (rbnode_t \<times> u64) option" where
  "rotate_ll tar par gpar m = do {
     gg \<leftarrow> rd rb_par gpar m;
     m \<leftarrow> wr_par par gg m;
     gg \<leftarrow> rd rb_par gpar m;
     m \<leftarrow> (if gg \<noteq> 0
           then do { gl \<leftarrow> rd rb_left gg m; if gl = gpar then wr_left gg par m else wr_right gg par m }
           else Some m);
     m \<leftarrow> wr_par gpar par m;
     x \<leftarrow> rd rb_right par m;
     m \<leftarrow> wr_left gpar x m;
     x \<leftarrow> rd rb_right par m;
     m \<leftarrow> adopt x gpar m;
     m \<leftarrow> wr_right par gpar m;
     Some (m, par)
   }"

definition rotate_lr :: "u64 \<Rightarrow> u64 \<Rightarrow> u64 \<Rightarrow> rbnode_t \<Rightarrow> (rbnode_t \<times> u64) option" where
  "rotate_lr tar par gpar m = do {
     m \<leftarrow> wr_color tar NODE_BLACK m;
     gkey \<leftarrow> rd rb_key gpar m;
     gval \<leftarrow> rd rb_val gpar m;
     m \<leftarrow> copy_kv gpar tar m;
     m \<leftarrow> put_kv tar gkey gval m;
     x \<leftarrow> rd rb_left tar m;
     m \<leftarrow> wr_right par x m;
     x \<leftarrow> rd rb_right par m;
     m \<leftarrow> adopt x par m;
     x \<leftarrow> rd rb_right tar m;
     m \<leftarrow> wr_left tar x m;
     x \<leftarrow> rd rb_right gpar m;
     m \<leftarrow> wr_right tar x m;
     x \<leftarrow> rd rb_right tar m;
     m \<leftarrow> adopt x tar m;
     m \<leftarrow> wr_right gpar tar m;
     x \<leftarrow> rd rb_right gpar m;
     m \<leftarrow> wr_par x gpar m;
     Some (m, gpar)
   }"

definition rotate_rr :: "u64 \<Rightarrow> u64 \<Rightarrow> u64 \<Rightarrow> rbnode_t \<Rightarrow> (rbnode_t \<times> u64) option" where
  "rotate_rr tar par gpar m = do {
     gkey \<leftarrow> rd rb_key gpar m;
     gval \<leftarrow> rd rb_val gpar m;
     m \<leftarrow> copy_kv gpar par m;
     m \<leftarrow> copy_kv par tar m;
     m \<leftarrow> put_kv tar gkey gval m;
     x \<leftarrow> rd rb_right tar m;
     m \<leftarrow> wr_right par x m;
     x \<leftarrow> rd rb_right par m;
     m \<leftarrow> adopt x par m;
     x \<leftarrow> rd rb_left par m;
     m \<leftarrow> wr_right tar x m;
     x \<leftarrow> rd rb_right tar m;
     m \<leftarrow> adopt x tar m;
     x \<leftarrow> rd rb_left tar m;
     m \<leftarrow> wr_left par x m;
     x \<leftarrow> rd rb_left par m;
     m \<leftarrow> adopt x par m;
     x \<leftarrow> rd rb_left gpar m;
     m \<leftarrow> wr_left tar x m;
     x \<leftarrow> rd rb_left tar m;
     m \<leftarrow> adopt x tar m;
     m \<leftarrow> wr_left gpar tar m;
     x \<leftarrow> rd rb_left gpar m;
     m \<leftarrow> wr_par x gpar m;
     m \<leftarrow> wr_color gpar NODE_BLACK m;
     m \<leftarrow> wr_color par NODE_RED m;
     Some (m, gpar)
   }"

definition rotate_rl :: "u64 \<Rightarrow> u64 \<Rightarrow> u64 \<Rightarrow> rbnode_t \<Rightarrow> (rbnode_t \<times> u64) option" where
  "rotate_rl tar par gpar m = do {
     m \<leftarrow> wr_color tar NODE_BLACK m;
     gkey \<leftarrow> rd rb_key gpar m;
     gval \<leftarrow> rd rb_val gpar m;
     m \<leftarrow> copy_kv gpar tar m;
     m \<leftarrow> put_kv tar gkey gval m;
     x \<leftarrow> rd rb_right tar m;
     m \<leftarrow> wr_left par x m;
     x \<leftarrow> rd rb_left par m;
     m \<leftarrow> adopt x par m;
     x \<leftarrow> rd rb_left tar m;
     m \<leftarrow> wr_right tar x m;
     x \<leftarrow> rd rb_left gpar m;
     m \<leftarrow> wr_left tar x m;
     x \<leftarrow> rd rb_left tar m;
     m \<leftarrow> adopt x tar m;
     m \<leftarrow> wr_left gpar tar m;
     x \<leftarrow> rd rb_left gpar m;
     m \<leftarrow> wr_par x gpar m;
     Some (m, gpar)
   }"

definition rotate :: "u64 \<Rightarrow> rbnode_t \<Rightarrow> (rbnode_t \<times> u64) option" where
  "rotate tar m = do {
     par \<leftarrow> rd rb_par tar m;
     gpar \<leftarrow> rd rb_par par m;
     gl \<leftarrow> rd rb_left gpar m;
     if gl = par
     then do { pl \<leftarrow> rd rb_left par m; if pl = tar then rotate_ll tar par gpar m else rotate_lr tar par gpar m }
     else do { pr \<leftarrow> rd rb_right par m; if pr = tar then rotate_rr tar par gpar m else rotate_rl tar par gpar m }
   }"

subsection \<open>Trees and the node pool\<close>

text \<open>
  A tree, and the static data: the nodes, the queue \<open>free_q\<close> of freed nodes at address \<open>ls\<close>, and the
  array of trees. A pointer to a tree is an index of that array, a fault beyond its end. The
  comparison of a tree that was not allocated is the null pointer, the value \<open>None\<close>.
\<close>

type_synonym comp_fn = "u64 \<Rightarrow> u64 \<Rightarrow> int"

record rbtree_t =
  rb_head :: u64
  rb_comp :: "comp_fn option"

record rb_state =
  nodes :: rbnode_t
  pool_count :: nat
  ls :: u64
  free_q :: heap
  tree_pool :: "rbtree_t list"
  tree_count :: nat

definition get_tree :: "nat \<Rightarrow> rb_state \<Rightarrow> rbtree_t option" where
  "get_tree t s = (if t < length (tree_pool s) then Some (tree_pool s ! t) else None)"

definition set_head :: "nat \<Rightarrow> u64 \<Rightarrow> rb_state \<Rightarrow> rb_state" where
  "set_head t p s = s\<lparr>tree_pool := (tree_pool s)[t := (tree_pool s ! t)\<lparr>rb_head := p\<rparr>]\<rparr>"

definition rbtree_init :: "rb_state \<Rightarrow> rb_state option" where
  "rbtree_init s = do {
     q \<leftarrow> queue_list_init (free_q s) (ls s);
     Some (s\<lparr>free_q := q\<rparr>)
   }"

definition rbtree_alloc :: "comp_fn option \<Rightarrow> rb_state \<Rightarrow> (rb_state \<times> nat) option" where
  "rbtree_alloc cmp s =
     (if tree_count s < length (tree_pool s)
      then Some (s\<lparr>tree_pool := (tree_pool s)[tree_count s := \<lparr>rb_head = 0, rb_comp = cmp\<rparr>],
                   tree_count := tree_count s + 1\<rparr>, tree_count s)
      else None)"

definition rbtree_node_alloc :: "rb_state \<Rightarrow> (rb_state \<times> u64) option" where
  "rbtree_node_alloc s = do {
     e \<leftarrow> queue_list_is_empty (free_q s) (ls s);
     if e
     then (if pool_count s \<ge> RBTREE_NODE_POOL_NUM then None
           else Some (s\<lparr>pool_count := pool_count s + 1\<rparr>, node_addr (rb_base (nodes s)) (pool_count s)))
     else do {
       (q, que) \<leftarrow> queue_list_pop (free_q s) (ls s);
       Some (s\<lparr>free_q := q\<rparr>, que + 16)
     }
   }"

definition unlink :: "u64 \<Rightarrow> rbnode_t \<Rightarrow> rbnode_t option" where
  "unlink node m = do {
     p \<leftarrow> rd rb_par node m;
     if p \<noteq> 0
     then do { l \<leftarrow> rd rb_left p m; if l = node then wr_left p 0 m else wr_right p 0 m }
     else Some m
   }"

definition rbtree_node_free :: "u64 \<Rightarrow> rb_state \<Rightarrow> rb_state option" where
  "rbtree_node_free node s = do {
     m \<leftarrow> unlink node (nodes s);
     q \<leftarrow> queue_list_enque (free_q s) (ls s) (node - 16);
     Some (s\<lparr>nodes := m, free_q := q\<rparr>)
   }"

subsection \<open>Insertion\<close>

text \<open>The search for the place, one round of the repair, and the loop of the repair.\<close>

partial_function (option) place_loop :: "comp_fn option \<Rightarrow> u64 \<Rightarrow> u64 \<Rightarrow> rbnode_t \<Rightarrow> rbnode_t option" where
  "place_loop cmp tar tmp m = do {
     c \<leftarrow> cmp;
     a \<leftarrow> rd rb_key tmp m;
     b \<leftarrow> rd rb_key tar m;
     if c a b > 0
     then do {
       nxt \<leftarrow> rd rb_right tmp m;
       if nxt = 0 then do { m \<leftarrow> wr_par tar tmp m; wr_right tmp tar m } else place_loop cmp tar nxt m
     }
     else do {
       nxt \<leftarrow> rd rb_left tmp m;
       if nxt = 0 then do { m \<leftarrow> wr_par tar tmp m; wr_left tmp tar m } else place_loop cmp tar nxt m
     }
   }"

definition fix_step :: "u64 \<Rightarrow> rbnode_t \<Rightarrow> (rbnode_t \<times> u64) option" where
  "fix_step tar m = do {
     p \<leftarrow> rd rb_par tar m;
     m \<leftarrow> wr_color p NODE_BLACK m;
     g \<leftarrow> rd rb_par p m;
     m \<leftarrow> wr_color g NODE_RED m;
     gl \<leftarrow> rd rb_left g m;
     u \<leftarrow> (if gl = p then rd rb_right g m else rd rb_left g m);
     red \<leftarrow> is_red u m;
     if red then do { m \<leftarrow> wr_color u NODE_BLACK m; Some (m, g) } else rotate tar m
   }"

partial_function (option) fix_loop :: "u64 \<Rightarrow> u64 \<Rightarrow> rbnode_t \<Rightarrow> (rbnode_t \<times> u64) option" where
  "fix_loop head tar m = do {
     c \<leftarrow> rd rb_color tar m;
     if c \<noteq> NODE_RED then Some (m, head)
     else do {
       p \<leftarrow> rd rb_par tar m;
       pc \<leftarrow> rd rb_color p m;
       if pc \<noteq> NODE_RED then Some (m, head)
       else do {
         (m, tar) \<leftarrow> fix_step tar m;
         p \<leftarrow> rd rb_par tar m;
         if p = 0 then do { m \<leftarrow> wr_color tar NODE_BLACK m; Some (m, tar) } else fix_loop head tar m
       }
     }
   }"

definition new_node :: "u64 \<Rightarrow> u64 \<Rightarrow> u64 \<Rightarrow> rbnode_t \<Rightarrow> rbnode_t option" where
  "new_node tar key val m = do {
     m \<leftarrow> put_kv tar key val m;
     m \<leftarrow> wr_left tar 0 m;
     m \<leftarrow> wr_right tar 0 m;
     wr_color tar NODE_RED m
   }"

definition rbtree_insert :: "nat \<Rightarrow> u64 \<Rightarrow> u64 \<Rightarrow> rb_state \<Rightarrow> rb_state option" where
  "rbtree_insert tree key val s = do {
     (s, tar) \<leftarrow> rbtree_node_alloc s;
     m \<leftarrow> new_node tar key val (nodes s);
     t \<leftarrow> get_tree tree s;
     if rb_head t = 0
     then do {
       m \<leftarrow> wr_par tar 0 m;
       m \<leftarrow> wr_color tar NODE_BLACK m;
       Some (set_head tree tar (s\<lparr>nodes := m\<rparr>))
     }
     else do {
       m \<leftarrow> place_loop (rb_comp t) tar (rb_head t) m;
       (m, head) \<leftarrow> fix_loop (rb_head t) tar m;
       Some (set_head tree head (s\<lparr>nodes := m\<rparr>))
     }
   }"

subsection \<open>Search\<close>

partial_function (option) search_loop :: "comp_fn option \<Rightarrow> u64 \<Rightarrow> u64 \<Rightarrow> rbnode_t \<Rightarrow> u64 option" where
  "search_loop cmp val tar m =
     (if tar \<noteq> 0
      then do {
        c \<leftarrow> cmp;
        k \<leftarrow> rd rb_key tar m;
        if c k val = 0 then Some tar
        else if c k val > 0 then do { x \<leftarrow> rd rb_right tar m; search_loop cmp val x m }
        else do { x \<leftarrow> rd rb_left tar m; search_loop cmp val x m }
      }
      else Some 0)"

definition rbtree_search :: "nat \<Rightarrow> u64 \<Rightarrow> rb_state \<Rightarrow> u64 option" where
  "rbtree_search tree val s = do {
     t \<leftarrow> get_tree tree s;
     search_loop (rb_comp t) val (rb_head t) (nodes s)
   }"


subsection \<open>Deletion\<close>

text \<open>The repair when the node is a left child of \<^verbatim>\<open>tmp\<close>, with the sibling \<^verbatim>\<open>v\<close>.\<close>

definition del_left_near :: "u64 \<Rightarrow> u64 \<Rightarrow> rbnode_t \<Rightarrow> rbnode_t option" where
  "del_left_near tmp v m = do {
     w \<leftarrow> rd rb_left v m;
     tkey \<leftarrow> rd rb_key tmp m;
     tval \<leftarrow> rd rb_val tmp m;
     m \<leftarrow> copy_kv tmp w m;
     x \<leftarrow> rd rb_right w m;
     m \<leftarrow> wr_left v x m;
     x \<leftarrow> rd rb_right w m;
     m \<leftarrow> adopt x v m;
     x \<leftarrow> rd rb_left w m;
     m \<leftarrow> wr_right w x m;
     x \<leftarrow> rd rb_left tmp m;
     m \<leftarrow> wr_left w x m;
     x \<leftarrow> rd rb_left w m;
     m \<leftarrow> wr_par x w m;
     m \<leftarrow> wr_par w tmp m;
     m \<leftarrow> wr_left tmp w m;
     m \<leftarrow> put_kv w tkey tval m;
     wr_color w NODE_BLACK m
   }"

definition del_left_far :: "u64 \<Rightarrow> u64 \<Rightarrow> rbnode_t \<Rightarrow> rbnode_t option" where
  "del_left_far tmp v m = do {
     w \<leftarrow> rd rb_right v m;
     tkey \<leftarrow> rd rb_key tmp m;
     tval \<leftarrow> rd rb_val tmp m;
     m \<leftarrow> copy_kv tmp v m;
     m \<leftarrow> wr_par w tmp m;
     m \<leftarrow> wr_right tmp w m;
     x \<leftarrow> rd rb_left v m;
     m \<leftarrow> wr_right v x m;
     x \<leftarrow> rd rb_left tmp m;
     m \<leftarrow> wr_left v x m;
     x \<leftarrow> rd rb_left v m;
     m \<leftarrow> wr_par x v m;
     m \<leftarrow> put_kv v tkey tval m;
     m \<leftarrow> wr_left tmp v m;
     x \<leftarrow> rd rb_left tmp m;
     m \<leftarrow> wr_par x tmp m;
     wr_color w NODE_BLACK m
   }"

definition del_left_red :: "u64 \<Rightarrow> u64 \<Rightarrow> rbnode_t \<Rightarrow> rbnode_t option" where
  "del_left_red tmp v m = do {
     tkey \<leftarrow> rd rb_key tmp m;
     tval \<leftarrow> rd rb_val tmp m;
     m \<leftarrow> copy_kv tmp v m;
     m \<leftarrow> put_kv v tkey tval m;
     x \<leftarrow> rd rb_right v m;
     m \<leftarrow> wr_right tmp x m;
     x \<leftarrow> rd rb_right tmp m;
     m \<leftarrow> wr_par x tmp m;
     x \<leftarrow> rd rb_left v m;
     m \<leftarrow> wr_right v x m;
     x \<leftarrow> rd rb_left tmp m;
     m \<leftarrow> wr_left v x m;
     x \<leftarrow> rd rb_left v m;
     m \<leftarrow> wr_par x v m;
     m \<leftarrow> wr_left tmp v m;
     x \<leftarrow> rd rb_left tmp m;
     m \<leftarrow> wr_par x tmp m;
     Some m
   }"

definition del_left :: "u64 \<Rightarrow> u64 \<Rightarrow> rbnode_t \<Rightarrow> (rbnode_t \<times> bool \<times> u64) option" where
  "del_left tar tmp m = do {
     v \<leftarrow> rd rb_right tmp m;
     vc \<leftarrow> rd rb_color v m;
     if vc = NODE_BLACK
     then do {
       x \<leftarrow> rd rb_left v m;
       near \<leftarrow> is_red x m;
       if near
       then do { m \<leftarrow> del_left_near tmp v m; Some (m, False, tmp) }
       else do {
         x \<leftarrow> rd rb_right v m;
         far \<leftarrow> is_red x m;
         if far
         then do { m \<leftarrow> del_left_far tmp v m; Some (m, False, tmp) }
         else do { x \<leftarrow> rd rb_right tmp m; m \<leftarrow> wr_color x NODE_RED m;
                   c \<leftarrow> rd rb_color tmp m;
                   m \<leftarrow> wr_color tmp NODE_BLACK m;
                   Some (m, c = NODE_BLACK, tmp) }
       }
     }
     else do { m \<leftarrow> del_left_red tmp v m; Some (m, True, tar) }
   }"

text \<open>The repair when it is a right child.\<close>

definition del_right_near :: "u64 \<Rightarrow> u64 \<Rightarrow> rbnode_t \<Rightarrow> rbnode_t option" where
  "del_right_near tmp v m = do {
     w \<leftarrow> rd rb_right v m;
     tkey \<leftarrow> rd rb_key tmp m;
     tval \<leftarrow> rd rb_val tmp m;
     m \<leftarrow> copy_kv tmp w m;
     x \<leftarrow> rd rb_left w m;
     m \<leftarrow> wr_right v x m;
     x \<leftarrow> rd rb_right v m;
     m \<leftarrow> adopt x v m;
     x \<leftarrow> rd rb_right w m;
     m \<leftarrow> wr_left w x m;
     x \<leftarrow> rd rb_right tmp m;
     m \<leftarrow> wr_right w x m;
     x \<leftarrow> rd rb_right w m;
     m \<leftarrow> wr_par x w m;
     m \<leftarrow> wr_par w tmp m;
     m \<leftarrow> wr_right tmp w m;
     m \<leftarrow> put_kv w tkey tval m;
     wr_color w NODE_BLACK m
   }"

definition del_right_far :: "u64 \<Rightarrow> u64 \<Rightarrow> rbnode_t \<Rightarrow> rbnode_t option" where
  "del_right_far tmp v m = do {
     w \<leftarrow> rd rb_left v m;
     tkey \<leftarrow> rd rb_key tmp m;
     tval \<leftarrow> rd rb_val tmp m;
     m \<leftarrow> copy_kv tmp v m;
     m \<leftarrow> wr_par w tmp m;
     m \<leftarrow> wr_left tmp w m;
     x \<leftarrow> rd rb_right v m;
     m \<leftarrow> wr_left v x m;
     x \<leftarrow> rd rb_right tmp m;
     m \<leftarrow> wr_right v x m;
     x \<leftarrow> rd rb_right v m;
     m \<leftarrow> wr_par x v m;
     m \<leftarrow> put_kv v tkey tval m;
     m \<leftarrow> wr_right tmp v m;
     x \<leftarrow> rd rb_right tmp m;
     m \<leftarrow> wr_par x tmp m;
     wr_color w NODE_BLACK m
   }"

definition del_right_red :: "u64 \<Rightarrow> u64 \<Rightarrow> rbnode_t \<Rightarrow> rbnode_t option" where
  "del_right_red tmp v m = do {
     tkey \<leftarrow> rd rb_key tmp m;
     tval \<leftarrow> rd rb_val tmp m;
     m \<leftarrow> copy_kv tmp v m;
     m \<leftarrow> put_kv v tkey tval m;
     x \<leftarrow> rd rb_left v m;
     m \<leftarrow> wr_left tmp x m;
     x \<leftarrow> rd rb_left tmp m;
     m \<leftarrow> wr_par x tmp m;
     x \<leftarrow> rd rb_right v m;
     m \<leftarrow> wr_left v x m;
     x \<leftarrow> rd rb_right tmp m;
     m \<leftarrow> wr_right v x m;
     x \<leftarrow> rd rb_right v m;
     m \<leftarrow> wr_par x v m;
     m \<leftarrow> wr_right tmp v m;
     x \<leftarrow> rd rb_right tmp m;
     m \<leftarrow> wr_par x tmp m;
     Some m
   }"

definition del_right :: "u64 \<Rightarrow> u64 \<Rightarrow> rbnode_t \<Rightarrow> (rbnode_t \<times> bool \<times> u64) option" where
  "del_right tar tmp m = do {
     v \<leftarrow> rd rb_left tmp m;
     vc \<leftarrow> rd rb_color v m;
     if vc = NODE_BLACK
     then do {
       x \<leftarrow> rd rb_right v m;
       near \<leftarrow> is_red x m;
       if near
       then do { m \<leftarrow> del_right_near tmp v m; Some (m, False, tmp) }
       else do {
         x \<leftarrow> rd rb_left v m;
         far \<leftarrow> is_red x m;
         if far
         then do { m \<leftarrow> del_right_far tmp v m; Some (m, False, tmp) }
         else do { m \<leftarrow> wr_color v NODE_RED m;
                   c \<leftarrow> rd rb_color tmp m;
                   m \<leftarrow> wr_color tmp NODE_BLACK m;
                   Some (m, c = NODE_BLACK, tmp) }
       }
     }
     else do { m \<leftarrow> del_right_red tmp v m; Some (m, True, tar) }
   }"

text \<open>One round of the loop, and the loop with its flag.\<close>

definition del_step :: "u64 \<Rightarrow> rbnode_t \<Rightarrow> (rbnode_t \<times> bool \<times> u64) option" where
  "del_step tar m = do {
     tmp \<leftarrow> rd rb_par tar m;
     tl \<leftarrow> rd rb_left tmp m;
     if tl = tar then del_left tar tmp m else del_right tar tmp m
   }"

partial_function (option) del_loop :: "bool \<Rightarrow> u64 \<Rightarrow> rbnode_t \<Rightarrow> rbnode_t option" where
  "del_loop flag tar m =
     (if flag
      then do {
        p \<leftarrow> rd rb_par tar m;
        if p \<noteq> 0 then do { (m, flag, tar) \<leftarrow> del_step tar m; del_loop flag tar m } else Some m
      }
      else Some m)"

partial_function (option) max_loop :: "u64 \<Rightarrow> rbnode_t \<Rightarrow> u64 option" where
  "max_loop max_node m = do {
     r \<leftarrow> rd rb_right max_node m;
     if r \<noteq> 0 then max_loop r m else Some max_node
   }"

text \<open>
  The choice of the node to free: the found node, or the node whose contents are moved up. With it come the
  nodes and the head of the tree, null once its only node goes.
\<close>

definition del_pick :: "u64 \<Rightarrow> u64 \<Rightarrow> rbnode_t \<Rightarrow> (rbnode_t \<times> u64 \<times> u64) option" where
  "del_pick head tar m = do {
     max_node \<leftarrow> rd rb_left tar m;
     if max_node = 0
     then do {
       r \<leftarrow> rd rb_right tar m;
       if r = 0 then Some (m, if tar = head then 0 else head, tar)
       else do { m \<leftarrow> copy_kv tar r m; Some (m, head, r) }
     }
     else do {
       max_node \<leftarrow> max_loop max_node m;
       k \<leftarrow> rd rb_key max_node m;
       m \<leftarrow> wr_key tar k m;
       l \<leftarrow> rd rb_left max_node m;
       if l \<noteq> 0 then do { m \<leftarrow> copy_kv max_node l m; Some (m, head, l) } else Some (m, head, max_node)
     }
   }"

definition rbtree_delete :: "nat \<Rightarrow> u64 \<Rightarrow> rb_state \<Rightarrow> rb_state option" where
  "rbtree_delete tree val s = do {
     t \<leftarrow> get_tree tree s;
     tar \<leftarrow> rbtree_search tree val s;
     (m, head, del_tar) \<leftarrow> del_pick (rb_head t) tar (nodes s);
     c \<leftarrow> rd rb_color del_tar m;
     m \<leftarrow> del_loop (c = NODE_BLACK) del_tar m;
     rbtree_node_free del_tar (set_head tree head (s\<lparr>nodes := m\<rparr>))
   }"


end
