(* ===== verification/Rbspec.thy ===== *)
theory Rbspec
  imports Rbtree "HOL-Library.Multiset"
begin

text \<open>
  The algorithm of \<^verbatim>\<open>lib/rbtree.c\<close> on values: trees whose nodes carry their address, positions in a
  tree as a path of frames, and the repairs of insertion and deletion as functions of a subtree and
  the path above it. The theory \<open>Rbheap\<close> shows that the pointer program computes these functions;
  here they are shown to keep the balance of the tree and the order of its keys.
\<close>

subsection \<open>Trees and paths\<close>

datatype rbt = Lf | Nd node_color_t rbt u64 u64 u64 rbt

datatype frame = FL node_color_t u64 u64 u64 rbt | FR node_color_t u64 u64 u64 rbt

fun root :: "rbt \<Rightarrow> u64" where
  "root Lf = 0"
| "root (Nd c l a k v r) = a"

fun addrs :: "rbt \<Rightarrow> u64 list" where
  "addrs Lf = []"
| "addrs (Nd c l a k v r) = addrs l @ a # addrs r"

fun items :: "rbt \<Rightarrow> (u64 \<times> u64) list" where
  "items Lf = []"
| "items (Nd c l a k v r) = items l @ (k, v) # items r"

abbreviation keys :: "rbt \<Rightarrow> u64 list" where
  "keys t \<equiv> map fst (items t)"

fun colr :: "rbt \<Rightarrow> node_color_t" where
  "colr Lf = NODE_BLACK"
| "colr (Nd c l a k v r) = c"

fun paint :: "node_color_t \<Rightarrow> rbt \<Rightarrow> rbt" where
  "paint c Lf = Lf"
| "paint c (Nd c' l a k v r) = Nd c l a k v r"

fun plug1 :: "frame \<Rightarrow> rbt \<Rightarrow> rbt" where
  "plug1 (FL c a k v r) t = Nd c t a k v r"
| "plug1 (FR c a k v l) t = Nd c l a k v t"

fun plug :: "frame list \<Rightarrow> rbt \<Rightarrow> rbt" where
  "plug [] t = t"
| "plug (f # fs) t = plug fs (plug1 f t)"

fun fcol :: "frame \<Rightarrow> node_color_t" where
  "fcol (FL c a k v r) = c"
| "fcol (FR c a k v l) = c"

fun faddr :: "frame \<Rightarrow> u64" where
  "faddr (FL c a k v r) = a"
| "faddr (FR c a k v l) = a"

fun sib :: "frame \<Rightarrow> rbt" where
  "sib (FL c a k v r) = r"
| "sib (FR c a k v l) = l"

text \<open>Black height and the two balance conditions, of a tree and of a path around a subtree.\<close>

fun bh :: "rbt \<Rightarrow> nat" where
  "bh Lf = 0"
| "bh (Nd c l a k v r) = bh l + (if c = NODE_BLACK then 1 else 0)"

fun invh :: "rbt \<Rightarrow> bool" where
  "invh Lf = True"
| "invh (Nd c l a k v r) = (bh l = bh r \<and> invh l \<and> invh r)"

fun invc :: "rbt \<Rightarrow> bool" where
  "invc Lf = True"
| "invc (Nd c l a k v r) = ((c = NODE_RED \<longrightarrow> colr l = NODE_BLACK \<and> colr r = NODE_BLACK) \<and> invc l \<and> invc r)"

definition balanced :: "rbt \<Rightarrow> bool" where
  "balanced t \<longleftrightarrow> invc t \<and> invh t \<and> colr t = NODE_BLACK"

fun pinvh :: "frame list \<Rightarrow> nat \<Rightarrow> bool" where
  "pinvh [] n = True"
| "pinvh (f # fs) n = (invh (sib f) \<and> bh (sib f) = n \<and> pinvh fs (n + (if fcol f = NODE_BLACK then 1 else 0)))"

fun pinvc :: "frame list \<Rightarrow> node_color_t \<Rightarrow> bool" where
  "pinvc [] c = True"
| "pinvc (f # fs) c = (invc (sib f) \<and> (fcol f = NODE_RED \<longrightarrow> colr (sib f) = NODE_BLACK \<and> c = NODE_BLACK)
     \<and> pinvc fs (fcol f))"

definition black_top :: "frame list \<Rightarrow> bool" where
  "black_top fs \<longleftrightarrow> (fs \<noteq> [] \<longrightarrow> fcol (last fs) = NODE_BLACK)"

lemma color_cases: "c \<noteq> NODE_RED \<longleftrightarrow> c = NODE_BLACK" "c \<noteq> NODE_BLACK \<longleftrightarrow> c = NODE_RED"
  by (cases c; simp)+

lemma black_top_Cons: "black_top (f # fs) \<longleftrightarrow> (if fs = [] then fcol f = NODE_BLACK else black_top fs)"
  by (simp add: black_top_def)

lemma invh_plug: "invh (plug fs t) \<longleftrightarrow> invh t \<and> pinvh fs (bh t)"
proof (induction fs arbitrary: t)
  case (Cons f fs)
  then show ?case by (cases f) (simp_all, metis+)
qed simp

lemma invc_plug: "invc (plug fs t) \<longleftrightarrow> invc t \<and> pinvc fs (colr t)"
proof (induction fs arbitrary: t)
  case (Cons f fs)
  then show ?case by (cases f) auto
qed simp

lemma colr_plug: "fs \<noteq> [] \<Longrightarrow> colr (plug fs t) = fcol (last fs)"
proof (induction fs arbitrary: t)
  case (Cons f fs)
  then show ?case by (cases f) (cases fs; simp)+
qed simp

lemma root_plug: "fs \<noteq> [] \<Longrightarrow> root (plug fs t) = faddr (last fs)"
proof (induction fs arbitrary: t)
  case (Cons f fs)
  then show ?case by (cases f) (cases fs; simp)+
qed simp

lemma pinvc_black: "pinvc fs c \<Longrightarrow> pinvc fs NODE_BLACK"
  by (cases fs) auto

lemma balanced_plug:
  assumes "black_top fs" and "fs = [] \<Longrightarrow> colr t = NODE_BLACK"
  shows "balanced (plug fs t) \<longleftrightarrow> invc t \<and> invh t \<and> pinvc fs (colr t) \<and> pinvh fs (bh t)"
  using assms colr_plug [of fs t] by (cases "fs = []") (auto simp: balanced_def invc_plug invh_plug black_top_def)

lemma paint_simps [simp]:
  "items (paint c t) = items t" "addrs (paint c t) = addrs t" "root (paint c t) = root t"
  "invh (paint c t) = invh t" "invc t \<Longrightarrow> invc (paint NODE_BLACK t)"
  "colr (paint NODE_BLACK t) = NODE_BLACK"
  by (cases t; simp)+

lemma bh_paint: "colr t = NODE_RED \<Longrightarrow> bh (paint NODE_BLACK t) = Suc (bh t)"
  by (cases t) auto

text \<open>What a path contributes to the contents of the tree, left and right of the hole.\<close>

fun lctx :: "frame list \<Rightarrow> (u64 \<times> u64) list" where
  "lctx [] = []"
| "lctx (FL c a k v r # fs) = lctx fs"
| "lctx (FR c a k v l # fs) = lctx fs @ items l @ [(k, v)]"

fun rctx :: "frame list \<Rightarrow> (u64 \<times> u64) list" where
  "rctx [] = []"
| "rctx (FL c a k v r # fs) = (k, v) # items r @ rctx fs"
| "rctx (FR c a k v l # fs) = rctx fs"

fun paddrs :: "frame list \<Rightarrow> u64 list" where
  "paddrs [] = []"
| "paddrs (f # fs) = faddr f # addrs (sib f) @ paddrs fs"

lemma items_plug: "items (plug fs t) = lctx fs @ items t @ rctx fs"
proof (induction fs arbitrary: t)
  case (Cons f fs)
  then show ?case by (cases f) auto
qed simp

lemma addrs_plug: "mset (addrs (plug fs t)) = mset (paddrs fs) + mset (addrs t)"
proof (induction fs arbitrary: t)
  case (Cons f fs)
  then show ?case by (cases f) auto
qed simp

lemma plug_append: "plug (fs @ gs) t = plug gs (plug fs t)"
  by (induction fs arbitrary: t) auto

subsection \<open>Insertion\<close>

fun ins_step :: "rbt \<Rightarrow> frame \<Rightarrow> frame \<Rightarrow> rbt" where
  "ins_step t (FL cp pa kp vp rp) (FL cg ga kg vg u) =
     (if colr u = NODE_RED then Nd NODE_RED (Nd NODE_BLACK t pa kp vp rp) ga kg vg (paint NODE_BLACK u)
      else Nd NODE_BLACK t pa kp vp (Nd NODE_RED rp ga kg vg u))"
| "ins_step (Nd c lt ta kt vt rt) (FR cp pa kp vp lp) (FL cg ga kg vg u) =
     (if colr u = NODE_RED
      then Nd NODE_RED (Nd NODE_BLACK lp pa kp vp (Nd c lt ta kt vt rt)) ga kg vg (paint NODE_BLACK u)
      else Nd NODE_RED (Nd NODE_BLACK lp pa kp vp lt) ga kt vt (Nd NODE_BLACK rt ta kg vg u))"
| "ins_step (Nd c lt ta kt vt rt) (FR cp pa kp vp lp) (FR cg ga kg vg u) =
     (if colr u = NODE_RED
      then Nd NODE_RED (paint NODE_BLACK u) ga kg vg (Nd NODE_BLACK lp pa kp vp (Nd c lt ta kt vt rt))
      else Nd NODE_BLACK (Nd c u ta kg vg lp) ga kp vp (Nd NODE_RED lt pa kt vt rt))"
| "ins_step (Nd c lt ta kt vt rt) (FL cp pa kp vp rp) (FR cg ga kg vg u) =
     (if colr u = NODE_RED
      then Nd NODE_RED (paint NODE_BLACK u) ga kg vg (Nd NODE_BLACK (Nd c lt ta kt vt rt) pa kp vp rp)
      else Nd NODE_RED (Nd NODE_BLACK u ta kg vg lt) ga kt vt (Nd NODE_BLACK rt pa kp vp rp))"
| "ins_step Lf f g = plug1 g (plug1 f Lf)"

fun ins_fix :: "rbt \<Rightarrow> frame list \<Rightarrow> rbt" where
  "ins_fix t (f # g # fs) =
     (if colr t = NODE_RED \<and> fcol f = NODE_RED
      then (if fs = [] then paint NODE_BLACK (ins_step t f g) else ins_fix (ins_step t f g) fs)
      else plug (f # g # fs) t)"
| "ins_fix t [f] = plug1 f t"
| "ins_fix t [] = t"

fun place :: "comp_fn \<Rightarrow> u64 \<Rightarrow> rbt \<Rightarrow> frame list \<Rightarrow> frame list" where
  "place c k Lf fs = fs"
| "place c k (Nd cl l a ka va r) fs =
     (if 0 < c ka k then place c k r (FR cl a ka va l # fs) else place c k l (FL cl a ka va r # fs))"

definition ins_tree :: "comp_fn \<Rightarrow> u64 \<Rightarrow> u64 \<Rightarrow> u64 \<Rightarrow> rbt \<Rightarrow> rbt" where
  "ins_tree c a k v T =
     (if T = Lf then Nd NODE_BLACK Lf a k v Lf else ins_fix (Nd NODE_RED Lf a k v Lf) (place c k T []))"

lemma ins_step_items: "items (ins_step t f g) = items (plug1 g (plug1 f t))"
  by (cases "(t, f, g)" rule: ins_step.cases) auto

lemma ins_step_addrs: "mset (addrs (ins_step t f g)) = mset (addrs (plug1 g (plug1 f t)))"
  by (cases "(t, f, g)" rule: ins_step.cases) auto

lemma ins_fix_items: "items (ins_fix t fs) = items (plug fs t)"
  by (induction t fs rule: ins_fix.induct) (auto simp: ins_step_items items_plug)

lemma ins_fix_addrs: "mset (addrs (ins_fix t fs)) = mset (addrs (plug fs t))"
  by (induction t fs rule: ins_fix.induct) (auto simp: ins_step_addrs addrs_plug)

text \<open>One round keeps the balance conditions, with the violation moved two levels up.\<close>

lemma ins_step_inv:
  assumes t: "invc t" "invh t" "colr t = NODE_RED" and f: "fcol f = NODE_RED"
    and p: "pinvc (f # g # fs) NODE_BLACK" "pinvh (f # g # fs) (bh t)"
  shows "invc (ins_step t f g) \<and> invh (ins_step t f g) \<and> pinvc fs NODE_BLACK \<and> pinvh fs (bh (ins_step t f g))"
proof -
  from f p(1) have g: "fcol g = NODE_BLACK" by (auto simp: color_cases)
  with p(1) have "pinvc fs NODE_BLACK" by simp
  moreover have "invc (ins_step t f g) \<and> invh (ins_step t f g) \<and> pinvh fs (bh (ins_step t f g))"
    using t f g p by (cases "(t, f, g)" rule: ins_step.cases) (simp_all add: color_cases bh_paint)
  ultimately show ?thesis by blast
qed

lemma ins_fix_balanced:
  assumes "invc t" "invh t" "pinvc fs NODE_BLACK" "pinvh fs (bh t)" "black_top fs" "fs \<noteq> []"
  shows "balanced (ins_fix t fs)"
  using assms
proof (induction t fs rule: ins_fix.induct)
  case (1 t f g fs)
  show ?case
  proof (cases "colr t = NODE_RED \<and> fcol f = NODE_RED")
    case True
    with ins_step_inv [of t f g fs] 1 show ?thesis
      by (auto simp: black_top_Cons balanced_def)
  next
    case False
    then have "pinvc (f # g # fs) (colr t)" using "1.prems"(3) by (auto simp: color_cases)
    with False "1.prems" balanced_plug [of "f # g # fs" t] show ?thesis by auto
  qed
next
  case (2 t f)
  then show ?case
    using balanced_plug [of "[f]" t] by (auto simp: black_top_Cons)
qed simp

lemma plug_place: "plug (place c k t fs) Lf = plug fs t"
  by (induction c k t fs rule: place.induct) auto

lemma place_append: "place c k t (fs @ gs) = place c k t fs @ gs"
proof (induction t arbitrary: fs)
  case (Nd cl l a ka va r)
  show ?case
    using Nd.IH(1) [of "FL cl a ka va r # fs"] Nd.IH(2) [of "FR cl a ka va l # fs"] by simp
qed simp

text \<open>
  A comparison is a total preorder: \<open>0 \<le> c a b\<close> says that \<open>a\<close> is not after \<open>b\<close>.
\<close>

definition comp_ok :: "comp_fn \<Rightarrow> bool" where
  "comp_ok c \<longleftrightarrow> (\<forall>a b. 0 < c a b \<longleftrightarrow> c b a < 0) \<and> (\<forall>a b d. 0 \<le> c a b \<longrightarrow> 0 \<le> c b d \<longrightarrow> 0 \<le> c a d)"

definition ordered :: "comp_fn \<Rightarrow> rbt \<Rightarrow> bool" where
  "ordered c t \<longleftrightarrow> sorted_wrt (\<lambda>x y. 0 \<le> c x y) (keys t)"

definition insort_item :: "comp_fn \<Rightarrow> u64 \<Rightarrow> u64 \<Rightarrow> (u64 \<times> u64) list \<Rightarrow> (u64 \<times> u64) list" where
  "insort_item c k v xs = takeWhile (\<lambda>x. 0 < c (fst x) k) xs @ (k, v) # dropWhile (\<lambda>x. 0 < c (fst x) k) xs"

lemma comp_trans: "comp_ok c \<Longrightarrow> 0 \<le> c a b \<Longrightarrow> 0 < c b d \<Longrightarrow> 0 < c a d"
  "comp_ok c \<Longrightarrow> 0 < c a b \<Longrightarrow> 0 \<le> c b d \<Longrightarrow> 0 < c a d"
  unfolding comp_ok_def by (meson not_le order.trans less_imp_le)+

lemma comp_sym: "comp_ok c \<Longrightarrow> c a b = 0 \<Longrightarrow> c b a = 0"
  unfolding comp_ok_def by (metis less_irrefl not_less_iff_gr_or_eq)

lemma comp_neg: "comp_ok c \<Longrightarrow> c a b \<le> 0 \<longleftrightarrow> 0 \<le> c b a"
  unfolding comp_ok_def by (meson not_le)

lemma place_split:
  assumes "comp_ok c" and "ordered c t"
  shows "\<exists>A B. lctx (place c k t fs) = lctx fs @ A \<and> rctx (place c k t fs) = B @ rctx fs \<and> items t = A @ B
     \<and> (\<forall>x \<in> set A. 0 < c (fst x) k) \<and> (\<forall>x \<in> set B. c (fst x) k \<le> 0)"
  using assms
proof (induction c k t fs rule: place.induct)
  case (2 c k cl l a ka va r fs)
  from "2.prems" have c: "comp_ok c" by simp
  from "2.prems" have o: "ordered c l" "ordered c r" "\<And>x. x \<in> set (items l) \<Longrightarrow> 0 \<le> c (fst x) ka"
    "\<And>x. x \<in> set (items r) \<Longrightarrow> 0 \<le> c ka (fst x)"
    by (auto simp: ordered_def sorted_wrt_append)
  show ?case
  proof (cases "0 < c ka k")
    case True
    with 2 c o(2) obtain A B where "lctx (place c k r (FR cl a ka va l # fs)) = lctx fs @ items l @ [(ka, va)] @ A"
        "rctx (place c k r (FR cl a ka va l # fs)) = B @ rctx fs" "items r = A @ B"
        "\<forall>x \<in> set A. 0 < c (fst x) k" "\<forall>x \<in> set B. c (fst x) k \<le> 0"
      by fastforce
    then show ?thesis using True comp_trans(1) [OF c o(3) True]
      by (intro exI [of _ "items l @ (ka, va) # A"] exI [of _ B]) auto
  next
    case False
    with 2 c o(1) obtain A B where "lctx (place c k l (FL cl a ka va r # fs)) = lctx fs @ A"
        "rctx (place c k l (FL cl a ka va r # fs)) = B @ (ka, va) # items r @ rctx fs" "items l = A @ B"
        "\<forall>x \<in> set A. 0 < c (fst x) k" "\<forall>x \<in> set B. c (fst x) k \<le> 0"
      by fastforce
    moreover have "c (fst x) k \<le> 0" if "x \<in> set (items r)" for x
      using False o(4) [OF that] comp_trans(2) [OF c, of _ ka k] comp_trans(1) [OF c, of ka "fst x" k]
      by force
    ultimately show ?thesis using False
      by (intro exI [of _ A] exI [of _ "B @ (ka, va) # items r"]) auto
  qed
qed simp

lemma insort_split:
  assumes "\<forall>x \<in> set A. 0 < c (fst x) k" "\<forall>x \<in> set B. c (fst x) k \<le> 0"
  shows "insort_item c k v (A @ B) = A @ (k, v) # B"
proof -
  have "takeWhile (\<lambda>x. 0 < c (fst x) k) (A @ B) = A" "dropWhile (\<lambda>x. 0 < c (fst x) k) (A @ B) = B"
    using assms by (auto simp: takeWhile_append dropWhile_append takeWhile_eq_Nil_iff dropWhile_eq_self_iff)
      (metis hd_in_set not_le)+
  then show ?thesis by (simp add: insort_item_def)
qed

lemma ins_tree_items:
  assumes "comp_ok c" "ordered c T"
  shows "items (ins_tree c a k v T) = insort_item c k v (items T)"
proof (cases "T = Lf")
  case False
  obtain A B where "lctx (place c k T []) = A" "rctx (place c k T []) = B" "items T = A @ B"
    "\<forall>x \<in> set A. 0 < c (fst x) k" "\<forall>x \<in> set B. c (fst x) k \<le> 0"
    using place_split [OF assms, of k "[]"] by auto
  with False show ?thesis by (simp add: ins_tree_def ins_fix_items items_plug insort_split)
qed (simp add: ins_tree_def insort_item_def)

lemma insort_item_Cons:
  "insort_item c k v (x # xs) = (if 0 < c (fst x) k then x # insort_item c k v xs else (k, v) # x # xs)"
  by (simp add: insort_item_def)

lemma set_insort_item: "set (insort_item c k v xs) = insert (k, v) (set xs)"
  by (induction xs) (auto simp: insort_item_def)

lemma insort_item_ordered:
  assumes "comp_ok c" "sorted_wrt (\<lambda>x y. 0 \<le> c (fst x) (fst y)) xs"
  shows "sorted_wrt (\<lambda>x y. 0 \<le> c (fst x) (fst y)) (insort_item c k v xs)"
  using assms(2)
proof (induction xs)
  case (Cons x xs)
  show ?case
  proof (cases "0 < c (fst x) k")
    case True
    with Cons show ?thesis by (simp add: insort_item_Cons set_insort_item)
  next
    case False
    then have k: "0 \<le> c k (fst x)" using comp_neg [OF assms(1), of "fst x" k] by linarith
    have "0 \<le> c k (fst y)" if "y \<in> set xs" for y
    proof -
      from that Cons.prems have "0 \<le> c (fst x) (fst y)" by simp
      with k assms(1) show ?thesis unfolding comp_ok_def by blast
    qed
    with False k Cons.prems show ?thesis by (simp add: insort_item_Cons)
  qed
qed (simp add: insort_item_def)

lemma ins_tree_ordered:
  assumes "comp_ok c" "ordered c T"
  shows "ordered c (ins_tree c a k v T)"
  using insort_item_ordered [OF assms(1), of "items T" k v] assms
  by (simp add: ordered_def ins_tree_items sorted_wrt_map)

lemma place_balanced:
  assumes "balanced T" and "T \<noteq> Lf"
  shows "pinvc (place c k T []) NODE_BLACK \<and> pinvh (place c k T []) 0
     \<and> black_top (place c k T []) \<and> place c k T [] \<noteq> []"
proof -
  have T: "plug (place c k T []) Lf = T" by (simp add: plug_place)
  then have "place c k T [] \<noteq> []" using assms(2) by auto
  with T assms colr_plug [of "place c k T []" Lf] invc_plug [of "place c k T []" Lf]
    invh_plug [of "place c k T []" Lf]
  show ?thesis by (simp add: balanced_def black_top_def)
qed

lemma ins_tree_balanced: "balanced T \<Longrightarrow> balanced (ins_tree c a k v T)"
  using place_balanced [of T c k] ins_fix_balanced [of "Nd NODE_RED Lf a k v Lf" "place c k T []"]
  by (cases "T = Lf") (simp_all add: ins_tree_def balanced_def)

lemma ins_tree_addrs: "mset (addrs (ins_tree c a k v T)) = add_mset a (mset (addrs T))"
proof (cases "T = Lf")
  case False
  have "mset (paddrs (place c k T [])) = mset (addrs T)"
    using addrs_plug [of "place c k T []" Lf] by (simp add: plug_place)
  with False show ?thesis by (simp add: ins_tree_def ins_fix_addrs addrs_plug)
qed (simp add: ins_tree_def)

subsection \<open>Search\<close>

fun locate :: "comp_fn \<Rightarrow> u64 \<Rightarrow> rbt \<Rightarrow> frame list \<Rightarrow> (rbt \<times> frame list)" where
  "locate c k Lf fs = (Lf, fs)"
| "locate c k (Nd cl l a ka va r) fs =
     (if c ka k = 0 then (Nd cl l a ka va r, fs)
      else if 0 < c ka k then locate c k r (FR cl a ka va l # fs)
      else locate c k l (FL cl a ka va r # fs))"

lemma locate_plug: "locate c k t fs = (s, gs) \<Longrightarrow> plug gs s = plug fs t"
  by (induction c k t fs rule: locate.induct) (auto split: if_splits)

lemma locate_key: "locate c k t fs = (Nd cl l a ka va r, gs) \<Longrightarrow> c ka k = 0"
  by (induction c k t fs rule: locate.induct) (auto split: if_splits)

lemma locate_none:
  assumes "comp_ok c" "ordered c t" "locate c k t fs = (Lf, gs)" "x \<in> set (keys t)"
  shows "c x k \<noteq> 0"
  using assms
proof (induction c k t fs rule: locate.induct)
  case (2 c k cl l a ka va r fs)
  from "2.prems"(2) have o: "ordered c l" "ordered c r" "\<And>x. x \<in> set (keys l) \<Longrightarrow> 0 \<le> c x ka"
    "\<And>x. x \<in> set (keys r) \<Longrightarrow> 0 \<le> c ka x"
    by (auto simp: ordered_def sorted_wrt_append)
  note c = \<open>comp_ok c\<close>
  from "2.prems"(3) have n: "c ka k \<noteq> 0" by (auto split: if_splits)
  consider "x = ka" | "x \<in> set (keys l)" | "x \<in> set (keys r)" using "2.prems"(4) by auto
  then show ?case
  proof cases
    case 2
    show ?thesis
    proof (cases "0 < c ka k")
      case True
      with comp_trans(1) [OF c o(3) [OF 2]] show ?thesis by force
    next
      case False
      with 2 "2.IH"(2) "2.prems" n o(1) show ?thesis by auto
    qed
  next
    case 3
    show ?thesis
    proof (cases "0 < c ka k")
      case True
      with 3 "2.IH"(1) "2.prems" n o(2) show ?thesis by auto
    next
      case False
      with n have "0 < c k ka" using c unfolding comp_ok_def by force
      with comp_trans(2) [OF c this o(4) [OF 3]] comp_sym [OF c, of x k] show ?thesis by force
    qed
  qed (use n in simp)
qed simp


subsection \<open>Deletion\<close>

text \<open>
  The node that leaves the tree is a leaf. The repair does not look at it, so it is a function of
  the path above it: \<open>del_path fs\<close> is the path to the same leaf afterwards.
\<close>

function del_path :: "frame list \<Rightarrow> frame list option" where
  "del_path [] = Some []"
| "del_path (FL c a k v Lf # fs) = None"
| "del_path (FL c a k v (Nd NODE_BLACK sl sa ks vs sr) # fs) =
     (if colr sl = NODE_RED
      then (case sl of Lf \<Rightarrow> None
        | Nd _ wl w kw vw wr \<Rightarrow> Some (FL NODE_BLACK w k v wl # FL c a kw vw (Nd NODE_BLACK wr sa ks vs sr) # fs))
      else if colr sr = NODE_RED
      then (case sr of Lf \<Rightarrow> None
        | Nd _ wl w kw vw wr \<Rightarrow> Some (FL NODE_BLACK sa k v sl # FL c a ks vs (Nd NODE_BLACK wl w kw vw wr) # fs))
      else map_option ((#) (FL NODE_BLACK a k v (Nd NODE_RED sl sa ks vs sr)))
        (if c = NODE_BLACK then del_path fs else Some fs))"
| "del_path (FL c a k v (Nd NODE_RED sl sa ks vs sr) # fs) =
     (if sr = Lf then None else del_path (FL NODE_RED sa k v sl # FL c a ks vs sr # fs))"
| "del_path (FR c a k v Lf # fs) = None"
| "del_path (FR c a k v (Nd NODE_BLACK sl sa ks vs sr) # fs) =
     (if colr sr = NODE_RED
      then (case sr of Lf \<Rightarrow> None
        | Nd _ wl w kw vw wr \<Rightarrow> Some (FR NODE_BLACK w k v wr # FR c a kw vw (Nd NODE_BLACK sl sa ks vs wl) # fs))
      else if colr sl = NODE_RED
      then (case sl of Lf \<Rightarrow> None
        | Nd _ wl w kw vw wr \<Rightarrow> Some (FR NODE_BLACK sa k v sr # FR c a ks vs (Nd NODE_BLACK wl w kw vw wr) # fs))
      else map_option ((#) (FR NODE_BLACK a k v (Nd NODE_RED sl sa ks vs sr)))
        (if c = NODE_BLACK then del_path fs else Some fs))"
| "del_path (FR c a k v (Nd NODE_RED sl sa ks vs sr) # fs) =
     (if sl = Lf then None else del_path (FR NODE_RED sa k v sr # FR c a ks vs sl # fs))"
  by pat_completeness auto
termination by (relation "measure (\<lambda>fs. sum_list (map (\<lambda>f. 2 * length (addrs (sib f)) + 1) fs))") auto

lemma del_path_ctx:
  "del_path fs = Some hs \<Longrightarrow> lctx hs = lctx fs \<and> rctx hs = rctx fs \<and> mset (paddrs hs) = mset (paddrs fs)"
  by (induction fs arbitrary: hs rule: del_path.induct) (auto split: if_splits rbt.splits)

lemma del_path_last:
  "del_path fs = Some hs \<Longrightarrow> fs \<noteq> [] \<Longrightarrow> hs \<noteq> [] \<and> faddr (last hs) = faddr (last fs)"
  by (induction fs arbitrary: hs rule: del_path.induct) (auto split: if_splits rbt.splits)

lemma del_path_inv:
  assumes "pinvc fs NODE_BLACK" "pinvh fs (Suc n)" "black_top fs"
  shows "\<exists>hs. del_path fs = Some hs \<and> pinvc hs NODE_BLACK \<and> pinvh hs n \<and> black_top hs"
  using assms
  by (induction fs arbitrary: n rule: del_path.induct)
    (auto split: if_splits rbt.splits simp: color_cases black_top_Cons,
      (erule pinvc_black | fastforce simp: black_top_Cons)+)

text \<open>
  The choice of the leaf. With a left subtree, the greatest key below moves up, its value stays
  behind: only the key is copied.
\<close>

fun max_node :: "rbt \<Rightarrow> frame list \<Rightarrow> rbt \<times> frame list" where
  "max_node (Nd c l a k v (Nd c' l' a' k' v' r')) fs = max_node (Nd c' l' a' k' v' r') (FR c a k v l # fs)"
| "max_node t fs = (t, fs)"

fun pick :: "rbt \<Rightarrow> frame list \<Rightarrow> rbt \<times> frame list" where
  "pick Lf fs = (Lf, fs)"
| "pick (Nd c Lf a k v Lf) fs = (Nd c Lf a k v Lf, fs)"
| "pick (Nd c Lf a k v (Nd cr rl ra kr vr rr)) fs = (Nd cr rl ra kr vr rr, FR c a kr vr Lf # fs)"
| "pick (Nd c (Nd cl ll la kl vl lr) a k v r) fs =
     (case max_node (Nd cl ll la kl vl lr) [] of
        (Nd cm (Nd cn nl na kn vn nr) ma km vm mr, gs) \<Rightarrow>
          (Nd cn nl na kn vn nr, FL cm ma kn vn mr # gs @ FL c a km v r # fs)
      | (Nd cm Lf ma km vm mr, gs) \<Rightarrow> (Nd cm Lf ma km vm mr, gs @ FL c a km v r # fs)
      | (Lf, gs) \<Rightarrow> (Lf, gs))"

lemma ctx_append: "lctx (fs @ gs) = lctx gs @ lctx fs" "rctx (fs @ gs) = rctx fs @ rctx gs"
  by (induction fs rule: lctx.induct) auto

lemma max_node_shape:
  "t \<noteq> Lf \<Longrightarrow> \<exists>cm ml ma km vm gs. max_node t fs = (Nd cm ml ma km vm Lf, gs @ fs)
     \<and> plug (gs @ fs) (Nd cm ml ma km vm Lf) = plug fs t \<and> rctx gs = []"
proof (induction t fs rule: max_node.induct)
  case (1 c l a k v c' l' a' k' v' r' fs)
  then obtain cm ml ma km vm gs where "max_node (Nd c' l' a' k' v' r') (FR c a k v l # fs)
      = (Nd cm ml ma km vm Lf, gs @ FR c a k v l # fs)"
    "plug (gs @ FR c a k v l # fs) (Nd cm ml ma km vm Lf) = plug (FR c a k v l # fs) (Nd c' l' a' k' v' r')"
    "rctx gs = []" by auto
  then show ?case by (intro exI [of _ cm] exI [of _ ml] exI [of _ ma] exI [of _ km] exI [of _ vm]
      exI [of _ "gs @ [FR c a k v l]"]) (simp add: ctx_append)
qed auto


lemma height_zero: "invc t \<Longrightarrow> invh t \<Longrightarrow> bh t = 0 \<Longrightarrow> t = Lf \<or> (\<exists>a k v. t = Nd NODE_RED Lf a k v Lf)"
proof (cases t)
  case (Nd c l a k v r)
  assume "invc t" "invh t" "bh t = 0"
  with Nd have "c = NODE_RED" "bh l = 0" "bh r = 0" "colr l = NODE_BLACK" "colr r = NODE_BLACK"
    by (auto simp: color_cases split: if_splits)
  then show ?thesis using Nd by (cases l; cases r) auto
qed simp

lemma pinv_key:
  "pinvc (gs @ FL c a k v r # fs) x = pinvc (gs @ FL c a k' v' r # fs) x"
  "pinvh (gs @ FL c a k v r # fs) n = pinvh (gs @ FL c a k' v' r # fs) n"
  by (induction gs arbitrary: x n) auto

lemma paddrs_append: "paddrs (fs @ gs) = paddrs fs @ paddrs gs"
  by (induction fs) auto

text \<open>The contents around the deleted place: the key to its left takes over the value.\<close>

definition merge_items :: "(u64 \<times> u64) list \<Rightarrow> u64 \<Rightarrow> (u64 \<times> u64) list \<Rightarrow> (u64 \<times> u64) list" where
  "merge_items xs v ys = (if xs = [] then ys else butlast xs @ (fst (last xs), v) # ys)"

lemma merge_items_keys: "map fst (merge_items xs v ys) = map fst xs @ map fst ys"
proof (cases xs rule: rev_cases)
qed (simp_all add: merge_items_def)

definition picked :: "rbt \<Rightarrow> frame list \<Rightarrow> node_color_t \<Rightarrow> u64 \<Rightarrow> frame list \<Rightarrow> bool" where
  "picked s fs cd da gs \<longleftrightarrow> pinvc gs cd \<and> pinvh gs (if cd = NODE_BLACK then 1 else 0) \<and> black_top gs
     \<and> (gs = [] \<longrightarrow> fs = [] \<and> cd = NODE_BLACK) \<and> add_mset da (mset (paddrs gs)) = mset (addrs (plug fs s))
     \<and> (gs \<noteq> [] \<longrightarrow> faddr (last gs) = root (plug fs s))"

lemma pick_leaf:
  assumes b: "balanced (plug fs (Nd c l a k v r))"
  shows "\<exists>cd da kd vd gs. pick (Nd c l a k v r) fs = (Nd cd Lf da kd vd Lf, gs)
     \<and> picked (Nd c l a k v r) fs cd da gs
     \<and> lctx gs @ rctx gs = lctx fs @ merge_items (items l) v (items r) @ rctx fs"
proof -
  have top: "black_top fs" "fs = [] \<Longrightarrow> c = NODE_BLACK"
    using b colr_plug [of fs "Nd c l a k v r"] by (auto simp: balanced_def black_top_def)
  from b have inv: "invc (Nd c l a k v r)" "invh (Nd c l a k v r)" "pinvc fs c"
      "pinvh fs (bh l + (if c = NODE_BLACK then 1 else 0))"
    by (auto simp: balanced_def invc_plug invh_plug)
  show ?thesis
  proof (cases l)
    case Lf
    with inv have "r = Lf \<or> (\<exists>a k v. r = Nd NODE_RED Lf a k v Lf)" by (intro height_zero) auto
    with Lf inv top show ?thesis
      by (cases c) (auto simp: picked_def merge_items_def black_top_Cons addrs_plug root_plug color_cases)
  next
    case (Nd cl ll la kl vl lr)
    obtain cm ml ma km vm gs where mx: "max_node l [] = (Nd cm ml ma km vm Lf, gs)"
        "plug gs (Nd cm ml ma km vm Lf) = l" "rctx gs = []"
      using max_node_shape [of l "[]"] Nd by auto
    let ?p = "gs @ FL c a km v r # fs"
    have "plug (gs @ FL c a k v r # fs) (Nd cm ml ma km vm Lf) = plug fs (Nd c l a k v r)"
      using mx(2) by (simp add: plug_append)
    with b have im: "invc (Nd cm ml ma km vm Lf)" "invh (Nd cm ml ma km vm Lf)" "pinvc ?p cm" "pinvh ?p (bh (Nd cm ml ma km vm Lf))"
      using invc_plug invh_plug pinv_key unfolding balanced_def by (metis colr.simps(2))+
    have addr: "mset (addrs (plug fs (Nd c l a k v r))) = mset (paddrs ?p) + mset (addrs (Nd cm ml ma km vm Lf))"
      using addrs_plug [of gs "Nd cm ml ma km vm Lf"] mx(2) by (simp add: addrs_plug paddrs_append)
    have items: "items l = lctx gs @ items ml @ [(km, vm)]"
      using items_plug [of gs "Nd cm ml ma km vm Lf"] mx(2,3) by simp
    have top': "black_top ?p" "faddr (last ?p) = root (plug fs (Nd c l a k v r))"
      using top by (auto simp: black_top_def root_plug)
    from im(1,2) have "ml = Lf \<or> (\<exists>a k v. ml = Nd NODE_RED Lf a k v Lf)" by (intro height_zero) auto
    then show ?thesis
    proof
      assume "ml = Lf"
      with Nd mx im addr items top' show ?thesis
        by (auto simp: picked_def merge_items_def ctx_append butlast_append)
    next
      assume "\<exists>a k v. ml = Nd NODE_RED Lf a k v Lf"
      then obtain na kn vn where "ml = Nd NODE_RED Lf na kn vn Lf" by blast
      with Nd mx im addr items top' show ?thesis
        by (auto simp: picked_def merge_items_def ctx_append butlast_append black_top_def)
    qed
  qed
qed

lemma del_path_balanced:
  assumes "picked s fs cd da gs"
  shows "\<exists>hs. (if cd = NODE_BLACK then del_path gs else Some gs) = Some hs \<and> balanced (plug hs Lf)
     \<and> lctx hs = lctx gs \<and> rctx hs = rctx gs \<and> mset (paddrs hs) = mset (paddrs gs)
     \<and> (gs \<noteq> [] \<longrightarrow> hs \<noteq> [] \<and> faddr (last hs) = faddr (last gs))"
proof (cases "cd = NODE_BLACK")
  case True
  with assms obtain hs where hs: "del_path gs = Some hs" "pinvc hs NODE_BLACK" "pinvh hs 0" "black_top hs"
    using del_path_inv [of gs 0] by (auto simp: picked_def)
  with True del_path_ctx [OF hs(1)] del_path_last [OF hs(1)] show ?thesis by (simp add: balanced_plug)
next
  case False
  with assms pinvc_black [of gs cd] show ?thesis by (auto simp: picked_def balanced_plug)
qed


end
