(* ===== verification/Rbheap.thy ===== *)
theory Rbheap
  imports Rbspec
begin

text \<open>
  The pointer program of \<^verbatim>\<open>lib/rbtree.c\<close> computes the functions of \<open>Rbspec\<close>: a tree value is
  represented in the node memory when each of its nodes has the links, parent, contents and colour
  that the value says; a path above a subtree likewise. Each branch of the program is run once on
  a represented subtree, and the loops by induction on the path.
\<close>

subsection \<open>Representation\<close>

fun tree_f :: "u64 \<Rightarrow> (u64 \<Rightarrow> u64) \<Rightarrow> (u64 \<Rightarrow> u64) \<Rightarrow> (u64 \<Rightarrow> u64) \<Rightarrow> (u64 \<Rightarrow> u64) \<Rightarrow> (u64 \<Rightarrow> node_color_t)
    \<Rightarrow> rbt \<Rightarrow> bool" where
  "tree_f b key val left right col Lf = True"
| "tree_f b key val left right col (Nd c l a k v r) =
     (is_node b a \<and> key a = k \<and> val a = v \<and> left a = root l \<and> right a = root r \<and> col a = c
      \<and> tree_f b key val left right col l \<and> tree_f b key val left right col r)"

fun pars :: "(u64 \<Rightarrow> u64) \<Rightarrow> u64 \<Rightarrow> rbt \<Rightarrow> bool" where
  "pars par p Lf = True"
| "pars par p (Nd c l a k v r) = (par a = p \<and> pars par a l \<and> pars par a r)"

abbreviation tree_in :: "rbnode_t \<Rightarrow> rbt \<Rightarrow> bool" where
  "tree_in m \<equiv> tree_f (rb_base m) (rb_key m) (rb_val m) (rb_left m) (rb_right m) (rb_color m)"

fun up :: "frame list \<Rightarrow> u64" where
  "up [] = 0"
| "up (f # fs) = faddr f"

fun path_in :: "rbnode_t \<Rightarrow> frame list \<Rightarrow> u64 \<Rightarrow> bool" where
  "path_in m [] x = True"
| "path_in m (FL c a k v r # fs) x =
     (is_node (rb_base m) a \<and> rb_key m a = k \<and> rb_val m a = v \<and> rb_left m a = x \<and> rb_right m a = root r
      \<and> rb_color m a = c \<and> rb_par m a = up fs \<and> tree_in m r \<and> pars (rb_par m) a r \<and> path_in m fs a)"
| "path_in m (FR c a k v l # fs) x =
     (is_node (rb_base m) a \<and> rb_key m a = k \<and> rb_val m a = v \<and> rb_left m a = root l \<and> rb_right m a = x
      \<and> rb_color m a = c \<and> rb_par m a = up fs \<and> tree_in m l \<and> pars (rb_par m) a l \<and> path_in m fs a)"

definition sub_in :: "rbnode_t \<Rightarrow> u64 \<Rightarrow> rbt \<Rightarrow> bool" where
  "sub_in m p t \<longleftrightarrow> tree_in m t \<and> pars (rb_par m) p t \<and> distinct (addrs t)"

definition zip_in :: "rbnode_t \<Rightarrow> frame list \<Rightarrow> rbt \<Rightarrow> bool" where
  "zip_in m fs t \<longleftrightarrow> tree_in m t \<and> pars (rb_par m) (up fs) t \<and> path_in m fs (root t)
     \<and> distinct (paddrs fs @ addrs t)"

definition same_out :: "u64 set \<Rightarrow> rbnode_t \<Rightarrow> rbnode_t \<Rightarrow> bool" where
  "same_out A m m' \<longleftrightarrow> rb_base m' = rb_base m \<and> (\<forall>a. a \<notin> A \<longrightarrow>
     rb_key m' a = rb_key m a \<and> rb_val m' a = rb_val m a \<and> rb_left m' a = rb_left m a
     \<and> rb_right m' a = rb_right m a \<and> rb_par m' a = rb_par m a \<and> rb_color m' a = rb_color m a)"

text \<open>Writes outside a tree do not change it; the parent of its root is written by \<open>reroot\<close>.\<close>

lemma tree_f_upd [simp]:
  assumes "a \<notin> set (addrs t)"
  shows "tree_f b (key(a := x)) val left right col t = tree_f b key val left right col t"
    and "tree_f b key (val(a := x)) left right col t = tree_f b key val left right col t"
    and "tree_f b key val (left(a := x)) right col t = tree_f b key val left right col t"
    and "tree_f b key val left (right(a := x)) col t = tree_f b key val left right col t"
    and "tree_f b key val left right (col(a := c)) t = tree_f b key val left right col t"
  using assms by (induction t) auto

lemma pars_upd [simp]: "a \<notin> set (addrs t) \<Longrightarrow> pars (par(a := x)) p t = pars par p t"
  by (induction t arbitrary: p) auto

fun reroot :: "rbt \<Rightarrow> u64 \<Rightarrow> (u64 \<Rightarrow> u64) \<Rightarrow> u64 \<Rightarrow> u64" where
  "reroot Lf p f = f"
| "reroot (Nd c l a k v r) p f = f(a := p)"

definition live :: "u64 \<Rightarrow> rbt \<Rightarrow> bool" where
  "live b t \<longleftrightarrow> (t \<noteq> Lf \<longrightarrow> is_node b (root t))"

lemma is_node_nonzero [simp]: "is_node b a \<Longrightarrow> a \<noteq> 0"
  by (simp add: is_node_def)

lemma is_node_null [simp]: "\<not> is_node b 0"
  by (simp add: is_node_def)

lemma tree_f_live: "tree_f b key val left right col t \<Longrightarrow> live b t"
  by (cases t) (auto simp: live_def)

lemma live_root [simp]: "live b t \<Longrightarrow> root t = 0 \<longleftrightarrow> t = Lf"
  by (cases t) (auto simp: live_def is_node_def)

lemma adopt_live [simp]:
  "live (rb_base m) t \<Longrightarrow> adopt (root t) p m = Some (m\<lparr>rb_par := reroot t p (rb_par m)\<rparr>)"
  by (cases t) (auto simp: live_def adopt_def wr_par_def)

lemma wr_par_live [simp]:
  "live (rb_base m) t \<Longrightarrow> t \<noteq> Lf \<Longrightarrow> wr_par (root t) p m = Some (m\<lparr>rb_par := reroot t p (rb_par m)\<rparr>)"
  by (cases t) (auto simp: live_def wr_par_def)

lemma root_mem: "t \<noteq> Lf \<Longrightarrow> root t \<in> set (addrs t)"
  by (cases t) auto

lemma reroot_out [simp]: "a \<notin> set (addrs t) \<Longrightarrow> reroot t p f a = f a"
  by (cases t) auto

lemma pars_reroot [simp]:
  "set (addrs t) \<inter> set (addrs s) = {} \<Longrightarrow> pars (reroot t p f) q s = pars f q s"
  "set (addrs s) \<inter> set (addrs t) = {} \<Longrightarrow> pars (reroot t p f) q s = pars f q s"
  by (cases t; auto)+

fun kids :: "(u64 \<Rightarrow> u64) \<Rightarrow> rbt \<Rightarrow> bool" where
  "kids par Lf = True"
| "kids par (Nd c l a k v r) = (pars par a l \<and> pars par a r)"

lemma pars_kids: "pars par p t \<Longrightarrow> kids par t"
  by (cases t) auto

lemma kids_upd [simp]: "a \<notin> set (addrs t) \<Longrightarrow> kids (par(a := x)) t = kids par t"
  by (cases t) auto

lemma kids_reroot [simp]:
  "set (addrs t) \<inter> set (addrs s) = {} \<Longrightarrow> kids (reroot t p f) s = kids f s"
  "set (addrs s) \<inter> set (addrs t) = {} \<Longrightarrow> kids (reroot t p f) s = kids f s"
  by (cases t; auto)+

lemma pars_reroot_same [simp]: "distinct (addrs t) \<Longrightarrow> pars (reroot t p f) p t = kids f t"
  by (cases t) auto

lemma rd_node [simp]: "is_node (rb_base m) a \<Longrightarrow> rd f a m = Some (f m a)"
  by (simp add: rd_def)

lemma wr_node [simp]:
  assumes "is_node (rb_base m) a"
  shows "wr_key a x m = Some (m\<lparr>rb_key := (rb_key m)(a := x)\<rparr>)"
    and "wr_val a x m = Some (m\<lparr>rb_val := (rb_val m)(a := x)\<rparr>)"
    and "wr_left a x m = Some (m\<lparr>rb_left := (rb_left m)(a := x)\<rparr>)"
    and "wr_right a x m = Some (m\<lparr>rb_right := (rb_right m)(a := x)\<rparr>)"
    and "wr_color a c m = Some (m\<lparr>rb_color := (rb_color m)(a := c)\<rparr>)"
    and "wr_par a x m = Some (m\<lparr>rb_par := (rb_par m)(a := x)\<rparr>)"
  using assms by (simp_all add: rb_access)

lemma is_red_live: "tree_in m t \<Longrightarrow> is_red (root t) m = Some (colr t = NODE_RED)"
  by (cases t) (auto simp: is_red_def dest: is_node_nonzero)

lemma kv_node [simp]:
  assumes "is_node (rb_base m) a"
  shows "put_kv a k v m = Some (m\<lparr>rb_key := (rb_key m)(a := k), rb_val := (rb_val m)(a := v)\<rparr>)"
    and "is_node (rb_base m) b \<Longrightarrow>
      copy_kv a b m = Some (m\<lparr>rb_key := (rb_key m)(a := rb_key m b), rb_val := (rb_val m)(a := rb_val m b)\<rparr>)"
  using assms by (simp_all add: copy_kv_def put_kv_def)

subsection \<open>Rotations\<close>

lemma sub_in_facts:
  "tree_in m t \<Longrightarrow> pars (rb_par m) p t \<Longrightarrow> live (rb_base m) t \<and> kids (rb_par m) t"
  by (simp add: tree_f_live pars_kids)

lemma rotate_lr_in:
  assumes "sub_in m p (Nd cg (Nd cp lp pa kp vp (Nd ct lt ta kt vt rt)) ga kg vg u)"
  shows "\<exists>m'. rotate_lr ta pa ga m = Some (m', ga)
     \<and> sub_in m' p (Nd cg (Nd cp lp pa kp vp lt) ga kt vt (Nd NODE_BLACK rt ta kg vg u))
     \<and> same_out (set (addrs (Nd cg (Nd cp lp pa kp vp (Nd ct lt ta kt vt rt)) ga kg vg u))) m m'"
  using assms sub_in_facts [of m lp] sub_in_facts [of m lt] sub_in_facts [of m rt] sub_in_facts [of m u]
  by (auto simp: sub_in_def rotate_lr_def same_out_def Int_Un_distrib)

lemma rotate_rr_in:
  assumes "sub_in m p (Nd cg u ga kg vg (Nd cp lp pa kp vp (Nd ct lt ta kt vt rt)))"
  shows "\<exists>m'. rotate_rr ta pa ga m = Some (m', ga)
     \<and> sub_in m' p (Nd NODE_BLACK (Nd ct u ta kg vg lp) ga kp vp (Nd NODE_RED lt pa kt vt rt))
     \<and> same_out (set (addrs (Nd cg u ga kg vg (Nd cp lp pa kp vp (Nd ct lt ta kt vt rt))))) m m'"
  using assms sub_in_facts [of m lp] sub_in_facts [of m lt] sub_in_facts [of m rt] sub_in_facts [of m u]
  by (auto simp: sub_in_def rotate_rr_def same_out_def Int_Un_distrib)

lemma rotate_rl_in:
  assumes "sub_in m p (Nd cg u ga kg vg (Nd cp (Nd ct lt ta kt vt rt) pa kp vp rp))"
  shows "\<exists>m'. rotate_rl ta pa ga m = Some (m', ga)
     \<and> sub_in m' p (Nd cg (Nd NODE_BLACK u ta kg vg lt) ga kt vt (Nd cp rt pa kp vp rp))
     \<and> same_out (set (addrs (Nd cg u ga kg vg (Nd cp (Nd ct lt ta kt vt rt) pa kp vp rp)))) m m'"
  using assms sub_in_facts [of m rp] sub_in_facts [of m lt] sub_in_facts [of m rt] sub_in_facts [of m u]
  by (auto simp: sub_in_def rotate_rl_def same_out_def Int_Un_distrib)

lemma path_upd [simp]:
  assumes "a \<notin> set (paddrs fs)"
  shows "path_in (m\<lparr>rb_key := (rb_key m)(a := x)\<rparr>) fs y = path_in m fs y"
    and "path_in (m\<lparr>rb_val := (rb_val m)(a := x)\<rparr>) fs y = path_in m fs y"
    and "path_in (m\<lparr>rb_left := (rb_left m)(a := x)\<rparr>) fs y = path_in m fs y"
    and "path_in (m\<lparr>rb_right := (rb_right m)(a := x)\<rparr>) fs y = path_in m fs y"
    and "path_in (m\<lparr>rb_par := (rb_par m)(a := x)\<rparr>) fs y = path_in m fs y"
    and "path_in (m\<lparr>rb_color := (rb_color m)(a := c)\<rparr>) fs y = path_in m fs y"
  using assms by (induction m fs y rule: path_in.induct) auto

lemma tree_same:
  assumes "same_out A m m'" and "A \<inter> set (addrs t) = {}"
  shows "tree_in m' t = tree_in m t" and "pars (rb_par m') p t = pars (rb_par m) p t"
proof -
  show "tree_in m' t = tree_in m t" using assms by (induction t) (auto simp: same_out_def)
  show "pars (rb_par m') p t = pars (rb_par m) p t" using assms
    by (induction t arbitrary: p) (auto simp: same_out_def)
qed

lemma path_same:
  assumes "same_out A m m'" and "A \<inter> set (paddrs fs) = {}"
  shows "path_in m' fs x = path_in m fs x"
  using assms
proof (induction fs arbitrary: x)
  case (Cons f fs)
  then have "tree_in m' (sib f) = tree_in m (sib f)" "pars (rb_par m') p (sib f) = pars (rb_par m) p (sib f)"
    "path_in m' fs x = path_in m fs x" for p x
    using tree_same [OF Cons.prems(1), of "sib f"] by auto
  with Cons.prems show ?case by (cases f) (simp_all add: same_out_def)
qed simp

lemma zip_cons: "zip_in m (f # fs) t \<longleftrightarrow> zip_in m fs (plug1 f t)"
  by (cases f) (auto simp: zip_in_def Int_Un_distrib)

lemma zip_plug: "zip_in m fs t \<longleftrightarrow> zip_in m [] (plug fs t)"
  by (induction fs arbitrary: t) (simp_all add: zip_cons)

lemma zip_sub: "zip_in m fs t \<Longrightarrow> sub_in m (up fs) t"
  by (simp add: zip_in_def sub_in_def)

text \<open>A subtree may be replaced in place, the nodes and the root kept.\<close>

lemma zip_replace:
  assumes "zip_in m fs t" and "sub_in m' (up fs) t'" and "same_out (set (addrs t)) m m'"
    and "root t' = root t" and "set (addrs t') \<subseteq> set (addrs t)"
  shows "zip_in m' fs t'"
  using assms path_same [OF assms(3), of fs] by (auto simp: zip_in_def sub_in_def)

lemma same_out_trans: "same_out A m m' \<Longrightarrow> same_out A m' m'' \<Longrightarrow> same_out A m m''"
  by (simp add: same_out_def)

lemma same_out_mono: "same_out A m m' \<Longrightarrow> A \<subseteq> B \<Longrightarrow> same_out B m m'"
  by (auto simp: same_out_def)


lemma rotate_ll_top:
  assumes "sub_in m 0 (Nd cg (Nd cp t pa kp vp rp) ga kg vg u)"
  shows "\<exists>m'. rotate_ll ta pa ga m = Some (m', pa) \<and> sub_in m' 0 (Nd cp t pa kp vp (Nd cg rp ga kg vg u))
     \<and> same_out (set (addrs (Nd cg (Nd cp t pa kp vp rp) ga kg vg u))) m m'"
  using assms sub_in_facts [of m t] sub_in_facts [of m rp] sub_in_facts [of m u]
  by (auto simp: sub_in_def rotate_ll_def same_out_def Int_Un_distrib)

lemma rotate_ll_below:
  assumes "f = FL cf ga' kf vf r \<or> f = FR cf ga' kf vf r"
    and "sub_in m p (plug1 f (Nd cg (Nd cp t pa kp vp rp) ga kg vg u))"
  shows "\<exists>m'. rotate_ll ta pa ga m = Some (m', pa)
     \<and> sub_in m' p (plug1 f (Nd cp t pa kp vp (Nd cg rp ga kg vg u)))
     \<and> same_out (set (addrs (plug1 f (Nd cg (Nd cp t pa kp vp rp) ga kg vg u)))) m m'"
  using assms(1)
proof
  assume f: "f = FL cf ga' kf vf r"
  show ?thesis unfolding f
    using assms(2) [unfolded f] sub_in_facts [of m t] sub_in_facts [of m rp] sub_in_facts [of m u] sub_in_facts [of m r]
    by (auto simp: sub_in_def rotate_ll_def same_out_def Int_Un_distrib)
next
  assume f: "f = FR cf ga' kf vf r"
  have "root r \<noteq> ga" using assms(2) [unfolded f] by (cases r) (auto simp: sub_in_def)
  then show ?thesis unfolding f
    using assms(2) [unfolded f] sub_in_facts [of m t] sub_in_facts [of m rp] sub_in_facts [of m u] sub_in_facts [of m r]
    by (auto simp: sub_in_def rotate_ll_def same_out_def Int_Un_distrib)
qed

lemma set_addrs_plug: "set (addrs (plug fs s)) = set (paddrs fs) \<union> set (addrs s)"
  using addrs_plug [of fs s] by (metis set_mset_mset set_mset_union)

lemma rotate_ll_in:
  assumes "zip_in m fs (Nd cg (Nd cp t pa kp vp rp) ga kg vg u)"
  shows "\<exists>m'. rotate_ll ta pa ga m = Some (m', pa)
     \<and> zip_in m' fs (Nd cp t pa kp vp (Nd cg rp ga kg vg u))
     \<and> same_out (set (addrs (plug fs (Nd cg (Nd cp t pa kp vp rp) ga kg vg u)))) m m'"
proof (cases fs)
  case Nil
  then show ?thesis using rotate_ll_top [of m cg cp t pa kp vp rp ga kg vg u ta] assms
    by (auto simp: zip_in_def sub_in_def)
next
  case (Cons f gs)
  then have z: "zip_in m gs (plug1 f (Nd cg (Nd cp t pa kp vp rp) ga kg vg u))"
    using assms by (simp add: zip_cons)
  obtain cf fa kf vf r where f: "f = FL cf fa kf vf r \<or> f = FR cf fa kf vf r" by (metis frame.exhaust)
  from rotate_ll_below [OF f zip_sub [OF z]] obtain m' where m': "rotate_ll ta pa ga m = Some (m', pa)"
      "sub_in m' (up gs) (plug1 f (Nd cp t pa kp vp (Nd cg rp ga kg vg u)))"
      "same_out (set (addrs (plug1 f (Nd cg (Nd cp t pa kp vp rp) ga kg vg u)))) m m'" by blast
  have "zip_in m' fs (Nd cp t pa kp vp (Nd cg rp ga kg vg u))"
    unfolding Cons zip_cons by (rule zip_replace [OF z m'(2,3)]) (use f in auto)
  with m' Cons same_out_mono [OF m'(3)] show ?thesis by (auto simp: set_addrs_plug)
qed


lemma rotate_branch:
  assumes "t \<noteq> Lf"
  shows "zip_in m (FL cp pa kp vp rp # FL cg ga kg vg u # fs) t \<Longrightarrow> rotate (root t) m = rotate_ll (root t) pa ga m"
    and "zip_in m (FR cp pa kp vp rp # FL cg ga kg vg u # fs) t \<Longrightarrow> rotate (root t) m = rotate_lr (root t) pa ga m"
    and "zip_in m (FR cp pa kp vp rp # FR cg ga kg vg u # fs) t \<Longrightarrow> rotate (root t) m = rotate_rr (root t) pa ga m"
    and "zip_in m (FL cp pa kp vp rp # FR cg ga kg vg u # fs) t \<Longrightarrow> rotate (root t) m = rotate_rl (root t) pa ga m"
proof -
  obtain ct lt ta kt vt rt where t: "t = Nd ct lt ta kt vt rt" using assms by (cases t) auto
  have r: "root s \<noteq> a" if "a \<noteq> 0" "a \<notin> set (addrs s)" for a s using that by (cases s) auto
  show "zip_in m (FL cp pa kp vp rp # FL cg ga kg vg u # fs) t \<Longrightarrow> rotate (root t) m = rotate_ll (root t) pa ga m"
    by (simp add: zip_in_def rotate_def t)
  show "zip_in m (FR cp pa kp vp rp # FL cg ga kg vg u # fs) t \<Longrightarrow> rotate (root t) m = rotate_lr (root t) pa ga m"
    using r [of ta rp] by (auto simp: zip_in_def rotate_def t dest!: is_node_nonzero)
  show "zip_in m (FR cp pa kp vp rp # FR cg ga kg vg u # fs) t \<Longrightarrow> rotate (root t) m = rotate_rr (root t) pa ga m"
    using r [of pa u] by (auto simp: zip_in_def rotate_def t dest: is_node_nonzero)
  show "zip_in m (FL cp pa kp vp rp # FR cg ga kg vg u # fs) t \<Longrightarrow> rotate (root t) m = rotate_rl (root t) pa ga m"
    using r [of pa u] r [of ta rp] by (auto simp: zip_in_def rotate_def t dest: is_node_nonzero)
qed


lemma zip_replace_ex:
  assumes "zip_in m fs t"
    and "\<exists>m'. F = Some (m', a) \<and> sub_in m' (up fs) t' \<and> same_out (set (addrs t)) m m'"
    and "root t' = root t" and "mset (addrs t') = mset (addrs t)"
  shows "\<exists>m'. F = Some (m', a) \<and> zip_in m' fs t' \<and> same_out (set (addrs (plug fs t))) m m'"
proof -
  from assms(2) obtain m' where m': "F = Some (m', a)" "sub_in m' (up fs) t'" "same_out (set (addrs t)) m m'" by blast
  have "zip_in m' fs t'"
    by (rule zip_replace [OF assms(1) m'(2,3) assms(3)]) (metis assms(4) set_mset_mset order_refl)
  moreover have "same_out (set (addrs (plug fs t))) m m'"
    using same_out_mono [OF m'(3)] by (simp add: set_addrs_plug)
  ultimately show ?thesis using m'(1) by blast
qed

lemma rotate_in:
  assumes z: "zip_in m (f # g # fs) t" and t: "t \<noteq> Lf" and c: "fcol f = NODE_BLACK" "fcol g = NODE_RED"
    and u: "colr (sib g) \<noteq> NODE_RED"
  shows "\<exists>m'. rotate (root t) m = Some (m', root (ins_step t f g)) \<and> zip_in m' fs (ins_step t f g)
     \<and> same_out (set (addrs (plug fs (plug1 g (plug1 f t))))) m m'"
proof -
  have zs: "zip_in m fs (plug1 g (plug1 f t))" using z by (simp add: zip_cons)
  obtain ct lt ta kt vt rt where nd: "t = Nd ct lt ta kt vt rt" using t by (cases t) auto
  consider (ll) pa kp vp rp ga kg vg u where "f = FL NODE_BLACK pa kp vp rp" "g = FL NODE_RED ga kg vg u"
    | (lr) pa kp vp rp ga kg vg u where "f = FR NODE_BLACK pa kp vp rp" "g = FL NODE_RED ga kg vg u"
    | (rr) pa kp vp rp ga kg vg u where "f = FR NODE_BLACK pa kp vp rp" "g = FR NODE_RED ga kg vg u"
    | (rl) pa kp vp rp ga kg vg u where "f = FL NODE_BLACK pa kp vp rp" "g = FR NODE_RED ga kg vg u"
    using c by (cases f; cases g) auto
  then show ?thesis
  proof cases
    case ll
    with rotate_branch(1) [OF t z [unfolded ll]] u zs show ?thesis
      using rotate_ll_in [of m fs NODE_RED NODE_BLACK t pa kp vp rp ga kg vg u "root t"] by simp
  next
    case lr
    have "rotate (root t) m = rotate_lr ta pa ga m" using rotate_branch(2) [OF t z [unfolded lr]] by (simp add: nd)
    with lr u rotate_lr_in [OF zip_sub [OF zs [unfolded lr nd plug1.simps]]] show ?thesis
      by (intro zip_replace_ex [OF zs]) (simp_all add: nd)
  next
    case rr
    have "rotate (root t) m = rotate_rr ta pa ga m" using rotate_branch(3) [OF t z [unfolded rr]] by (simp add: nd)
    with rr u rotate_rr_in [OF zip_sub [OF zs [unfolded rr nd plug1.simps]]] show ?thesis
      by (intro zip_replace_ex [OF zs]) (simp_all add: nd)
  next
    case rl
    have "rotate (root t) m = rotate_rl ta pa ga m" using rotate_branch(4) [OF t z [unfolded rl]] by (simp add: nd)
    with rl u rotate_rl_in [OF zip_sub [OF zs [unfolded rl nd plug1.simps]]] show ?thesis
      by (intro zip_replace_ex [OF zs]) (simp_all add: nd)
  qed
qed

subsection \<open>The repair after an insertion\<close>

fun fpaint :: "node_color_t \<Rightarrow> frame \<Rightarrow> frame" where
  "fpaint c (FL c' a k v r) = FL c a k v r"
| "fpaint c (FR c' a k v l) = FR c a k v l"

abbreviation set_color :: "u64 \<Rightarrow> node_color_t \<Rightarrow> rbnode_t \<Rightarrow> rbnode_t" where
  "set_color a c m \<equiv> m\<lparr>rb_color := (rb_color m)(a := c)\<rparr>"

lemma zip_paint_frame: "zip_in m (f # fs) t \<Longrightarrow> zip_in (set_color (faddr f) c m) (fpaint c f # fs) t"
  by (cases f) (auto simp: zip_in_def)

lemma zip_paint: "zip_in m fs t \<Longrightarrow> t \<noteq> Lf \<Longrightarrow> zip_in (set_color (root t) c m) fs (paint c t)"
  by (cases t) (auto simp: zip_in_def)

lemma fpaint_simps [simp]:
  "faddr (fpaint c f) = faddr f" "fcol (fpaint c f) = c" "sib (fpaint c f) = sib f"
  "addrs (plug1 (fpaint c f) t) = addrs (plug1 f t)" "paddrs (fpaint c f # fs) = paddrs (f # fs)"
  by (cases f; simp)+

lemma ins_step_fpaint:
  "t \<noteq> Lf \<Longrightarrow> ins_step t (fpaint c f) g = ins_step t f g"
  "t \<noteq> Lf \<Longrightarrow> ins_step t f (fpaint c g) = ins_step t f g"
  by (cases t; cases f; cases g; simp)+


lemma fix_step_eval:
  assumes z: "zip_in m (f # g # fs) t" and t: "t \<noteq> Lf"
    and m1: "m1 = set_color (faddr g) NODE_RED (set_color (faddr f) NODE_BLACK m)"
  shows "fix_step (root t) m = (if colr (sib g) = NODE_RED
     then Some (set_color (root (sib g)) NODE_BLACK m1, faddr g) else rotate (root t) m1)"
proof -
  obtain ct lt ta kt vt rt where nd: "t = Nd ct lt ta kt vt rt" using t by (cases t) auto
  have r: "root s \<noteq> a" if "a \<noteq> 0" "a \<notin> set (addrs s)" for a s using that by (cases s) auto
  from z have n: "is_node (rb_base m) ta" "is_node (rb_base m) (faddr f)" "is_node (rb_base m) (faddr g)"
    "rb_par m ta = faddr f" "rb_par m (faddr f) = faddr g"
    by (cases f; cases g; simp add: zip_in_def nd)+
  have u: "(if rb_left m (faddr g) = faddr f then rb_right m (faddr g) else rb_left m (faddr g)) = root (sib g)"
    using z r [of "faddr f" "sib g"] n(2) by (cases f; cases g) (auto simp: zip_in_def)
  have red: "is_red (root (sib g)) m1 = Some (colr (sib g) = NODE_RED)"
    using z by (cases f; cases g) (auto simp: zip_in_def m1 intro!: is_red_live)
  have "colr (sib g) = NODE_RED \<Longrightarrow> is_node (rb_base m) (root (sib g))"
    using z by (cases f; cases g; cases "sib g") (auto simp: zip_in_def)
  with n u red show ?thesis
    by (auto simp: fix_step_def nd m1 split: if_splits)
qed

lemma same_out_color: "a \<in> A \<Longrightarrow> same_out A m (set_color a c m)"
  by (auto simp: same_out_def)

fun paint_sib :: "node_color_t \<Rightarrow> frame \<Rightarrow> frame" where
  "paint_sib c (FL c' a k v r) = FL c' a k v (paint c r)"
| "paint_sib c (FR c' a k v l) = FR c' a k v (paint c l)"

lemma zip_paint_sib:
  "zip_in m (g # fs) s \<Longrightarrow> sib g \<noteq> Lf \<Longrightarrow> zip_in (set_color (root (sib g)) c m) (paint_sib c g # fs) s"
  by (cases g; cases "sib g") (auto simp: zip_in_def)

lemma ins_step_red:
  assumes "t \<noteq> Lf" "colr (sib g) = NODE_RED"
  shows "ins_step t f g = plug1 (paint_sib NODE_BLACK (fpaint NODE_RED g)) (plug1 (fpaint NODE_BLACK f) t)"
  using assms by (cases t; cases f; cases g) auto

lemma fix_step_in:
  assumes z: "zip_in m (f # g # fs) t" and t: "t \<noteq> Lf"
  shows "\<exists>m'. fix_step (root t) m = Some (m', root (ins_step t f g)) \<and> zip_in m' fs (ins_step t f g)
     \<and> same_out (set (addrs (plug (f # g # fs) t))) m m'"
proof -
  define A where "A = set (addrs (plug (f # g # fs) t))"
  have A_eq: "A = set (paddrs (f # g # fs)) \<union> set (addrs t)" unfolding A_def by (rule set_addrs_plug)
  define m1 where m1: "m1 = set_color (faddr g) NODE_RED (set_color (faddr f) NODE_BLACK m)"
  have s1: "same_out A m m1"
    unfolding m1 by (rule same_out_trans [OF same_out_color same_out_color]) (simp_all add: A_eq)
  from zip_paint_frame [OF z, of NODE_BLACK]
  have "zip_in (set_color (faddr f) NODE_BLACK m) (g # fs) (plug1 (fpaint NODE_BLACK f) t)"
    by (simp add: zip_cons)
  from zip_paint_frame [OF this, of NODE_RED]
  have z1: "zip_in m1 (fpaint NODE_RED g # fs) (plug1 (fpaint NODE_BLACK f) t)" unfolding m1 by simp
  note e = fix_step_eval [OF z t m1]
  show ?thesis
  proof (cases "colr (sib g) = NODE_RED")
    case True
    then have u: "sib g \<noteq> Lf" by auto
    have "zip_in (set_color (root (sib g)) NODE_BLACK m1) fs (ins_step t f g)"
      using zip_paint_sib [OF z1, of NODE_BLACK] u by (simp add: ins_step_red [OF t True] zip_cons)
    moreover have "same_out A m (set_color (root (sib g)) NODE_BLACK m1)"
      by (rule same_out_trans [OF s1 same_out_color]) (use root_mem [OF u] in \<open>simp add: A_eq\<close>)
    moreover have "root (ins_step t f g) = faddr g"
      unfolding ins_step_red [OF t True] by (cases g) simp_all
    ultimately show ?thesis using e True by (auto simp: A_def)
  next
    case False
    have "set (addrs (plug fs (plug1 (fpaint NODE_RED g) (plug1 (fpaint NODE_BLACK f) t)))) = A"
      by (cases f; cases g) (auto simp: A_eq set_addrs_plug)
    with rotate_in [of m1 "fpaint NODE_BLACK f" "fpaint NODE_RED g" fs t] z1 t False obtain m' where m':
      "rotate (root t) m1 = Some (m', root (ins_step t f g))" "zip_in m' fs (ins_step t f g)" "same_out A m1 m'"
      by (auto simp: ins_step_fpaint zip_cons)
    with e False same_out_trans [OF s1 m'(3)] show ?thesis by (simp add: A_def)
  qed
qed


text \<open>The loop: it ends, with the repaired tree and its head.\<close>

lemma fix_loop_in:
  assumes "zip_in m fs t" "t \<noteq> Lf" "fs \<noteq> []" "black_top fs" "head = root (plug fs t)"
  shows "\<exists>m'. fix_loop head (root t) m = Some (m', root (ins_fix t fs)) \<and> zip_in m' [] (ins_fix t fs)
     \<and> same_out (set (addrs (plug fs t))) m m'"
  using assms
proof (induction t fs arbitrary: m rule: ins_fix.induct)
  case (1 t f g fs)
  let ?s = "ins_step t f g"
  have n: "is_node (rb_base m) (root t)" "is_node (rb_base m) (faddr f)" "rb_color m (root t) = colr t"
    "rb_par m (root t) = faddr f" "rb_color m (faddr f) = fcol f"
    using "1.prems"(1,2) by (cases t; cases f; simp add: zip_in_def)+
  show ?case
  proof (cases "colr t = NODE_RED \<and> fcol f = NODE_RED")
    case False
    with n have "fix_loop head (root t) m = Some (m, head)" by (auto simp: fix_loop.simps [of _ "root t"])
    with False "1.prems" show ?thesis using zip_plug [of m "f # g # fs" t] by (auto simp: same_out_def)
  next
    case True
    from fix_step_in [OF "1.prems"(1,2)] obtain m1 where m1: "fix_step (root t) m = Some (m1, root ?s)"
      "zip_in m1 fs ?s" "same_out (set (addrs (plug (f # g # fs) t))) m m1" by blast
    have s: "?s \<noteq> Lf" using ins_step_addrs [of t f g] by (cases f; cases g) auto
    from m1(2) s have n1: "is_node (rb_base m1) (root ?s)" "rb_par m1 (root ?s) = up fs"
      by (cases ?s; simp add: zip_in_def)+
    have A: "set (addrs (plug fs ?s)) = set (addrs (plug (f # g # fs) t))"
      using ins_step_addrs [of t f g] by (metis addrs_plug plug.simps(2) set_mset_mset)
    show ?thesis
    proof (cases fs)
      case Nil
      then have "fix_loop head (root t) m = Some (set_color (root ?s) NODE_BLACK m1, root ?s)"
        using n n1 m1(1) True by (simp add: fix_loop.simps [of _ "root t"])
      moreover have "same_out (set (addrs (plug (f # g # fs) t))) m (set_color (root ?s) NODE_BLACK m1)"
        by (rule same_out_trans [OF m1(3) same_out_color]) (use root_mem [OF s] A Nil in simp)
      ultimately show ?thesis using zip_paint [OF m1(2) s, of NODE_BLACK] Nil True by simp
    next
      case (Cons h hs)
      from m1(2) Cons have "up fs \<noteq> 0" by (cases h) (auto simp: zip_in_def)
      with n n1 m1(1) True have "fix_loop head (root t) m = fix_loop head (root ?s) m1"
        by (simp add: fix_loop.simps [of _ "root t"])
      moreover from Cons "1.prems"(3-5) have "black_top fs" "head = root (plug fs ?s)"
        using root_plug [of fs "plug1 g (plug1 f t)"] root_plug [of fs ?s] by (simp_all add: black_top_Cons)
      ultimately show ?thesis using "1.IH" [OF True _ m1(2) s] Cons True A same_out_trans [OF m1(3)]
        by (metis ins_fix.simps(1) list.distinct(1))
    qed
  qed
next
  case (2 t f)
  then have "is_node (rb_base m) (root t)" "is_node (rb_base m) (faddr f)" "rb_par m (root t) = faddr f"
    "rb_color m (faddr f) = NODE_BLACK"
    by (cases t; cases f; simp add: zip_in_def black_top_def)+
  then have "fix_loop head (root t) m = Some (m, head)" by (simp add: fix_loop.simps [of _ "root t"])
  with 2 show ?case using zip_plug [of m "[f]" t] by (auto simp: same_out_def)
qed simp


subsection \<open>Descending the tree\<close>

text \<open>A fresh node, and its attachment below the last node of a path.\<close>

definition fresh_node :: "rbnode_t \<Rightarrow> u64 \<Rightarrow> u64 \<Rightarrow> u64 \<Rightarrow> bool" where
  "fresh_node m a k v \<longleftrightarrow> is_node (rb_base m) a \<and> rb_key m a = k \<and> rb_val m a = v \<and> rb_left m a = 0
     \<and> rb_right m a = 0 \<and> rb_color m a = NODE_RED"

fun attach :: "frame \<Rightarrow> u64 \<Rightarrow> rbnode_t \<Rightarrow> rbnode_t" where
  "attach (FL c a k v r) x m = m\<lparr>rb_par := (rb_par m)(x := a), rb_left := (rb_left m)(a := x)\<rparr>"
| "attach (FR c a k v l) x m = m\<lparr>rb_par := (rb_par m)(x := a), rb_right := (rb_right m)(a := x)\<rparr>"

lemma path_two [simp]:
  assumes "a \<notin> set (paddrs fs)" "b \<notin> set (paddrs fs)"
  shows "path_in (m\<lparr>rb_par := (rb_par m)(a := x), rb_left := (rb_left m)(b := y)\<rparr>) fs z = path_in m fs z"
    and "path_in (m\<lparr>rb_par := (rb_par m)(a := x), rb_right := (rb_right m)(b := y)\<rparr>) fs z = path_in m fs z"
  using path_upd(3) [OF assms(2), of "m\<lparr>rb_par := (rb_par m)(a := x)\<rparr>" y z]
    path_upd(4) [OF assms(2), of "m\<lparr>rb_par := (rb_par m)(a := x)\<rparr>" y z] path_upd(5) [OF assms(1), of m x z]
  by simp_all

lemma attach_in:
  assumes "zip_in m (f # fs) Lf" "fresh_node m x k v" "x \<notin> set (paddrs (f # fs))"
  shows "zip_in (attach f x m) (f # fs) (Nd NODE_RED Lf x k v Lf)"
    and "same_out (insert x (set (paddrs (f # fs)))) m (attach f x m)"
  using assms by (cases f; auto simp: zip_in_def fresh_node_def same_out_def)+

lemma place_loop_in:
  assumes "zip_in m fs t" "t \<noteq> Lf" "fresh_node m x k v" "x \<notin> set (addrs (plug fs t))"
  shows "\<exists>m'. place_loop (Some c) x (root t) m = Some m'
     \<and> zip_in m' (place c k t fs) (Nd NODE_RED Lf x k v Lf) \<and> same_out (insert x (set (addrs (plug fs t)))) m m'"
  using assms
proof (induction c k t fs rule: place.induct)
  case (2 c k cl l a ka va r fs)
  from "2.prems" have n: "is_node (rb_base m) a" "rb_key m a = ka" "rb_left m a = root l" "rb_right m a = root r"
      "is_node (rb_base m) x" "rb_key m x = k" and l: "live (rb_base m) l" "live (rb_base m) r"
    by (auto simp: zip_in_def fresh_node_def tree_f_live)
  define f where "f = (if 0 < c ka k then FR cl a ka va l else FL cl a ka va r)"
  define s where "s = (if 0 < c ka k then r else l)"
  have s: "plug1 f s = Nd cl l a ka va r" "place c k (Nd cl l a ka va r) fs = place c k s (f # fs)"
    by (simp_all add: f_def s_def)
  then have z: "zip_in m (f # fs) s" using "2.prems"(1) by (simp add: zip_cons)
  have A: "set (addrs (plug fs (Nd cl l a ka va r))) = set (paddrs (f # fs)) \<union> set (addrs s)"
    using set_addrs_plug [of "f # fs" s] s by simp
  show ?case
  proof (cases "s = Lf")
    case True
    with n l have "place_loop (Some c) x (root (Nd cl l a ka va r)) m = Some (attach f x m)"
      by (auto simp: place_loop.simps [of _ _ a] f_def s_def split: if_splits)
    with attach_in [of m f fs x k v] z True "2.prems"(3,4) A s show ?thesis by auto
  next
    case False
    with n l have "place_loop (Some c) x (root (Nd cl l a ka va r)) m = place_loop (Some c) x (root s) m"
      by (auto simp: place_loop.simps [of _ _ a] s_def split: if_splits)
    moreover have "\<exists>m'. place_loop (Some c) x (root s) m = Some m' \<and> zip_in m' (place c k s (f # fs)) (Nd NODE_RED Lf x k v Lf)
        \<and> same_out (insert x (set (addrs (plug (f # fs) s)))) m m'"
      using "2.IH" False z "2.prems"(3,4) s A by (auto simp: f_def s_def split: if_splits)
    ultimately show ?thesis using s by simp
  qed
qed simp

lemma search_loop_in:
  "tree_in m t \<Longrightarrow> search_loop (Some c) k (root t) m = Some (root (fst (locate c k t fs)))"
proof (induction c k t fs rule: locate.induct)
  case (1 c k fs)
  then show ?case by (simp add: search_loop.simps)
next
  case (2 c k cl l a ka va r fs)
  then have "a \<noteq> 0" by auto
  with 2 show ?case by (simp add: search_loop.simps [of _ k a])
qed

lemma max_loop_in: "tree_in m t \<Longrightarrow> t \<noteq> Lf \<Longrightarrow> max_loop (root t) m = Some (root (fst (max_node t fs)))"
  by (induction t fs rule: max_node.induct) (auto simp: max_loop.simps [of x m for x] dest: is_node_nonzero)


subsection \<open>The repair after a deletion\<close>

lemma del_left_near_in:
  assumes "sub_in m p (Nd c t a k v (Nd cs (Nd cw wl w kw vw wr) sa ks vs sf))" and "t \<noteq> Lf"
  shows "\<exists>m'. del_left_near a sa m = Some m' \<and> sub_in m' p (Nd c (Nd NODE_BLACK t w k v wl) a kw vw (Nd cs wr sa ks vs sf))
     \<and> same_out (set (addrs (Nd c t a k v (Nd cs (Nd cw wl w kw vw wr) sa ks vs sf)))) m m'"
  using assms sub_in_facts [of m t] sub_in_facts [of m wl] sub_in_facts [of m wr] sub_in_facts [of m sf]
  by (auto simp: sub_in_def del_left_near_def same_out_def Int_Un_distrib)

lemma del_left_far_in:
  assumes "sub_in m p (Nd c t a k v (Nd cs sn sa ks vs (Nd cw wl w kw vw wr)))" and "t \<noteq> Lf"
  shows "\<exists>m'. del_left_far a sa m = Some m' \<and> sub_in m' p (Nd c (Nd cs t sa k v sn) a ks vs (Nd NODE_BLACK wl w kw vw wr))
     \<and> same_out (set (addrs (Nd c t a k v (Nd cs sn sa ks vs (Nd cw wl w kw vw wr))))) m m'"
  using assms sub_in_facts [of m t] sub_in_facts [of m wl] sub_in_facts [of m wr] sub_in_facts [of m sn]
  by (auto simp: sub_in_def del_left_far_def same_out_def Int_Un_distrib)

lemma del_left_red_in:
  assumes "sub_in m p (Nd c t a k v (Nd cs sn sa ks vs sf))" and "t \<noteq> Lf" and "sf \<noteq> Lf"
  shows "\<exists>m'. del_left_red a sa m = Some m' \<and> sub_in m' p (Nd c (Nd cs t sa k v sn) a ks vs sf)
     \<and> same_out (set (addrs (Nd c t a k v (Nd cs sn sa ks vs sf)))) m m'"
  using assms sub_in_facts [of m t] sub_in_facts [of m sn] sub_in_facts [of m sf]
  by (auto simp: sub_in_def del_left_red_def same_out_def Int_Un_distrib)

lemma del_right_near_in:
  assumes "sub_in m p (Nd c (Nd cs sf sa ks vs (Nd cw wl w kw vw wr)) a k v t)" and "t \<noteq> Lf"
  shows "\<exists>m'. del_right_near a sa m = Some m' \<and> sub_in m' p (Nd c (Nd cs sf sa ks vs wl) a kw vw (Nd NODE_BLACK wr w k v t))
     \<and> same_out (set (addrs (Nd c (Nd cs sf sa ks vs (Nd cw wl w kw vw wr)) a k v t))) m m'"
  using assms sub_in_facts [of m t] sub_in_facts [of m wl] sub_in_facts [of m wr] sub_in_facts [of m sf]
  by (auto simp: sub_in_def del_right_near_def same_out_def Int_Un_distrib)

lemma del_right_far_in:
  assumes "sub_in m p (Nd c (Nd cs (Nd cw wl w kw vw wr) sa ks vs sn) a k v t)" and "t \<noteq> Lf"
  shows "\<exists>m'. del_right_far a sa m = Some m' \<and> sub_in m' p (Nd c (Nd NODE_BLACK wl w kw vw wr) a ks vs (Nd cs sn sa k v t))
     \<and> same_out (set (addrs (Nd c (Nd cs (Nd cw wl w kw vw wr) sa ks vs sn) a k v t))) m m'"
  using assms sub_in_facts [of m t] sub_in_facts [of m wl] sub_in_facts [of m wr] sub_in_facts [of m sn]
  by (auto simp: sub_in_def del_right_far_def same_out_def Int_Un_distrib)

lemma del_right_red_in:
  assumes "sub_in m p (Nd c (Nd cs sf sa ks vs sn) a k v t)" and "t \<noteq> Lf" and "sf \<noteq> Lf"
  shows "\<exists>m'. del_right_red a sa m = Some m' \<and> sub_in m' p (Nd c sf a ks vs (Nd cs sn sa k v t))
     \<and> same_out (set (addrs (Nd c (Nd cs sf sa ks vs sn) a k v t))) m m'"
  using assms sub_in_facts [of m t] sub_in_facts [of m sn] sub_in_facts [of m sf]
  by (auto simp: sub_in_def del_right_red_def same_out_def Int_Un_distrib)


lemma del_step_left:
  assumes "zip_in m (FL c a k v (Nd cs sl sa ks vs sr) # fs) s" "s \<noteq> Lf"
  shows "del_step (root s) m =
    (if cs = NODE_BLACK
     then if colr sl = NODE_RED then map_option (\<lambda>m. (m, False, a)) (del_left_near a sa m)
       else if colr sr = NODE_RED then map_option (\<lambda>m. (m, False, a)) (del_left_far a sa m)
       else Some (set_color a NODE_BLACK (set_color sa NODE_RED m), c = NODE_BLACK, a)
     else map_option (\<lambda>m. (m, True, root s)) (del_left_red a sa m))"
proof -
  from assms have n: "is_node (rb_base m) (root s)" "rb_par m (root s) = a" "is_node (rb_base m) a"
    "rb_left m a = root s" "rb_right m a = sa" "rb_color m a = c" "is_node (rb_base m) sa" "rb_color m sa = cs"
    "rb_left m sa = root sl" "rb_right m sa = root sr" "tree_in m sl" "tree_in m sr" "a \<noteq> sa"
    by (cases s; auto simp: zip_in_def)+
  then show ?thesis
    by (simp add: del_step_def del_left_def is_red_live map_option_case split: option.splits)
qed

lemma del_step_right:
  assumes "zip_in m (FR c a k v (Nd cs sl sa ks vs sr) # fs) s" "s \<noteq> Lf"
  shows "del_step (root s) m =
    (if cs = NODE_BLACK
     then if colr sr = NODE_RED then map_option (\<lambda>m. (m, False, a)) (del_right_near a sa m)
       else if colr sl = NODE_RED then map_option (\<lambda>m. (m, False, a)) (del_right_far a sa m)
       else Some (set_color a NODE_BLACK (set_color sa NODE_RED m), c = NODE_BLACK, a)
     else map_option (\<lambda>m. (m, True, root s)) (del_right_red a sa m))"
proof -
  from assms have n: "is_node (rb_base m) (root s)" "rb_par m (root s) = a" "is_node (rb_base m) a"
    "rb_right m a = root s" "rb_left m a = sa" "rb_color m a = c" "is_node (rb_base m) sa" "rb_color m sa = cs"
    "rb_left m sa = root sl" "rb_right m sa = root sr" "tree_in m sl" "tree_in m sr" "a \<noteq> sa" "sa \<noteq> root s"
    by (cases s; auto simp: zip_in_def)+
  then show ?thesis
    by (simp add: del_step_def del_right_def is_red_live map_option_case split: option.splits)
qed

lemma del_loop_unfold:
  assumes "zip_in m (f # fs) s" "s \<noteq> Lf"
  shows "del_loop True (root s) m = del_step (root s) m \<bind> (\<lambda>(m, flag, tar). del_loop flag tar m)"
proof -
  from assms have "is_node (rb_base m) (root s)" "rb_par m (root s) = faddr f" "is_node (rb_base m) (faddr f)"
    by (cases s; cases f; simp add: zip_in_def)+
  then show ?thesis by (subst del_loop.simps) (simp add: is_node_nonzero)
qed

lemma del_loop_False [simp]: "del_loop False x m = Some m"
  by (simp add: del_loop.simps)

lemma zip_recolor:
  assumes "zip_in m (f # fs) s" "sib f = Nd c' l b k v r"
  shows "zip_in (set_color (faddr f) NODE_BLACK (set_color b NODE_RED m)) fs
     (plug1 (paint_sib NODE_RED (fpaint NODE_BLACK f)) s)"
    and "same_out (set (addrs (plug (f # fs) s))) m (set_color (faddr f) NODE_BLACK (set_color b NODE_RED m))"
proof -
  have "zip_in (set_color (root (sib f)) NODE_RED m) (paint_sib NODE_RED f # fs) s"
    using zip_paint_sib [OF assms(1)] assms(2) by simp
  from zip_paint_frame [OF this, of NODE_BLACK] assms(2)
  show "zip_in (set_color (faddr f) NODE_BLACK (set_color b NODE_RED m)) fs
     (plug1 (paint_sib NODE_RED (fpaint NODE_BLACK f)) s)"
    by (cases f) (simp_all add: zip_cons)
  show "same_out (set (addrs (plug (f # fs) s))) m (set_color (faddr f) NODE_BLACK (set_color b NODE_RED m))"
    unfolding set_addrs_plug
    by (rule same_out_trans [OF same_out_color same_out_color]) (simp_all add: assms(2))
qed

lemma zip_replace_ex1:
  assumes "zip_in m fs t" "\<exists>m'. F = Some m' \<and> sub_in m' (up fs) t' \<and> same_out (set (addrs t)) m m'"
    and "root t' = root t" and "mset (addrs t') = mset (addrs t)"
  obtains m' where "F = Some m'" "zip_in m' fs t'" "same_out (set (addrs (plug fs t))) m m'"
  using zip_replace_ex [of m fs t "map_option (\<lambda>m. (m, root t)) F" "root t" t'] assms by auto


text \<open>The three ways a round may end: repaired, one level up, or with a black sibling.\<close>

definition loop_result :: "rbnode_t \<Rightarrow> frame list \<Rightarrow> rbt \<Rightarrow> frame list \<Rightarrow> bool" where
  "loop_result m fs s hs \<longleftrightarrow> (\<exists>m'. del_loop True (root s) m = Some m' \<and> zip_in m' hs s
     \<and> same_out (set (addrs (plug fs s))) m m')"

lemma del_round_done:
  assumes z: "zip_in m (f # fs) s" "s \<noteq> Lf"
    and st: "del_step (root s) m = map_option (\<lambda>m. (m, False, a)) F"
    and F: "\<exists>m'. F = Some m' \<and> sub_in m' (up fs) (plug hs s) \<and> same_out (set (addrs (plug1 f s))) m m'"
    and rt: "root (plug hs s) = root (plug1 f s)" "mset (addrs (plug hs s)) = mset (addrs (plug1 f s))"
  shows "loop_result m (f # fs) s (hs @ fs)"
proof -
  have "zip_in m fs (plug1 f s)" using z by (simp add: zip_cons)
  from zip_replace_ex1 [OF this F rt] obtain m' where m': "F = Some m'" "zip_in m' fs (plug hs s)"
    "same_out (set (addrs (plug fs (plug1 f s)))) m m'" .
  then have "zip_in m' (hs @ fs) s" using zip_plug [of m' fs] zip_plug [of m' "hs @ fs"] by (simp add: plug_append)
  with m' show ?thesis unfolding loop_result_def using del_loop_unfold [OF z] st by simp
qed

lemma del_round_red:
  assumes z: "zip_in m (f # fs) s" "s \<noteq> Lf"
    and st: "del_step (root s) m = map_option (\<lambda>m. (m, True, root s)) F"
    and F: "\<exists>m'. F = Some m' \<and> sub_in m' (up fs) (plug [g, h] s) \<and> same_out (set (addrs (plug1 f s))) m m'"
    and rt: "root (plug [g, h] s) = root (plug1 f s)" "mset (addrs (plug [g, h] s)) = mset (addrs (plug1 f s))"
    and IH: "\<And>m. zip_in m (g # h # fs) s \<Longrightarrow> loop_result m (g # h # fs) s hs"
  shows "loop_result m (f # fs) s hs"
proof -
  have "zip_in m fs (plug1 f s)" using z by (simp add: zip_cons)
  from zip_replace_ex1 [OF this F rt] obtain m' where m': "F = Some m'" "zip_in m' fs (plug [g, h] s)"
    "same_out (set (addrs (plug fs (plug1 f s)))) m m'" .
  moreover have "set (addrs (plug (g # h # fs) s)) = set (addrs (plug (f # fs) s))"
    using rt(2) by (simp add: set_addrs_plug) (metis set_mset_mset)
  ultimately show ?thesis
    using IH [of m'] del_loop_unfold [OF z] st same_out_trans [OF m'(3)]
    by (auto simp: loop_result_def zip_cons)
qed

lemma del_round_up:
  assumes z: "zip_in m (f # fs) s" "s \<noteq> Lf" and sib: "sib f = Nd NODE_BLACK l b k v r"
    and st: "del_step (root s) m =
      Some (set_color (faddr f) NODE_BLACK (set_color b NODE_RED m), fcol f = NODE_BLACK, faddr f)"
    and f': "f' = paint_sib NODE_RED (fpaint NODE_BLACK f)"
    and IH: "\<And>m. fcol f = NODE_BLACK \<Longrightarrow> zip_in m fs (plug1 f' s) \<Longrightarrow> loop_result m fs (plug1 f' s) hs"
    and hs: "fcol f \<noteq> NODE_BLACK \<Longrightarrow> hs = fs"
  shows "loop_result m (f # fs) s (f' # hs)"
proof -
  let ?m = "set_color (faddr f) NODE_BLACK (set_color b NODE_RED m)"
  note zr = zip_recolor [OF z(1) sib, folded f']
  have rt: "root (plug1 f' s) = faddr f" "addrs (plug1 f' s) = addrs (plug1 f s)"
    unfolding f' by (cases f; simp)+
  show ?thesis
  proof (cases "fcol f = NODE_BLACK")
    case True
    with IH [OF _ zr(1)] rt del_loop_unfold [OF z] st same_out_trans [OF zr(2)] show ?thesis
      by (auto simp: loop_result_def zip_cons set_addrs_plug)
  next
    case False
    with zr hs del_loop_unfold [OF z] st show ?thesis by (simp add: loop_result_def zip_cons)
  qed
qed


lemma del_left_round:
  assumes z: "zip_in m (FL c a k v (Nd NODE_BLACK sl sa ks vs sr) # fs) s" "s \<noteq> Lf"
    and d: "del_path (FL c a k v (Nd NODE_BLACK sl sa ks vs sr) # fs) = Some hs"
    and IH: "\<And>m t hs. colr sl \<noteq> NODE_RED \<Longrightarrow> colr sr \<noteq> NODE_RED \<Longrightarrow> c = NODE_BLACK \<Longrightarrow> zip_in m fs t \<Longrightarrow> t \<noteq> Lf
      \<Longrightarrow> del_path fs = Some hs \<Longrightarrow> loop_result m fs t hs"
  shows "loop_result m (FL c a k v (Nd NODE_BLACK sl sa ks vs sr) # fs) s hs"
proof -
  have sub: "sub_in m (up fs) (Nd c s a k v (Nd NODE_BLACK sl sa ks vs sr))" using z zip_sub by (simp add: zip_cons)
  consider (near) cw wl w kw vw wr where "colr sl = NODE_RED" "sl = Nd cw wl w kw vw wr"
    | (far) cw wl w kw vw wr where "colr sl \<noteq> NODE_RED" "colr sr = NODE_RED" "sr = Nd cw wl w kw vw wr"
    | (up) "colr sl \<noteq> NODE_RED" "colr sr \<noteq> NODE_RED"
    by (cases sl; cases sr) auto
  then show ?thesis
  proof cases
    case near
    with d have "hs = [FL NODE_BLACK w k v wl, FL c a kw vw (Nd NODE_BLACK wr sa ks vs sr)] @ fs" by auto
    then show ?thesis
      by (elim ssubst, intro del_round_done [OF z, where F = "del_left_near a sa m"])
        (use near del_step_left [OF z] del_left_near_in [OF sub [unfolded near] z(2)] in simp_all)
  next
    case far
    with d have "hs = [FL NODE_BLACK sa k v sl, FL c a ks vs (Nd NODE_BLACK wl w kw vw wr)] @ fs" by auto
    then show ?thesis
      by (elim ssubst, intro del_round_done [OF z, where F = "del_left_far a sa m"])
        (use far del_step_left [OF z] del_left_far_in [OF sub [unfolded far] z(2)] in simp_all)
  next
    case up
    with d obtain hs' where hs: "hs = FL NODE_BLACK a k v (Nd NODE_RED sl sa ks vs sr) # hs'"
      "(if c = NODE_BLACK then del_path fs else Some fs) = Some hs'" by auto
    show ?thesis unfolding hs(1)
      by (rule del_round_up [OF z]) (use up hs(2) IH del_step_left [OF z] in auto)
  qed
qed

lemma del_right_round:
  assumes z: "zip_in m (FR c a k v (Nd NODE_BLACK sl sa ks vs sr) # fs) s" "s \<noteq> Lf"
    and d: "del_path (FR c a k v (Nd NODE_BLACK sl sa ks vs sr) # fs) = Some hs"
    and IH: "\<And>m t hs. colr sr \<noteq> NODE_RED \<Longrightarrow> colr sl \<noteq> NODE_RED \<Longrightarrow> c = NODE_BLACK \<Longrightarrow> zip_in m fs t \<Longrightarrow> t \<noteq> Lf
      \<Longrightarrow> del_path fs = Some hs \<Longrightarrow> loop_result m fs t hs"
  shows "loop_result m (FR c a k v (Nd NODE_BLACK sl sa ks vs sr) # fs) s hs"
proof -
  have sub: "sub_in m (up fs) (Nd c (Nd NODE_BLACK sl sa ks vs sr) a k v s)" using z zip_sub by (simp add: zip_cons)
  consider (near) cw wl w kw vw wr where "colr sr = NODE_RED" "sr = Nd cw wl w kw vw wr"
    | (far) cw wl w kw vw wr where "colr sr \<noteq> NODE_RED" "colr sl = NODE_RED" "sl = Nd cw wl w kw vw wr"
    | (up) "colr sr \<noteq> NODE_RED" "colr sl \<noteq> NODE_RED"
    by (cases sl; cases sr) auto
  then show ?thesis
  proof cases
    case near
    with d have "hs = [FR NODE_BLACK w k v wr, FR c a kw vw (Nd NODE_BLACK sl sa ks vs wl)] @ fs" by auto
    then show ?thesis
      by (elim ssubst, intro del_round_done [OF z, where F = "del_right_near a sa m"])
        (use near del_step_right [OF z] del_right_near_in [OF sub [unfolded near] z(2)] in simp_all)
  next
    case far
    with d have "hs = [FR NODE_BLACK sa k v sr, FR c a ks vs (Nd NODE_BLACK wl w kw vw wr)] @ fs" by auto
    then show ?thesis
      by (elim ssubst, intro del_round_done [OF z, where F = "del_right_far a sa m"])
        (use far del_step_right [OF z] del_right_far_in [OF sub [unfolded far] z(2)] in simp_all)
  next
    case up
    with d obtain hs' where hs: "hs = FR NODE_BLACK a k v (Nd NODE_RED sl sa ks vs sr) # hs'"
      "(if c = NODE_BLACK then del_path fs else Some fs) = Some hs'" by auto
    show ?thesis unfolding hs(1)
      by (rule del_round_up [OF z]) (use up hs(2) IH del_step_right [OF z] in auto)
  qed
qed

lemma del_loop_in:
  assumes "zip_in m fs s" "s \<noteq> Lf" "del_path fs = Some hs"
  shows "loop_result m fs s hs"
  using assms
proof (induction fs arbitrary: m s hs rule: del_path.induct)
  case 1
  then have "is_node (rb_base m) (root s)" "rb_par m (root s) = 0" by (cases s; simp add: zip_in_def)+
  then have "del_loop True (root s) m = Some m" by (subst del_loop.simps) simp
  with 1 show ?case by (auto simp: loop_result_def same_out_def)
next
  case (3 c a k v sl sa ks vs sr fs)
  show ?case by (rule del_left_round [OF "3.prems"]) (rule "3.IH")
next
  case (4 c a k v sl sa ks vs sr fs)
  have z: "zip_in m (FL c a k v (Nd NODE_RED sl sa ks vs sr) # fs) s" "s \<noteq> Lf" and sr: "sr \<noteq> Lf"
    and d: "del_path (FL NODE_RED sa k v sl # FL c a ks vs sr # fs) = Some hs"
    using "4.prems" by (auto split: if_splits)
  have sub: "sub_in m (up fs) (Nd c s a k v (Nd NODE_RED sl sa ks vs sr))" using z zip_sub by (simp add: zip_cons)
  show ?case
    by (rule del_round_red [OF z, where g = "FL NODE_RED sa k v sl" and h = "FL c a ks vs sr" and F = "del_left_red a sa m"])
      (use del_step_left [OF z] del_left_red_in [OF sub z(2) sr] "4.IH" [OF sr _ z(2) d] in auto)
next
  case (6 c a k v sl sa ks vs sr fs)
  show ?case by (rule del_right_round [OF "6.prems"]) (rule "6.IH")
next
  case (7 c a k v sl sa ks vs sr fs)
  have z: "zip_in m (FR c a k v (Nd NODE_RED sl sa ks vs sr) # fs) s" "s \<noteq> Lf" and sl: "sl \<noteq> Lf"
    and d: "del_path (FR NODE_RED sa k v sr # FR c a ks vs sl # fs) = Some hs"
    using "7.prems" by (auto split: if_splits)
  have sub: "sub_in m (up fs) (Nd c (Nd NODE_RED sl sa ks vs sr) a k v s)" using z zip_sub by (simp add: zip_cons)
  show ?case
    by (rule del_round_red [OF z, where g = "FR NODE_RED sa k v sr" and h = "FR c a ks vs sl" and F = "del_right_red a sa m"])
      (use del_step_right [OF z] del_right_red_in [OF sub z(2) sl] "7.IH" [OF sl _ z(2) d] in auto)
qed simp_all


text \<open>The choice of the node to free.\<close>

lemma zip_set_key:
  assumes "zip_in m fs (Nd c l a k v r)"
  shows "zip_in (m\<lparr>rb_key := (rb_key m)(a := k')\<rparr>) fs (Nd c l a k' v r)"
    and "zip_in (m\<lparr>rb_key := (rb_key m)(a := k'), rb_val := (rb_val m)(a := v')\<rparr>) fs (Nd c l a k' v' r)"
proof -
  show k: "zip_in (m\<lparr>rb_key := (rb_key m)(a := k')\<rparr>) fs (Nd c l a k' v r)" using assms by (auto simp: zip_in_def)
  have "zip_in (m\<lparr>rb_val := (rb_val m)(a := v')\<rparr>) fs (Nd c l a k v' r)"
    if "zip_in m fs (Nd c l a k v r)" for m k using that by (auto simp: zip_in_def)
  from this [OF k] show "zip_in (m\<lparr>rb_key := (rb_key m)(a := k'), rb_val := (rb_val m)(a := v')\<rparr>) fs (Nd c l a k' v' r)"
    by simp
qed

lemma zip_set_key_up:
  assumes "zip_in m (gs @ FL c a k v r # fs) t"
  shows "zip_in (m\<lparr>rb_key := (rb_key m)(a := k')\<rparr>) (gs @ FL c a k' v r # fs) t"
proof -
  from assms have "zip_in m fs (Nd c (plug gs t) a k v r)"
    using zip_plug [of m fs] zip_plug [of m "gs @ FL c a k v r # fs"] by (simp add: plug_append)
  from zip_set_key(1) [OF this, of k'] show ?thesis
    using zip_plug [of _ fs] zip_plug [of _ "gs @ FL c a k' v r # fs"] by (simp add: plug_append)
qed

lemma same_out_kv:
  "a \<in> A \<Longrightarrow> same_out A m (m\<lparr>rb_key := (rb_key m)(a := k)\<rparr>)"
  "a \<in> A \<Longrightarrow> same_out A m (m\<lparr>rb_key := (rb_key m)(a := k), rb_val := (rb_val m)(a := v)\<rparr>)"
  by (auto simp: same_out_def)

lemma zip_nodes: "zip_in m fs (Nd c l a k v r) \<Longrightarrow> is_node (rb_base m) a \<and> rb_key m a = k \<and> rb_val m a = v
    \<and> rb_left m a = root l \<and> rb_right m a = root r \<and> rb_color m a = c \<and> rb_par m a = up fs
    \<and> tree_in m l \<and> tree_in m r \<and> live (rb_base m) l \<and> live (rb_base m) r"
  by (auto simp: zip_in_def intro: tree_f_live)

lemma up_not_in:
  assumes "zip_in m fs (Nd c l a k v r)" "fs \<noteq> []"
  shows "root (plug fs (Nd c l a k v r)) \<noteq> a"
proof -
  have "faddr (last fs) \<in> set (paddrs fs)" using assms(2) by (induction fs) auto
  with assms show ?thesis by (auto simp: zip_in_def root_plug)
qed

lemma del_pick_in:
  assumes z: "zip_in m fs (Nd c l a k v r)" and p: "pick (Nd c l a k v r) fs = (d, gs)"
    and h: "head = root (plug fs (Nd c l a k v r))"
  shows "\<exists>m'. del_pick head a m = Some (m', if gs = [] then 0 else head, root d) \<and> zip_in m' gs d
     \<and> same_out (set (addrs (plug fs (Nd c l a k v r)))) m m'"
proof (cases l)
  case Lf
  note n = zip_nodes [OF z]
  show ?thesis
  proof (cases r)
    case Lf
    with \<open>l = Lf\<close> n p h z up_not_in [OF z] show ?thesis by (auto simp: del_pick_def same_out_def)
  next
    case (Nd cr rl ra kr vr rr)
    with n have nr: "is_node (rb_base m) ra" "rb_key m ra = kr" "rb_val m ra = vr" by auto
    have "zip_in (m\<lparr>rb_key := (rb_key m)(a := kr), rb_val := (rb_val m)(a := vr)\<rparr>) (FR c a kr vr Lf # fs) r"
      using zip_set_key(2) [OF z] \<open>l = Lf\<close> by (simp add: zip_cons)
    with \<open>l = Lf\<close> Nd n nr p h same_out_kv(2) [of a] show ?thesis
      by (auto simp: del_pick_def set_addrs_plug)
  qed
next
  case (Nd cl ll la kl vl lr)
  note n = zip_nodes [OF z]
  let ?A = "set (addrs (plug fs (Nd c l a k v r)))"
  obtain cm ml ma km vm ps where mx: "max_node l [] = (Nd cm ml ma km vm Lf, ps)"
      "plug ps (Nd cm ml ma km vm Lf) = l"
    using max_node_shape [of l "[]"] Nd by auto
  have zm: "zip_in m (ps @ FL c a k v r # fs) (Nd cm ml ma km vm Lf)"
    using z mx(2) zip_plug [of m fs] zip_plug [of m "ps @ FL c a k v r # fs"] by (simp add: plug_append)
  note nm = zip_nodes [OF zm]
  have loop: "max_loop la m = Some ma" using max_loop_in [of m l "[]"] n Nd mx by simp
  let ?m1 = "m\<lparr>rb_key := (rb_key m)(a := km)\<rparr>"
  note z1 = zip_set_key_up [OF zm, of km]
  note n1 = zip_nodes [OF z1]
  have A: "a \<in> ?A" "ma \<in> ?A" using mx(2) by (auto simp: set_addrs_plug)
  have base: "rb_left m a = la" "la \<noteq> 0" using n Nd by auto
  show ?thesis
  proof (cases ml)
    case Lf
    with Nd mx p n nm n1 base loop z1 same_out_kv(1) [OF A(1)] show ?thesis by (auto simp: del_pick_def)
  next
    case (Nd cn nl na kn vn nr)
    then have nn: "is_node (rb_base m) na" "rb_key ?m1 na = kn" "rb_val ?m1 na = vn" using n1 by auto
    let ?m2 = "?m1\<lparr>rb_key := (rb_key ?m1)(ma := kn), rb_val := (rb_val ?m1)(ma := vn)\<rparr>"
    have "zip_in ?m2 (FL cm ma kn vn Lf # ps @ FL c a km v r # fs) ml"
      using zip_set_key(2) [OF z1, where k' = kn and v' = vn] unfolding zip_cons by simp
    moreover have "same_out ?A m ?m2" by (rule same_out_trans [OF same_out_kv(1) [OF A(1)] same_out_kv(2) [OF A(2)]])
    moreover have "del_pick head a m = Some (?m2, head, na)"
      using Nd n nm n1 nn base loop by (simp add: del_pick_def)
    ultimately show ?thesis using Nd p mx \<open>l = Nd cl ll la kl vl lr\<close> by auto
  qed
qed

text \<open>The deleted leaf is unlinked.\<close>

lemma unlink_in:
  assumes "zip_in m gs (Nd c Lf d k v Lf)"
  shows "\<exists>m'. unlink d m = Some m' \<and> zip_in m' gs Lf \<and> same_out (set (paddrs gs)) m m'"
proof (cases gs)
  case Nil
  with assms show ?thesis by (auto simp: unlink_def zip_in_def same_out_def)
next
  case (Cons f fs)
  have "root s \<noteq> d" if "is_node b d" "d \<notin> set (addrs s)" for b s using that by (cases s) auto
  with assms Cons show ?thesis by (cases f) (auto simp: unlink_def zip_in_def same_out_def)
qed


end
