(* ===== verification/Rbstore.thy ===== *)
theory Rbstore
  imports Rbheap
begin

text \<open>
  The operations of \<^verbatim>\<open>lib/rbtree.c\<close> on the whole store: sixteen trees that share one pool of
  nodes. The invariant says which tree value each tree of the pool represents and that every node
  handed out so far is in exactly one tree or in the queue of freed nodes. Insertion, deletion and
  search are then operations on ordered lists of items.
\<close>

subsection \<open>The invariant\<close>

definition pool_ok :: "rb_state \<Rightarrow> bool" where
  "pool_ok s \<longleftrightarrow> (\<forall>i < RBTREE_NODE_POOL_NUM. node_addr (rb_base (nodes s)) i \<noteq> 0
     \<and> avail_item (ls s) (free_q s) (node_addr (rb_base (nodes s)) i - 16))"

definition owned :: "rbt list \<Rightarrow> u64 multiset" where
  "owned Ts = mset (concat (map addrs Ts))"

text \<open>\<open>P\<close> are nodes that were handed out and are in no tree yet, or no longer.\<close>

definition rb_own :: "rb_state \<Rightarrow> rbt list \<Rightarrow> u64 list \<Rightarrow> u64 multiset \<Rightarrow> bool" where
  "rb_own s Ts fr P \<longleftrightarrow> pool_ok s \<and> length (tree_pool s) = 16 \<and> length Ts = 16 \<and> tree_count s \<le> 16
     \<and> pool_count s \<le> RBTREE_NODE_POOL_NUM \<and> queue_at (free_q s) (ls s) fr
     \<and> (\<forall>i < 16. rb_head (tree_pool s ! i) = root (Ts ! i) \<and> zip_in (nodes s) [] (Ts ! i))
     \<and> owned Ts + mset (map (\<lambda>q. q + 16) fr) + P
        = mset (map (node_addr (rb_base (nodes s))) [0..<pool_count s])"

lemma node_offset:
  assumes "i < RBTREE_NODE_POOL_NUM"
  shows "unat (node_addr b i - b - 16) = 64 * i"
proof -
  have "unat (word_of_nat (64 * i) :: u64) = 64 * i"
    using assms by (intro of_nat_inverse) (simp_all add: RBTREE_NODE_POOL_NUM_def)
  moreover have "node_addr b i - b - 16 = word_of_nat (64 * i)" by (simp add: node_addr_def)
  ultimately show ?thesis by simp
qed

lemma node_addr_inj:
  assumes "i < RBTREE_NODE_POOL_NUM" "j < RBTREE_NODE_POOL_NUM" "node_addr b i = node_addr b j"
  shows "i = j"
proof -
  have "64 * i = 64 * j" using node_offset [OF assms(1), of b] node_offset [OF assms(2), of b] assms(3) by argo
  then show ?thesis by simp
qed

lemma node_addr_node: "i < RBTREE_NODE_POOL_NUM \<Longrightarrow> node_addr b i \<noteq> 0 \<Longrightarrow> is_node b (node_addr b i)"
  by (simp add: is_node_def node_offset)

lemma pool_distinct: "n \<le> RBTREE_NODE_POOL_NUM \<Longrightarrow> distinct (map (node_addr b) [0..<n])"
  by (auto simp: distinct_map inj_on_def intro: node_addr_inj)

lemma owned_update:
  assumes "i < length Ts"
  shows "owned (Ts[i := T]) + mset (addrs (Ts ! i)) = owned Ts + mset (addrs T)"
proof -
  have "Ts = take i Ts @ Ts ! i # drop (Suc i) Ts" using assms by (simp add: id_take_nth_drop)
  then have "owned Ts = owned (take i Ts) + mset (addrs (Ts ! i)) + owned (drop (Suc i) Ts)"
    unfolding owned_def by (metis concat_append concat.simps(2) list.map(2) map_append mset_append union_assoc)
  moreover have "owned (Ts[i := T]) = owned (take i Ts) + mset (addrs T) + owned (drop (Suc i) Ts)"
    using assms by (simp add: owned_def upd_conv_take_nth_drop)
  ultimately show ?thesis by simp
qed

lemma owned_nth:
  assumes "i < length Ts" "j < length Ts" "i \<noteq> j"
  shows "mset (addrs (Ts ! i)) + mset (addrs (Ts ! j)) \<subseteq># owned Ts"
proof -
  have "owned (Ts[i := Lf]) + mset (addrs (Ts ! i)) = owned Ts" using owned_update [OF assms(1), of Lf] by simp
  moreover have "owned ((Ts[i := Lf])[j := Lf]) + mset (addrs (Ts ! j)) = owned (Ts[i := Lf])"
    using owned_update [of j "Ts[i := Lf]" Lf] assms by simp
  ultimately have "owned Ts = owned (Ts[i := Lf, j := Lf]) + (mset (addrs (Ts ! i)) + mset (addrs (Ts ! j)))"
    by (metis union_assoc union_commute)
  then show ?thesis by simp
qed

lemma own_distinct:
  assumes "rb_own s Ts fr P" "X \<subseteq># owned Ts + mset (map (\<lambda>q. q + 16) fr) + P"
  shows "count X a \<le> 1"
proof -
  have "distinct (map (node_addr (rb_base (nodes s))) [0..<pool_count s])"
    using assms(1) by (intro pool_distinct) (simp add: rb_own_def)
  then have "count (owned Ts + mset (map (\<lambda>q. q + 16) fr) + P) a \<le> 1"
    using assms(1) unfolding rb_own_def by (simp only: distinct_count_atmost_1) simp
  with mset_subset_eq_count [OF assms(2), of a] show ?thesis by simp
qed

lemma own_disjoint:
  assumes o: "rb_own s Ts fr P" and i: "i < 16" "j < 16" "i \<noteq> j"
  shows "(set (addrs (Ts ! i)) \<union> set_mset P) \<inter> set (addrs (Ts ! j)) = {}"
proof (rule ccontr)
  assume "\<not> ?thesis"
  then obtain a where a: "a \<in> set (addrs (Ts ! j))" "a \<in> set (addrs (Ts ! i)) \<or> a \<in># P" by blast
  from o i have l: "i < length Ts" "j < length Ts" by (auto simp: rb_own_def)
  let ?X = "mset (addrs (Ts ! i)) + mset (addrs (Ts ! j)) + P"
  have "?X \<subseteq># owned Ts + mset (map (\<lambda>q. q + 16) fr) + P"
  proof -
    from owned_nth [OF l i(3)] obtain Y where "owned Ts = mset (addrs (Ts ! i)) + mset (addrs (Ts ! j)) + Y"
      by (auto simp: mset_subset_eq_exists_conv)
    then have "owned Ts + mset (map (\<lambda>q. q + 16) fr) + P = ?X + (Y + mset (map (\<lambda>q. q + 16) fr))"
      by (simp add: ac_simps)
    then show ?thesis by (metis mset_subset_eq_add_left)
  qed
  from own_distinct [OF o this, of a]
  have "count (mset (addrs (Ts ! i))) a + count (mset (addrs (Ts ! j))) a + count P a \<le> 1" by simp
  moreover have "0 < count (mset (addrs (Ts ! j))) a" "0 < count (mset (addrs (Ts ! i))) a \<or> 0 < count P a"
    using a by auto
  ultimately show False by linarith
qed

text \<open>
  An operation on one tree that keeps the nodes, up to those it took from or leaves to the caller,
  keeps the invariant; the other trees are untouched.
\<close>

lemma own_tree_update:
  assumes o: "rb_own s Ts fr P" and t: "t < 16"
    and m: "same_out (set (addrs (Ts ! t)) \<union> set_mset P) (nodes s) m" and z: "zip_in m [] T"
    and a: "mset (addrs T) + P' = mset (addrs (Ts ! t)) + P"
  shows "rb_own (set_head t (root T) (s\<lparr>nodes := m\<rparr>)) (Ts[t := T]) fr P'"
proof -
  have l: "length Ts = 16" "length (tree_pool s) = 16" using o by (auto simp: rb_own_def)
  have base: "rb_base m = rb_base (nodes s)" using m by (simp add: same_out_def)
  have trees: "rb_head ((tree_pool s)[t := (tree_pool s ! t)\<lparr>rb_head := root T\<rparr>] ! i) = root (Ts[t := T] ! i)
      \<and> zip_in m [] (Ts[t := T] ! i)" if "i < 16" for i
  proof (cases "i = t")
    case True
    with z t l show ?thesis by simp
  next
    case False
    with own_disjoint [OF o t that] have d: "(set (addrs (Ts ! t)) \<union> set_mset P) \<inter> set (addrs (Ts ! i)) = {}" by simp
    from o that have "zip_in (nodes s) [] (Ts ! i)" "rb_head (tree_pool s ! i) = root (Ts ! i)" by (auto simp: rb_own_def)
    with tree_same [OF m d] False show ?thesis by (simp add: zip_in_def)
  qed
  have "(owned (Ts[t := T]) + mset (addrs (Ts ! t))) + P' = owned Ts + (mset (addrs T) + P')"
    using owned_update [of t Ts T] t l by (simp only: union_assoc)
  then have "owned (Ts[t := T]) + P' + mset (addrs (Ts ! t)) = owned Ts + P + mset (addrs (Ts ! t))"
    unfolding a by (simp only: union_assoc union_commute [of P'] union_commute [of P])
  then have "owned (Ts[t := T]) + P' = owned Ts + P" by simp
  then have "owned (Ts[t := T]) + mset (map (\<lambda>q. q + 16) fr) + P' = owned Ts + mset (map (\<lambda>q. q + 16) fr) + P"
    by (simp only: union_assoc union_commute [of "mset (map (\<lambda>q. q + 16) fr)"]) (simp only: union_assoc [symmetric])
  with o have "owned (Ts[t := T]) + mset (map (\<lambda>q. q + 16) fr) + P'
      = mset (map (node_addr (rb_base m)) [0..<pool_count s])"
    unfolding rb_own_def base by (elim conjE) (rule trans)
  moreover have "pool_ok (set_head t (root T) (s\<lparr>nodes := m\<rparr>))"
    using o base by (simp add: rb_own_def pool_ok_def set_head_def)
  moreover have "tree_count s \<le> 16" "pool_count s \<le> RBTREE_NODE_POOL_NUM" "queue_at (free_q s) (ls s) fr"
    using o by (simp_all add: rb_own_def)
  ultimately show ?thesis using trees l unfolding rb_own_def by (simp add: set_head_def)
qed

lemma own_member:
  assumes "rb_own s Ts fr P" "a \<in># owned Ts + mset (map (\<lambda>q. q + 16) fr) + P"
  shows "is_node (rb_base (nodes s)) a \<and> avail_item (ls s) (free_q s) (a - 16)"
proof -
  from assms have "a \<in># mset (map (node_addr (rb_base (nodes s))) [0..<pool_count s])"
    unfolding rb_own_def by metis
  then obtain i where "i < pool_count s" "a = node_addr (rb_base (nodes s)) i" by auto
  with assms(1) show ?thesis
    using node_addr_node [of i "rb_base (nodes s)"] by (auto simp: rb_own_def pool_ok_def)
qed

lemma own_alloc:
  assumes o: "rb_own s Ts fr P" and n: "size (owned Ts) + size P < RBTREE_NODE_POOL_NUM"
  shows "\<exists>s' a fr'. rbtree_node_alloc s = Some (s', a) \<and> rb_own s' Ts fr' (add_mset a P)
     \<and> nodes s' = nodes s \<and> tree_pool s' = tree_pool s \<and> is_node (rb_base (nodes s)) a"
proof (cases fr)
  case Nil
  let ?a = "node_addr (rb_base (nodes s)) (pool_count s)"
  from o Nil have q: "queue_list_is_empty (free_q s) (ls s) = Some True"
    using queue_empty_at [of "free_q s" "ls s" fr] by (simp add: rb_own_def)
  have "size (owned Ts + mset (map (\<lambda>q. q + 16) fr) + P) = pool_count s"
    using o unfolding rb_own_def by (metis diff_zero length_map length_upt size_mset)
  with n Nil have p: "pool_count s < RBTREE_NODE_POOL_NUM" by simp
  then have "rbtree_node_alloc s = Some (s\<lparr>pool_count := pool_count s + 1\<rparr>, ?a)"
    using q by (simp add: rbtree_node_alloc_def)
  moreover have "rb_own (s\<lparr>pool_count := pool_count s + 1\<rparr>) Ts fr (add_mset ?a P)"
    using o p Nil by (simp add: rb_own_def pool_ok_def)
  moreover have "is_node (rb_base (nodes s)) ?a"
    using o p by (intro node_addr_node) (auto simp: rb_own_def pool_ok_def)
  ultimately show ?thesis
    by (intro exI [of _ "s\<lparr>pool_count := pool_count s + 1\<rparr>"] exI [of _ ?a] exI [of _ fr]) simp
next
  case (Cons q fr')
  from o Cons have "queue_at (free_q s) (ls s) (q # fr')" by (simp add: rb_own_def)
  then obtain h' where h': "queue_list_pop (free_q s) (ls s) = Some (h', q)" "queue_at h' (ls s) fr'"
    "h' q = Some \<lparr>lk_prev = 0, lk_next = 0\<rparr>" "\<And>y. y \<notin> set (chain (ls s) (q # fr')) \<Longrightarrow> h' y = free_q s y"
    using queue_pop_at by blast
  have e: "queue_list_is_empty (free_q s) (ls s) = Some False"
    using o Cons queue_empty_at [of "free_q s" "ls s" fr] by (simp add: rb_own_def)
  have "avail_item (ls s) h' y" if "avail_item (ls s) (free_q s) y" for y
    using that h'(3,4) h'(2) dseg_alloc [of h' 0 "chain (ls s) fr'" 0 y]
    by (cases "y \<in> set (chain (ls s) (q # fr'))") (auto simp: avail_item_def queue_at_def chain_def)
  with o Cons h'(2) have own: "rb_own (s\<lparr>free_q := h'\<rparr>) Ts fr' (add_mset (q + 16) P)"
    by (simp add: rb_own_def pool_ok_def)
  have "is_node (rb_base (nodes s)) (q + 16)" using own_member [OF o, of "q + 16"] Cons by simp
  with own h'(1) e show ?thesis by (intro exI [of _ "s\<lparr>free_q := h'\<rparr>"] exI [of _ "q + 16"] exI [of _ fr'])
      (simp add: rbtree_node_alloc_def)
qed


lemma own_enque:
  assumes o: "rb_own s Ts fr (add_mset d P)"
  shows "\<exists>q. queue_list_enque (free_q s) (ls s) (d - 16) = Some q \<and> rb_own (s\<lparr>free_q := q\<rparr>) Ts (fr @ [d - 16]) P"
proof -
  have av: "avail_item (ls s) (free_q s) (d - 16)" using own_member [OF o, of d] by simp
  have nf: "d - 16 \<notin> set fr"
  proof
    assume *: "d - 16 \<in> set fr"
    have "add_mset d (mset (map (\<lambda>q. q + 16) fr)) \<subseteq># owned Ts + mset (map (\<lambda>q. q + 16) fr) + add_mset d P" by simp
    from own_distinct [OF o this, of d] have "count (mset (map (\<lambda>q. q + 16) fr)) d = 0" by simp
    then have "d \<notin> set (map (\<lambda>q. q + 16) fr)" by (metis count_mset_0_iff)
    with * show False by force
  qed
  obtain q where q: "queue_list_enque (free_q s) (ls s) (d - 16) = Some q" "queue_at q (ls s) (fr @ [d - 16])"
      "\<And>y. avail_item (ls s) (free_q s) y \<Longrightarrow> avail_item (ls s) q y"
    using kq.enq_ok [where ls = "ls s" and s = "free_q s" and xs = fr and x = "d - 16" and cap = "Suc (length fr)"] o av nf by (auto simp: rb_own_def)
  with o show ?thesis by (auto simp: rb_own_def pool_ok_def)
qed


subsection \<open>Insertion\<close>

lemma new_node_in:
  assumes "is_node (rb_base m) a"
  shows "\<exists>m'. new_node a k v m = Some m' \<and> fresh_node m' a k v \<and> same_out {a} m m'"
  using assms by (auto simp: new_node_def fresh_node_def same_out_def)

lemma zip_same: "zip_in m [] T \<Longrightarrow> same_out A m m' \<Longrightarrow> A \<inter> set (addrs T) = {} \<Longrightarrow> zip_in m' [] T"
  using tree_same [of A m m' T] by (simp add: zip_in_def)

lemma insert_root_in:
  assumes "fresh_node m a k v"
  shows "zip_in (m\<lparr>rb_par := (rb_par m)(a := 0), rb_color := (rb_color m)(a := NODE_BLACK)\<rparr>) [] (Nd NODE_BLACK Lf a k v Lf)"
  using assms by (simp add: zip_in_def fresh_node_def)

lemma insert_nodes_in:
  assumes z: "zip_in m [] T" "T \<noteq> Lf" "balanced T" and f: "fresh_node m a k v" "a \<notin> set (addrs T)"
  shows "\<exists>m1 m'. place_loop (Some c) a (root T) m = Some m1
     \<and> fix_loop (root T) a m1 = Some (m', root (ins_tree c a k v T)) \<and> zip_in m' [] (ins_tree c a k v T)
     \<and> same_out (insert a (set (addrs T))) m m'"
proof -
  let ?n = "Nd NODE_RED Lf a k v Lf" and ?fs = "place c k T []"
  obtain m1 where m1: "place_loop (Some c) a (root T) m = Some m1" "zip_in m1 ?fs ?n"
      "same_out (insert a (set (addrs T))) m m1"
    using place_loop_in [of m "[]" T a k v c] z f by auto
  from place_balanced [OF z(3,2)] have fs: "black_top ?fs" "?fs \<noteq> []" by auto
  have rt: "root T = root (plug ?fs ?n)"
    using root_plug [OF fs(2), of Lf] root_plug [OF fs(2), of ?n] by (simp add: plug_place)
  have A: "set (addrs (plug ?fs ?n)) = insert a (set (addrs T))"
    using set_addrs_plug [of ?fs Lf] by (simp add: set_addrs_plug plug_place)
  from fix_loop_in [OF m1(2) _ fs(2,1) rt] A obtain m' where "fix_loop (root T) a m1 = Some (m', root (ins_fix ?n ?fs))"
      "zip_in m' [] (ins_fix ?n ?fs)" "same_out (insert a (set (addrs T))) m1 m'" by auto
  with m1 z(2) same_out_trans [OF m1(3)] show ?thesis by (auto simp: ins_tree_def)
qed

lemma set_head_simps [simp]:
  "nodes (set_head t p s) = nodes s" "tree_count (set_head t p s) = tree_count s"
  "map rb_comp (tree_pool (set_head t p s)) = map rb_comp (tree_pool s)"
  by (simp_all add: set_head_def map_update) (metis list_update_id map_update)

lemma own_insert:
  assumes o: "rb_own s Ts fr {#}" and t: "t < 16" and c: "rb_comp (tree_pool s ! t) = Some c"
    and b: "balanced (Ts ! t)" and n: "size (owned Ts) < RBTREE_NODE_POOL_NUM"
  shows "\<exists>s' a fr'. rbtree_insert t k v s = Some s' \<and> rb_own s' (Ts[t := ins_tree c a k v (Ts ! t)]) fr' {#}
     \<and> map rb_comp (tree_pool s') = map rb_comp (tree_pool s) \<and> tree_count s' = tree_count s"
proof -
  let ?T = "Ts ! t"
  obtain s1 a fr1 where s1: "rbtree_node_alloc s = Some (s1, a)" "rb_own s1 Ts fr1 {#a#}"
      "nodes s1 = nodes s" "tree_pool s1 = tree_pool s" "is_node (rb_base (nodes s)) a"
    using own_alloc [OF o] n by auto
  have tc: "tree_count s1 = tree_count s"
    using s1(1) by (auto simp: rbtree_node_alloc_def bind_eq_Some_conv split: if_splits)
  obtain m0 where m0: "new_node a k v (nodes s1) = Some m0" "fresh_node m0 a k v" "same_out {a} (nodes s1) m0"
    using new_node_in [of "nodes s1" a k v] s1 by auto
  have T: "zip_in (nodes s1) [] ?T" "rb_head (tree_pool s1 ! t) = root ?T" "get_tree t s1 = Some (tree_pool s1 ! t)"
    using s1(2) t by (auto simp: rb_own_def get_tree_def)
  have a: "a \<notin> set (addrs ?T)"
    using own_disjoint [OF s1(2), of "if t = 0 then 1 else 0" t] t by (auto split: if_splits)
  have z0: "zip_in m0 [] ?T" using zip_same [OF T(1) m0(3)] a by simp
  have "\<exists>m'. rbtree_insert t k v s = Some (set_head t (root (ins_tree c a k v ?T)) (s1\<lparr>nodes := m'\<rparr>))
     \<and> zip_in m' [] (ins_tree c a k v ?T) \<and> same_out (insert a (set (addrs ?T))) (nodes s1) m'"
  proof (cases "?T = Lf")
    case True
    let ?m = "m0\<lparr>rb_par := (rb_par m0)(a := 0), rb_color := (rb_color m0)(a := NODE_BLACK)\<rparr>"
    have "is_node (rb_base m0) a" using m0(2) by (simp add: fresh_node_def)
    moreover have "same_out {a} (nodes s1) ?m" using m0(3) by (auto simp: same_out_def)
    ultimately show ?thesis using True insert_root_in [OF m0(2)] s1(1) m0(1) T(2,3)
      by (intro exI [of _ ?m]) (simp add: rbtree_insert_def ins_tree_def)
  next
    case False
    then have "root ?T \<noteq> 0" using T(1) by (cases ?T) (auto simp: zip_in_def)
    moreover have "same_out (insert a (set (addrs ?T))) (nodes s1) m0" using same_out_mono [OF m0(3)] by simp
    ultimately show ?thesis using insert_nodes_in [OF z0 False b m0(2) a, of c] s1(1,4) m0(1) T(2,3) c
      by (auto simp: rbtree_insert_def dest: same_out_trans)
  qed
  then obtain m' where m': "rbtree_insert t k v s = Some (set_head t (root (ins_tree c a k v ?T)) (s1\<lparr>nodes := m'\<rparr>))"
    "zip_in m' [] (ins_tree c a k v ?T)" "same_out (insert a (set (addrs ?T))) (nodes s1) m'" by blast
  have "rb_own (set_head t (root (ins_tree c a k v ?T)) (s1\<lparr>nodes := m'\<rparr>)) (Ts[t := ins_tree c a k v ?T]) fr1 {#}"
    by (rule own_tree_update [OF s1(2) t _ m'(2)]) (use m'(3) in \<open>simp_all add: ins_tree_addrs\<close>)
  with m'(1) tc s1(4) show ?thesis by auto
qed


subsection \<open>Search and deletion\<close>

lemma own_search:
  assumes o: "rb_own s Ts fr P" and t: "t < 16" and c: "rb_comp (tree_pool s ! t) = Some c"
  shows "rbtree_search t k s = Some (root (fst (locate c k (Ts ! t) [])))"
proof -
  have "tree_in (nodes s) (Ts ! t)" "rb_head (tree_pool s ! t) = root (Ts ! t)" "get_tree t s = Some (tree_pool s ! t)"
    using o t by (auto simp: rb_own_def get_tree_def zip_in_def)
  then show ?thesis by (simp add: rbtree_search_def c search_loop_in [where fs = "[]"])
qed

text \<open>The nodes after a deletion: the tree without the leaf, and the leaf.\<close>

lemma delete_nodes_in:
  assumes z: "zip_in m [] T" and b: "balanced T" and f: "locate c k T [] = (Nd cl l a ka va r, fs)"
  obtains m1 m2 m3 d T' where "del_pick (root T) a m = Some (m1, root T', d)"
    "is_node (rb_base m1) d" "del_loop (rb_color m1 d = NODE_BLACK) d m1 = Some m2"
    "unlink d m2 = Some m3" "zip_in m3 [] T'" "same_out (set (addrs T)) m m3" "balanced T'"
    "add_mset d (mset (addrs T')) = mset (addrs T)"
    "items T' = lctx fs @ merge_items (items l) va (items r) @ rctx fs"
proof -
  let ?s = "Nd cl l a ka va r"
  have T: "plug fs ?s = T" using locate_plug [OF f] by simp
  have zs: "zip_in m fs ?s" using z zip_plug [of m fs ?s] T by simp
  obtain cd d kd vd gs where p: "pick ?s fs = (Nd cd Lf d kd vd Lf, gs)" "picked ?s fs cd d gs"
      "lctx gs @ rctx gs = lctx fs @ merge_items (items l) va (items r) @ rctx fs"
    using pick_leaf [of fs cl l a ka va r] b T by auto
  obtain m1 where m1: "del_pick (root T) a m = Some (m1, if gs = [] then 0 else root T, d)"
      "zip_in m1 gs (Nd cd Lf d kd vd Lf)" "same_out (set (addrs T)) m m1"
    using del_pick_in [OF zs p(1), of "root T"] T by auto
  obtain hs where hs: "(if cd = NODE_BLACK then del_path gs else Some gs) = Some hs" "balanced (plug hs Lf)"
      "lctx hs = lctx gs" "rctx hs = rctx gs" "mset (paddrs hs) = mset (paddrs gs)"
      "gs \<noteq> [] \<Longrightarrow> hs \<noteq> [] \<and> faddr (last hs) = faddr (last gs)"
    using del_path_balanced [OF p(2)] by blast
  have ad: "add_mset d (mset (paddrs gs)) = mset (addrs T)" using p(2) T by (simp add: picked_def)
  then have A: "set (addrs (plug gs (Nd cd Lf d kd vd Lf))) = set (addrs T)"
    by (simp add: set_addrs_plug) (metis set_mset_add_mset_insert set_mset_mset)
  obtain m2 where m2: "del_loop (cd = NODE_BLACK) d m1 = Some m2" "zip_in m2 hs (Nd cd Lf d kd vd Lf)"
      "same_out (set (addrs T)) m1 m2"
    using del_loop_in [OF m1(2), of hs] hs(1) m1(2) A
    by (cases "cd = NODE_BLACK") (auto simp: loop_result_def same_out_def)
  obtain m3 where m3: "unlink d m2 = Some m3" "zip_in m3 hs Lf" "same_out (set (paddrs hs)) m2 m3"
    using unlink_in [OF m2(2)] by blast
  have "set (addrs T) = insert d (set (paddrs hs))" using ad hs(5) by (metis set_mset_add_mset_insert set_mset_mset)
  then have "set (paddrs hs) \<subseteq> set (addrs T)" by blast
  from same_out_trans [OF same_out_trans [OF m1(3) m2(3)] same_out_mono [OF m3(3) this]]
  have so: "same_out (set (addrs T)) m m3" .
  have rt: "root (plug hs Lf) = (if gs = [] then 0 else root T)"
    using hs(1,6) p(2) T root_plug [of hs Lf] by (auto simp: picked_def split: if_splits)
  have n: "is_node (rb_base m1) d" "rb_color m1 d = cd" using zip_nodes [OF m1(2)] by auto
  show thesis
  proof (rule that [of m1 "plug hs Lf" d m2 m3])
    show "del_pick (root T) a m = Some (m1, root (plug hs Lf), d)" using m1(1) rt by simp
    show "del_loop (rb_color m1 d = NODE_BLACK) d m1 = Some m2" using m2(1) n by simp
    show "zip_in m3 [] (plug hs Lf)" using m3(2) zip_plug by blast
    show "add_mset d (mset (addrs (plug hs Lf))) = mset (addrs T)" using ad hs(5) by (simp add: addrs_plug)
    show "items (plug hs Lf) = lctx fs @ merge_items (items l) va (items r) @ rctx fs"
      using hs(3,4) p(3) by (simp add: items_plug)
  qed (fact n(1) m3(1) so hs(2))+
qed

lemma own_delete:
  assumes o: "rb_own s Ts fr {#}" and t: "t < 16" and c: "rb_comp (tree_pool s ! t) = Some c"
    and b: "balanced (Ts ! t)" and f: "locate c k (Ts ! t) [] = (Nd cl l a ka va r, fs)"
  shows "\<exists>s' T' fr'. rbtree_delete t k s = Some s' \<and> rb_own s' (Ts[t := T']) fr' {#} \<and> balanced T'
     \<and> items T' = lctx fs @ merge_items (items l) va (items r) @ rctx fs
     \<and> map rb_comp (tree_pool s') = map rb_comp (tree_pool s) \<and> tree_count s' = tree_count s"
proof -
  have T: "zip_in (nodes s) [] (Ts ! t)" "rb_head (tree_pool s ! t) = root (Ts ! t)" "get_tree t s = Some (tree_pool s ! t)"
    using o t by (auto simp: rb_own_def get_tree_def)
  obtain m1 m2 m3 d T' where d: "del_pick (root (Ts ! t)) a (nodes s) = Some (m1, root T', d)"
      "is_node (rb_base m1) d" "del_loop (rb_color m1 d = NODE_BLACK) d m1 = Some m2"
      "unlink d m2 = Some m3" "zip_in m3 [] T'" "same_out (set (addrs (Ts ! t))) (nodes s) m3" "balanced T'"
      "add_mset d (mset (addrs T')) = mset (addrs (Ts ! t))"
      "items T' = lctx fs @ merge_items (items l) va (items r) @ rctx fs"
    using delete_nodes_in [OF T(1) b f] .
  have "rb_own (set_head t (root T') (s\<lparr>nodes := m3\<rparr>)) (Ts[t := T']) fr {#d#}"
    by (rule own_tree_update [OF o t _ d(5)]) (use d(6,8) in simp_all)
  from own_enque [OF this] obtain q where q: "queue_list_enque (free_q s) (ls s) (d - 16) = Some q"
      "rb_own (set_head t (root T') (s\<lparr>nodes := m3\<rparr>)\<lparr>free_q := q\<rparr>) (Ts[t := T']) (fr @ [d - 16]) {#}"
    by (auto simp: set_head_def)
  have "rbtree_search t k s = Some a" using own_search [OF o t c, of k] f by simp
  with T d(1-4) q(1) have "rbtree_delete t k s = Some (set_head t (root T') (s\<lparr>nodes := m3\<rparr>)\<lparr>free_q := q\<rparr>)"
    by (simp add: rbtree_delete_def rbtree_node_free_def set_head_def)
  moreover have "map rb_comp (tree_pool (set_head t (root T') (s\<lparr>nodes := m3\<rparr>)\<lparr>free_q := q\<rparr>)) = map rb_comp (tree_pool s)"
    using set_head_simps(3) [of t "root T'" s] by (simp add: set_head_def)
  ultimately show ?thesis using q(2) d(7,9)
    by (intro exI [of _ "set_head t (root T') (s\<lparr>nodes := m3\<rparr>)\<lparr>free_q := q\<rparr>"] exI [of _ T'] exI [of _ "fr @ [d - 16]"])
      (simp add: set_head_def)
qed

lemma own_delete_missing:
  assumes o: "rb_own s Ts fr P" and t: "t < 16" and c: "rb_comp (tree_pool s ! t) = Some c"
    and f: "locate c k (Ts ! t) [] = (Lf, fs)"
  shows "rbtree_delete t k s = None"
  using own_search [OF o t c, of k] f o t
  by (simp add: rbtree_delete_def get_tree_def rb_own_def del_pick_def rd_def)


subsection \<open>The store as lists of items\<close>

definition rb_good :: "rb_state \<Rightarrow> rbt list \<Rightarrow> bool" where
  "rb_good s Ts \<longleftrightarrow> (\<forall>t < 16. balanced (Ts ! t) \<and> (tree_count s \<le> t \<longrightarrow> Ts ! t = Lf)
     \<and> (\<forall>c. rb_comp (tree_pool s ! t) = Some c \<longrightarrow> comp_ok c \<and> ordered c (Ts ! t)))"

definition rb_abs :: "rb_state \<Rightarrow> (u64 \<times> u64) list list \<Rightarrow> bool" where
  "rb_abs s xss \<longleftrightarrow> (\<exists>Ts fr. rb_own s Ts fr {#} \<and> rb_good s Ts \<and> xss = map items Ts)"

lemma length_items: "length (items t) = length (addrs t)"
  by (induction t) auto

lemma size_owned: "size (owned Ts) = length (concat (map items Ts))"
  by (simp add: owned_def length_concat length_items comp_def)

lemma comp_eq: "map rb_comp (tree_pool s') = map rb_comp (tree_pool s) \<Longrightarrow> length (tree_pool s) = 16 \<Longrightarrow> t < 16
    \<Longrightarrow> rb_comp (tree_pool s' ! t) = rb_comp (tree_pool s ! t)"
  by (metis length_map nth_map)

lemma good_update:
  assumes g: "rb_good s Ts" and o: "rb_own s Ts fr P" and t: "t < tree_count s"
    and s': "map rb_comp (tree_pool s') = map rb_comp (tree_pool s)" "tree_count s' = tree_count s"
    and T: "balanced T" "\<And>c. rb_comp (tree_pool s ! t) = Some c \<Longrightarrow> comp_ok c \<Longrightarrow> ordered c (Ts ! t) \<Longrightarrow> ordered c T"
  shows "rb_good s' (Ts[t := T])"
  unfolding rb_good_def
proof (intro allI impI)
  fix i :: nat
  assume i: "i < 16"
  from o have l: "length (tree_pool s) = 16" "length Ts = 16" by (auto simp: rb_own_def)
  from comp_eq [OF s'(1) l(1) i] s'(2) g i t T l
  show "balanced (Ts[t := T] ! i) \<and> (tree_count s' \<le> i \<longrightarrow> Ts[t := T] ! i = Lf)
      \<and> (\<forall>c. rb_comp (tree_pool s' ! i) = Some c \<longrightarrow> comp_ok c \<and> ordered c (Ts[t := T] ! i))"
    by (cases "i = t") (auto simp: rb_good_def)
qed

lemma abs_insert:
  assumes o: "rb_own s Ts fr {#}" and g: "rb_good s Ts" and t: "t < tree_count s"
    and c: "rb_comp (tree_pool s ! t) = Some c" and n: "length (concat (map items Ts)) < RBTREE_NODE_POOL_NUM"
  obtains s' a fr' where "rbtree_insert t k v s = Some s'" "rb_own s' (Ts[t := ins_tree c a k v (Ts ! t)]) fr' {#}"
    "rb_good s' (Ts[t := ins_tree c a k v (Ts ! t)])" "map rb_comp (tree_pool s') = map rb_comp (tree_pool s)"
    "tree_count s' = tree_count s" "items (ins_tree c a k v (Ts ! t)) = insort_item c k v (items (Ts ! t))"
proof -
  have t16: "t < 16" using o t by (simp add: rb_own_def)
  with g c have T: "balanced (Ts ! t)" "comp_ok c" "ordered c (Ts ! t)" by (auto simp: rb_good_def)
  obtain s' a fr' where s': "rbtree_insert t k v s = Some s'" "rb_own s' (Ts[t := ins_tree c a k v (Ts ! t)]) fr' {#}"
      "map rb_comp (tree_pool s') = map rb_comp (tree_pool s)" "tree_count s' = tree_count s"
    using own_insert [OF o t16 c T(1) n [folded size_owned], of k v] by blast
  have "rb_good s' (Ts[t := ins_tree c a k v (Ts ! t)])"
    by (rule good_update [OF g o t s'(3,4)]) (use T c in \<open>auto intro: ins_tree_balanced ins_tree_ordered\<close>)
  with that s' ins_tree_items [OF T(2,3)] show thesis by blast
qed

lemma own_exhausted:
  assumes o: "rb_own s Ts fr {#}" and n: "RBTREE_NODE_POOL_NUM \<le> size (owned Ts)"
  shows "rbtree_insert t k v s = None"
proof -
  have "size (owned Ts + mset (map (\<lambda>q. q + 16) fr) + {#}) = pool_count s"
    using o unfolding rb_own_def by (metis diff_zero length_map length_upt size_mset)
  then have "size (owned Ts) + length fr = pool_count s" by simp
  moreover have "pool_count s \<le> RBTREE_NODE_POOL_NUM" using o by (simp add: rb_own_def)
  ultimately have "length fr = 0" "pool_count s = RBTREE_NODE_POOL_NUM" using n by linarith+
  with o queue_empty_at [of "free_q s" "ls s" fr] show ?thesis
    by (simp add: rbtree_insert_def rbtree_node_alloc_def rb_own_def)
qed

lemma abs_locate:
  assumes o: "rb_own s Ts fr {#}" and g: "rb_good s Ts" and t: "t < tree_count s"
    and c: "rb_comp (tree_pool s ! t) = Some c"
  obtains (none) fs where "locate c k (Ts ! t) [] = (Lf, fs)" "\<And>x. x \<in> set (items (Ts ! t)) \<Longrightarrow> c (fst x) k \<noteq> 0"
    | (found) cl l a ka va r fs where "locate c k (Ts ! t) [] = (Nd cl l a ka va r, fs)" "c ka k = 0"
      "items (Ts ! t) = lctx fs @ items l @ (ka, va) # items r @ rctx fs" "zip_in (nodes s) fs (Nd cl l a ka va r)"
proof -
  have t16: "t < 16" using o t by (simp add: rb_own_def)
  with g c have T: "comp_ok c" "ordered c (Ts ! t)" by (auto simp: rb_good_def)
  have z: "zip_in (nodes s) [] (Ts ! t)" using o t16 by (simp add: rb_own_def)
  obtain u fs where f: "locate c k (Ts ! t) [] = (u, fs)" by fastforce
  show thesis
  proof (cases u)
    case Lf
    with f none locate_none [OF T, of k "[]" fs] show thesis by auto
  next
    case (Nd cl l a ka va r)
    with f z found locate_plug [OF f] locate_key [of c k "Ts ! t" "[]" cl l a ka va r fs]
      items_plug [of fs u] zip_plug [of "nodes s" fs u] show thesis by auto
  qed
qed


lemma abs_delete:
  assumes o: "rb_own s Ts fr {#}" and g: "rb_good s Ts" and t: "t < tree_count s"
    and c: "rb_comp (tree_pool s ! t) = Some c" and f: "locate c k (Ts ! t) [] = (Nd cl l a ka va r, fs)"
    and it: "items (Ts ! t) = lctx fs @ items l @ (ka, va) # items r @ rctx fs"
  obtains s' T' fr' where "rbtree_delete t k s = Some s'" "rb_own s' (Ts[t := T']) fr' {#}" "rb_good s' (Ts[t := T'])"
    "items T' = lctx fs @ merge_items (items l) va (items r) @ rctx fs"
    "map rb_comp (tree_pool s') = map rb_comp (tree_pool s)" "tree_count s' = tree_count s"
proof -
  let ?zs = "lctx fs @ merge_items (items l) va (items r) @ rctx fs"
  have t16: "t < 16" using o t by (simp add: rb_own_def)
  with g have b: "balanced (Ts ! t)" by (auto simp: rb_good_def)
  from own_delete [OF o t16 c b f] obtain s' T' fr' where s':
    "rbtree_delete t k s = Some s'" "rb_own s' (Ts[t := T']) fr' {#}" "balanced T'" "items T' = ?zs"
    "map rb_comp (tree_pool s') = map rb_comp (tree_pool s)" "tree_count s' = tree_count s" by blast
  have "map fst ?zs = map fst (lctx fs @ items l) @ map fst (items r @ rctx fs)" by (simp add: merge_items_keys)
  then have "ordered c' T'" if "ordered c' (Ts ! t)" for c'
    using that it s'(4) by (simp add: ordered_def sorted_wrt_append)
  from good_update [OF g o t s'(5,6) s'(3) this] s' that show thesis by blast
qed

text \<open>Insertion and search, on the lists of items.\<close>

lemma insert_store:
  assumes a: "rb_abs s xss" and t: "t < tree_count s" and c: "rb_comp (tree_pool s ! t) = Some c"
    and n: "length (concat xss) < RBTREE_NODE_POOL_NUM"
  shows "\<exists>s'. rbtree_insert t k v s = Some s' \<and> rb_abs s' (xss[t := insort_item c k v (xss ! t)])
     \<and> map rb_comp (tree_pool s') = map rb_comp (tree_pool s) \<and> tree_count s' = tree_count s"
proof -
  from a obtain Ts fr where Ts: "rb_own s Ts fr {#}" "rb_good s Ts" "xss = map items Ts"
    by (auto simp: rb_abs_def)
  then have l: "t < length Ts" using t by (simp add: rb_own_def)
  from abs_insert [OF Ts(1,2) t c n [unfolded Ts(3)], of k v] obtain s' a fr' where
    s': "rbtree_insert t k v s = Some s'" "rb_own s' (Ts[t := ins_tree c a k v (Ts ! t)]) fr' {#}"
    "rb_good s' (Ts[t := ins_tree c a k v (Ts ! t)])" "map rb_comp (tree_pool s') = map rb_comp (tree_pool s)"
    "tree_count s' = tree_count s" "items (ins_tree c a k v (Ts ! t)) = insort_item c k v (items (Ts ! t))" .
  have "rb_abs s' (xss[t := insort_item c k v (xss ! t)])"
    using s'(2,3) by (auto simp: rb_abs_def Ts(3) map_update s'(6) l)
  with s' show ?thesis by simp
qed

lemma search_store:
  assumes "rb_abs s xss" and "t < tree_count s" and "rb_comp (tree_pool s ! t) = Some c"
  shows "\<exists>p. rbtree_search t k s = Some p
     \<and> (if \<exists>x \<in> set (xss ! t). c (fst x) k = 0
        then is_node (rb_base (nodes s)) p \<and> c (rb_key (nodes s) p) k = 0
          \<and> (rb_key (nodes s) p, rb_val (nodes s) p) \<in> set (xss ! t)
        else p = 0)"
proof -
  from assms(1) obtain Ts fr where Ts: "rb_own s Ts fr {#}" "rb_good s Ts" "xss = map items Ts"
    by (auto simp: rb_abs_def)
  then have t: "t < 16" "xss ! t = items (Ts ! t)" using assms(2) by (simp_all add: rb_own_def)
  note se = own_search [OF Ts(1) t(1) assms(3), of k]
  from Ts(1,2) assms(2,3) show ?thesis
  proof (cases rule: abs_locate [of s Ts fr t c k])
    case (none fs)
    with se t show ?thesis by auto
  next
    case (found cl l a ka va r fs)
    with se t zip_nodes [OF found(4)] show ?thesis by auto
  qed
qed

text \<open>A comparison of numbers and an example store with one empty tree.\<close>

definition num_cmp :: comp_fn where
  "num_cmp a b = (if a < b then 1 else if a = b then 0 else - 1)"

definition demo_store :: rb_state where
  "demo_store = \<lparr>nodes = \<lparr>rb_base = 0x1000, rb_key = \<lambda>_. 0, rb_val = \<lambda>_. 0, rb_par = \<lambda>_. 0, rb_left = \<lambda>_. 0,
       rb_right = \<lambda>_. 0, rb_color = \<lambda>_. NODE_RED\<rparr>, pool_count = 0, ls = 0x100,
     free_q = (\<lambda>_. Some \<lparr>lk_prev = 0, lk_next = 0\<rparr>)
       (0x100 \<mapsto> \<lparr>lk_prev = 0, lk_next = 0x110\<rparr>, 0x110 \<mapsto> \<lparr>lk_prev = 0x100, lk_next = 0\<rparr>),
     tree_pool = \<lparr>rb_head = 0, rb_comp = Some num_cmp\<rparr> # replicate 15 \<lparr>rb_head = 0, rb_comp = None\<rparr>,
     tree_count = 1\<rparr>"

lemma num_cmp_ok: "comp_ok num_cmp"
  by (auto simp: comp_ok_def num_cmp_def)

lemma demo_pool:
  assumes "i < RBTREE_NODE_POOL_NUM"
  shows "unat (node_addr 0x1000 i) = 4112 + 64 * i"
proof -
  have "node_addr 0x1000 i = word_of_nat (4112 + 64 * i)" by (simp add: node_addr_def)
  also have "unat \<dots> = 4112 + 64 * i" using assms by (intro of_nat_inverse) (simp_all add: RBTREE_NODE_POOL_NUM_def)
  finally show ?thesis .
qed

lemma demo_own: "rb_own demo_store (replicate 16 Lf) [] {#}"
proof -
  have "node_addr 0x1000 i \<noteq> x" if "i < RBTREE_NODE_POOL_NUM" "unat x < 4112" for i x
    using demo_pool [OF that(1)] that(2) by auto
  from this [of _ 0] this [of _ "0x10"] this [of _ "0x110"] this [of _ "0x120"] have "pool_ok demo_store"
    by (auto simp: pool_ok_def demo_store_def avail_item_def q_head_def q_tail_def diff_eq_eq)
  moreover have "queue_at (free_q demo_store) 0x100 []" by (simp add: demo_store_def queue_defs)
  moreover have "\<forall>i<16. rb_head (tree_pool demo_store ! i) = 0"
    by (auto simp: demo_store_def nth_Cons split: nat.splits)
  ultimately show ?thesis
    by (simp add: rb_own_def owned_def zip_in_def) (simp add: demo_store_def)
qed

lemma demo_good: "rb_good demo_store (replicate 16 Lf)"
  using num_cmp_ok by (auto simp: rb_good_def balanced_def ordered_def demo_store_def nth_Cons split: nat.splits)

lemma demo_abs: "rb_abs demo_store (replicate 16 [])"
  using demo_own demo_good by (auto simp: rb_abs_def intro!: exI [of _ "replicate 16 Lf"])

lemma demo_comp: "rb_comp (tree_pool demo_store ! 0) = Some num_cmp" "tree_count demo_store = 1"
  by (simp_all add: demo_store_def)

subsection \<open>Properties\<close>

text \<open>
  C16. \<^verbatim>\<open>rbtree_insert\<close> adds the item to its tree in front of the items with an equal key and
  behind all smaller ones; the tree stays balanced and ordered, the other trees that share the node
  pool are not changed, and the call ends. It fails exactly when all 1024 nodes are in use.
\<close>

theorem rbtree_insert_correct:
  assumes "rb_abs s xss" and "t < tree_count s" and "rb_comp (tree_pool s ! t) = Some c"
  shows "if length (concat xss) < RBTREE_NODE_POOL_NUM
     then \<exists>s'. rbtree_insert t k v s = Some s' \<and> rb_abs s' (xss[t := insort_item c k v (xss ! t)])
       \<and> map rb_comp (tree_pool s') = map rb_comp (tree_pool s) \<and> tree_count s' = tree_count s
     else rbtree_insert t k v s = None"
proof (cases "length (concat xss) < RBTREE_NODE_POOL_NUM")
  case True
  with insert_store [OF assms True] show ?thesis by simp
next
  case False
  from assms(1) obtain Ts fr where "rb_own s Ts fr {#}" "xss = map items Ts" by (auto simp: rb_abs_def)
  with False own_exhausted [of s Ts fr t k v] show ?thesis by (simp add: size_owned)
qed

theorem rbtree_insert_correct_witness:
  "\<exists>s'. rbtree_insert 0 5 50 demo_store = Some s' \<and> rb_abs s' ((replicate 16 [])[0 := [(5, 50)]])"
  using rbtree_insert_correct [OF demo_abs, of 0 num_cmp 5 50]
  by (auto simp: demo_comp RBTREE_NODE_POOL_NUM_def insort_item_def numeral_eq_Suc)

text \<open>
  C18. \<^verbatim>\<open>rbtree_search\<close> ends and finds what is there: it returns the null pointer exactly when no
  key of the tree is equal to the one searched, and else a node whose key is equal and whose key
  and value are an item of the tree.
\<close>

theorem rbtree_search_correct:
  assumes "rb_abs s xss" and "t < tree_count s" and "rb_comp (tree_pool s ! t) = Some c"
  shows "\<exists>p. rbtree_search t k s = Some p
     \<and> (if \<exists>x \<in> set (xss ! t). c (fst x) k = 0
        then is_node (rb_base (nodes s)) p \<and> c (rb_key (nodes s) p) k = 0
          \<and> (rb_key (nodes s) p, rb_val (nodes s) p) \<in> set (xss ! t)
        else p = 0)"
  using search_store [OF assms] .


text \<open>
  C17. \<^verbatim>\<open>rbtree_delete\<close> of a key that the tree holds ends and removes one item with an equal key: the
  keys of the tree are those before without it, the tree stays balanced and ordered, the other trees
  are not changed and the node is free again. The values are not always kept: when the removed item
  is not the first, its value may replace that of the item before it. If the tree has no equal key,
  the call dereferences the null pointer.
\<close>

theorem rbtree_delete_correct:
  assumes "rb_abs s xss" and "t < tree_count s" and "rb_comp (tree_pool s ! t) = Some c"
  shows "if \<exists>x \<in> set (xss ! t). c (fst x) k = 0
     then \<exists>s' xs k' v' ys zs. rbtree_delete t k s = Some s' \<and> xss ! t = xs @ (k', v') # ys \<and> c k' k = 0
       \<and> rb_abs s' (xss[t := zs]) \<and> map fst zs = map fst xs @ map fst ys
       \<and> (zs = xs @ ys \<or> xs \<noteq> [] \<and> zs = butlast xs @ (fst (last xs), v') # ys)
     else rbtree_delete t k s = None"
proof -
  from assms(1) obtain Ts fr where Ts: "rb_own s Ts fr {#}" "rb_good s Ts" "xss = map items Ts"
    by (auto simp: rb_abs_def)
  then have t: "t < 16" "xss ! t = items (Ts ! t)" using assms(2) by (simp_all add: rb_own_def)
  from Ts(1,2) assms(2,3) show ?thesis
  proof (cases rule: abs_locate [of s Ts fr t c k])
    case (none fs)
    with own_delete_missing [OF Ts(1) t(1) assms(3)] t show ?thesis by auto
  next
    case (found cl l a ka va r fs)
    let ?zs = "lctx fs @ merge_items (items l) va (items r) @ rctx fs"
    from abs_delete [OF Ts(1,2) assms(2,3) found(1,3)] obtain s' T' fr' where s': "rbtree_delete t k s = Some s'"
      "rb_own s' (Ts[t := T']) fr' {#}" "rb_good s' (Ts[t := T'])" "items T' = ?zs" .
    have keys: "map fst ?zs = map fst (lctx fs @ items l) @ map fst (items r @ rctx fs)" by (simp add: merge_items_keys)
    have "rb_abs s' (xss[t := ?zs])" using s'(2-4) by (auto simp: rb_abs_def Ts(3) map_update)
    moreover have "?zs = (lctx fs @ items l) @ items r @ rctx fs \<or> lctx fs @ items l \<noteq> []
        \<and> ?zs = butlast (lctx fs @ items l) @ (fst (last (lctx fs @ items l)), va) # items r @ rctx fs"
      by (auto simp: merge_items_def butlast_append)
    moreover have "xss ! t = (lctx fs @ items l) @ (ka, va) # items r @ rctx fs" using found(3) t(2) by simp
    moreover from this have ex: "\<exists>x \<in> set (xss ! t). c (fst x) k = 0" using found(2) by auto
    ultimately show ?thesis unfolding if_P [OF ex] using s'(1) found(2) keys by blast
  qed
qed


text \<open>The example store with the tree \<open>T\<close>.\<close>

definition demo_at :: "rb_state \<Rightarrow> rbt \<Rightarrow> bool" where
  "demo_at s T \<longleftrightarrow> (\<exists>fr. rb_own s ((replicate 16 Lf)[0 := T]) fr {#} \<and> rb_good s ((replicate 16 Lf)[0 := T])
     \<and> map rb_comp (tree_pool s) = map rb_comp (tree_pool demo_store) \<and> tree_count s = 1)"

lemma demo_at_start: "demo_at demo_store Lf"
  using demo_own demo_good demo_comp(2) unfolding demo_at_def by (metis list_update_id nth_replicate zero_less_numeral)

lemma demo_at_facts:
  assumes "demo_at s T"
  shows "rb_abs s ((replicate 16 [])[0 := items T])" and "tree_count s = 1" and "rb_comp (tree_pool s ! 0) = Some num_cmp"
proof -
  from assms show "tree_count s = 1" by (auto simp: demo_at_def)
  from assms show "rb_abs s ((replicate 16 [])[0 := items T])"
    unfolding demo_at_def rb_abs_def by (elim exE conjE) (intro exI conjI, assumption+, simp add: map_update)
  from assms comp_eq [of s demo_store 0] show "rb_comp (tree_pool s ! 0) = Some num_cmp"
    by (auto simp: demo_at_def demo_comp) (simp add: demo_store_def)
qed

lemma demo_insert:
  assumes d: "demo_at s T" and n: "length (items T) < 3"
  obtains s' a where "rbtree_insert 0 k v s = Some s'" "demo_at s' (ins_tree num_cmp a k v T)"
proof -
  let ?Ts = "(replicate 16 Lf)[0 := T]"
  from d obtain fr where o: "rb_own s ?Ts fr {#}" "rb_good s ?Ts"
      "map rb_comp (tree_pool s) = map rb_comp (tree_pool demo_store)" by (auto simp: demo_at_def)
  have "length (concat (map items ?Ts)) < RBTREE_NODE_POOL_NUM"
    using n by (simp add: RBTREE_NODE_POOL_NUM_def numeral_eq_Suc)
  moreover have "0 < tree_count s" using demo_at_facts(2) [OF d] by simp
  ultimately obtain s' a fr' where "rbtree_insert 0 k v s = Some s'"
      "rb_own s' (?Ts[0 := ins_tree num_cmp a k v (?Ts ! 0)]) fr' {#}"
      "rb_good s' (?Ts[0 := ins_tree num_cmp a k v (?Ts ! 0)])" "map rb_comp (tree_pool s') = map rb_comp (tree_pool s)"
      "tree_count s' = tree_count s"
    using abs_insert [OF o(1,2) _ demo_at_facts(3) [OF d], of k v] by metis
  moreover have "?Ts[0 := ins_tree num_cmp a k v (?Ts ! 0)] = (replicate 16 Lf)[0 := ins_tree num_cmp a k v T]" by simp
  ultimately have "demo_at s' (ins_tree num_cmp a k v T)"
    unfolding demo_at_def using o(3) demo_at_facts(2) [OF d] by auto
  with \<open>rbtree_insert 0 k v s = Some s'\<close> show thesis by (rule that)
qed

theorem rbtree_search_correct_witness:
  "\<exists>s p. rbtree_insert 0 5 50 demo_store = Some s \<and> rbtree_search 0 5 s = Some p
     \<and> rb_key (nodes s) p = 5 \<and> rb_val (nodes s) p = 50 \<and> rbtree_search 0 6 s = Some 0"
proof -
  obtain s a where s1: "rbtree_insert 0 5 50 demo_store = Some s" and d: "demo_at s (ins_tree num_cmp a 5 50 Lf)"
    using demo_insert [OF demo_at_start] by (metis items.simps(1) list.size(3) zero_less_numeral)
  have s: "rbtree_insert 0 5 50 demo_store = Some s" "rb_abs s ((replicate 16 [])[0 := [(5, 50)]])"
    "tree_count s = 1" "rb_comp (tree_pool s ! 0) = Some num_cmp"
    using s1 demo_at_facts [OF d] by (simp_all add: ins_tree_def)
  with rbtree_search_correct [OF s(2), of 0 num_cmp 5] rbtree_search_correct [OF s(2), of 0 num_cmp 6]
  show ?thesis by (auto simp: num_cmp_def)
qed

theorem rbtree_delete_correct_witness:
  "\<exists>s s'. rbtree_insert 0 5 50 demo_store = Some s \<and> rbtree_delete 0 5 s = Some s'
     \<and> rb_abs s' (replicate 16 []) \<and> rbtree_delete 0 6 s = None"
proof -
  obtain s a where s1: "rbtree_insert 0 5 50 demo_store = Some s" and d: "demo_at s (ins_tree num_cmp a 5 50 Lf)"
    using demo_insert [OF demo_at_start] by (metis items.simps(1) list.size(3) zero_less_numeral)
  have s: "rbtree_insert 0 5 50 demo_store = Some s" "rb_abs s ((replicate 16 [])[0 := [(5, 50)]])"
    "tree_count s = 1" "rb_comp (tree_pool s ! 0) = Some num_cmp"
    using s1 demo_at_facts [OF d] by (simp_all add: ins_tree_def)
  have "\<exists>s'. rbtree_delete 0 5 s = Some s' \<and> rb_abs s' ((replicate 16 [])[0 := []])"
    using rbtree_delete_correct [OF s(2), of 0 num_cmp 5] s(3,4) by (auto simp: num_cmp_def Cons_eq_append_conv)
  with s rbtree_delete_correct [OF s(2), of 0 num_cmp 6] show ?thesis
    by (auto simp: num_cmp_def numeral_eq_Suc)
qed


lemma own_zip: "rb_own s Ts fr P \<Longrightarrow> t < 16 \<Longrightarrow> zip_in (nodes s) [] (Ts ! t)"
  by (simp add: rb_own_def)

lemma items_Nil: "items t = [] \<longleftrightarrow> t = Lf"
  by (cases t) auto

text \<open>
  A deletion can attach a value to the wrong key: with the keys 1 and 2 in the tree, inserted as 2
  and then 1 with the values 20 and 10, \<^verbatim>\<open>rbtree_delete\<close> of 2 leaves the key 1 with the value 20.
\<close>

theorem rbtree_delete_wrong_value:
  "\<exists>s1 s2 s3 p. rbtree_insert 0 2 20 demo_store = Some s1 \<and> rbtree_insert 0 1 10 s1 = Some s2
     \<and> rbtree_delete 0 2 s2 = Some s3 \<and> rbtree_search 0 1 s3 = Some p \<and> rb_val (nodes s3) p = 20"
proof -
  obtain s1 a1 where s1: "rbtree_insert 0 2 20 demo_store = Some s1" "demo_at s1 (ins_tree num_cmp a1 2 20 Lf)"
    using demo_insert [OF demo_at_start] by (metis items.simps(1) list.size(3) zero_less_numeral)
  then have d1: "demo_at s1 (Nd NODE_BLACK Lf a1 2 20 Lf)" by (simp add: ins_tree_def)
  obtain s2 a2 where s2: "rbtree_insert 0 1 10 s1 = Some s2" "demo_at s2 (ins_tree num_cmp a2 1 10 (Nd NODE_BLACK Lf a1 2 20 Lf))"
    by (rule demo_insert [OF d1]) auto
  let ?T = "Nd NODE_BLACK (Nd NODE_RED Lf a2 1 10 Lf) a1 2 20 Lf" and ?Ts = "replicate 16 Lf"
  from s2 have d2: "demo_at s2 ?T" by (simp add: ins_tree_def num_cmp_def)
  then obtain fr where o2: "rb_own s2 (?Ts[0 := ?T]) fr {#}" by (auto simp: demo_at_def)
  have l: "locate num_cmp 2 (?Ts[0 := ?T] ! 0) [] = (?T, [])" "balanced (?Ts[0 := ?T] ! 0)"
    by (simp_all add: num_cmp_def balanced_def)
  from own_delete [OF o2 _ demo_at_facts(3) [OF d2] l(2,1)] obtain s3 T3 fr3 where s3:
      "rbtree_delete 0 2 s2 = Some s3" "rb_own s3 (?Ts[0 := ?T, 0 := T3]) fr3 {#}" "items T3 = [(1, 20)]"
      "map rb_comp (tree_pool s3) = map rb_comp (tree_pool s2)"
    by (auto simp: merge_items_def)
  from s3(3) obtain c3 a3 where T3: "T3 = Nd c3 Lf a3 1 20 Lf"
    by (cases T3) (auto simp: append_eq_Cons_conv items_Nil)
  have c3: "rb_comp (tree_pool s3 ! 0) = Some num_cmp"
    using comp_eq [OF s3(4), of 0] o2 demo_at_facts(3) [OF d2] by (simp add: rb_own_def)
  have "rbtree_search 0 1 s3 = Some a3"
    using own_search [OF s3(2) _ c3, of 1] by (simp add: T3 num_cmp_def)
  moreover have "rb_val (nodes s3) a3 = 20" using own_zip [OF s3(2), of 0] by (simp add: T3 zip_in_def)
  ultimately show ?thesis using s1(1) s2(1) s3(1) by blast
qed


subsection \<open>Reachable stores\<close>

text \<open>
  The static data before \<^verbatim>\<open>rbtree_init\<close>, and the stores that the operations reach from it, with trees
  allocated for ordering comparisons.
\<close>

definition rb_start :: "rb_state \<Rightarrow> bool" where
  "rb_start s \<longleftrightarrow> pool_ok s \<and> ls s \<noteq> 0 \<and> q_tail (ls s) \<noteq> 0 \<and> free_q s (q_head (ls s)) \<noteq> None
     \<and> free_q s (q_tail (ls s)) \<noteq> None \<and> tree_pool s = replicate 16 \<lparr>rb_head = 0, rb_comp = None\<rparr>
     \<and> tree_count s = 0 \<and> pool_count s = 0"

inductive rb_reach :: "rb_state \<Rightarrow> bool" where
  reach_init: "rb_start s \<Longrightarrow> rbtree_init s = Some s' \<Longrightarrow> rb_reach s'"
| reach_alloc: "rb_reach s \<Longrightarrow> comp_ok c \<Longrightarrow> rbtree_alloc (Some c) s = Some (s', t) \<Longrightarrow> rb_reach s'"
| reach_insert: "rb_reach s \<Longrightarrow> t < tree_count s \<Longrightarrow> rbtree_insert t k v s = Some s' \<Longrightarrow> rb_reach s'"
| reach_delete: "rb_reach s \<Longrightarrow> t < tree_count s \<Longrightarrow> rbtree_delete t k s = Some s' \<Longrightarrow> rb_reach s'"

definition rb_inv :: "rb_state \<Rightarrow> rbt list \<Rightarrow> u64 list \<Rightarrow> bool" where
  "rb_inv s Ts fr \<longleftrightarrow> rb_own s Ts fr {#} \<and> rb_good s Ts \<and> (\<forall>t < tree_count s. rb_comp (tree_pool s ! t) \<noteq> None)"

lemma init_inv:
  assumes "rb_start s"
  shows "\<exists>s'. rbtree_init s = Some s' \<and> rb_inv s' (replicate 16 Lf) []"
proof -
  from assms obtain q where q: "queue_list_init (free_q s) (ls s) = Some q" "queue_at q (ls s) []"
      "\<And>y. y \<notin> {q_head (ls s), q_tail (ls s)} \<Longrightarrow> q y = free_q s y"
    using queue_init_at [of "ls s" "free_q s"] by (auto simp: rb_start_def)
  have "pool_ok (s\<lparr>free_q := q\<rparr>)" using assms q(3) by (auto simp: rb_start_def pool_ok_def avail_item_def)
  with assms q(1,2) show ?thesis
    by (auto simp: rbtree_init_def rb_inv_def rb_own_def rb_good_def rb_start_def owned_def zip_in_def balanced_def)
qed

lemma alloc_inv:
  assumes i: "rb_inv s Ts fr" and c: "comp_ok c" and a: "rbtree_alloc (Some c) s = Some (s', t)"
  shows "rb_inv s' Ts fr"
proof -
  let ?n = "tree_count s"
  from a have s': "?n < length (tree_pool s)" "s' = s\<lparr>tree_pool := (tree_pool s)[?n := \<lparr>rb_head = 0, rb_comp = Some c\<rparr>],
      tree_count := ?n + 1\<rparr>" by (auto simp: rbtree_alloc_def split: if_splits)
  with i have n: "?n < 16" "Ts ! ?n = Lf" by (auto simp: rb_inv_def rb_own_def rb_good_def)
  have "rb_own s' Ts fr {#}" using i s' n by (auto simp: rb_inv_def rb_own_def pool_ok_def nth_list_update)
  moreover have "rb_good s' Ts" using i c s' n by (auto simp: rb_inv_def rb_good_def nth_list_update ordered_def)
  moreover have "\<forall>t < tree_count s'. rb_comp (tree_pool s' ! t) \<noteq> None"
    using i s' by (auto simp: rb_inv_def nth_list_update less_Suc_eq)
  ultimately show ?thesis by (simp add: rb_inv_def)
qed

lemma keep_comps:
  assumes "rb_inv s Ts fr" "map rb_comp (tree_pool s') = map rb_comp (tree_pool s)" "tree_count s' = tree_count s"
    and "rb_own s' Ts' fr' {#}" "rb_good s' Ts'"
  shows "rb_inv s' Ts' fr'"
proof -
  have "rb_comp (tree_pool s' ! t) \<noteq> None" if "t < tree_count s'" for t
    using comp_eq [OF assms(2), of t] that assms(1,3) by (auto simp: rb_inv_def rb_own_def)
  with assms(4,5) show ?thesis by (simp add: rb_inv_def)
qed


lemma insert_inv:
  assumes i: "rb_inv s Ts fr" and t: "t < tree_count s" and r: "rbtree_insert t k v s = Some s'"
  shows "\<exists>Ts' fr'. rb_inv s' Ts' fr'"
proof -
  from i have o: "rb_own s Ts fr {#}" "rb_good s Ts" by (auto simp: rb_inv_def)
  from i t obtain c where c: "rb_comp (tree_pool s ! t) = Some c" by (auto simp: rb_inv_def)
  have "length (concat (map items Ts)) < RBTREE_NODE_POOL_NUM"
    using own_exhausted [OF o(1), of t k v] r by (metis not_le option.distinct(1) size_owned)
  from abs_insert [OF o t c this, of k v] r keep_comps [OF i] show ?thesis by (metis option.inject)
qed

lemma delete_inv:
  assumes i: "rb_inv s Ts fr" and t: "t < tree_count s" and r: "rbtree_delete t k s = Some s'"
  shows "\<exists>Ts' fr'. rb_inv s' Ts' fr'"
proof -
  from i have o: "rb_own s Ts fr {#}" "rb_good s Ts" by (auto simp: rb_inv_def)
  from i t obtain c where c: "rb_comp (tree_pool s ! t) = Some c" by (auto simp: rb_inv_def)
  from o t c show ?thesis
  proof (cases rule: abs_locate [of s Ts fr t c k])
    case (none fs)
    have "t < 16" using o(1) t by (simp add: rb_own_def)
    with own_delete_missing [OF o(1) _ c none(1)] r show ?thesis by simp
  next
    case (found cl l a ka va r' fs)
    from abs_delete [OF o t c found(1,3)] r keep_comps [OF i] show ?thesis by (metis option.inject)
  qed
qed

lemma reach_inv: "rb_reach s \<Longrightarrow> \<exists>Ts fr. rb_inv s Ts fr"
proof (induction rule: rb_reach.induct)
  case (reach_init s s')
  then show ?case using init_inv by fastforce
qed (blast intro: alloc_inv insert_inv delete_inv)+

text \<open>The depth of a balanced tree.\<close>

fun depth :: "rbt \<Rightarrow> nat" where
  "depth Lf = 0"
| "depth (Nd c l a k v r) = Suc (max (depth l) (depth r))"

lemma depth_bh: "invc t \<Longrightarrow> invh t \<Longrightarrow> depth t \<le> 2 * bh t + (if colr t = NODE_RED then 1 else 0)"
  by (induction t) (auto simp: color_cases split: if_splits)

lemma bh_items: "invh t \<Longrightarrow> 2 ^ bh t \<le> length (items t) + 1"
  by (induction t) (auto simp: max_def split: if_splits)

lemma balanced_depth: "balanced t \<Longrightarrow> 2 ^ ((depth t + 1) div 2) \<le> length (items t) + 1"
proof -
  assume b: "balanced t"
  with depth_bh [of t] have "(depth t + 1) div 2 \<le> bh t" by (auto simp: balanced_def)
  then have "(2 :: nat) ^ ((depth t + 1) div 2) \<le> 2 ^ bh t" by (rule power_increasing) simp
  also have "\<dots> \<le> length (items t) + 1" using bh_items [of t] b by (simp add: balanced_def)
  finally show ?thesis .
qed

text \<open>
  C19. Every store that the operations reach from the initialised one is well formed: each of the
  sixteen trees is a red-black tree in the order of its comparison, its links in both directions
  agree, its depth is at most twice the logarithm of its number of items, and each node handed out
  from the pool is in exactly one tree or in the queue of freed nodes.
\<close>

theorem rbtree_store_well_formed:
  assumes "rb_reach s"
  shows "\<exists>Ts fr. rb_own s Ts fr {#} \<and> rb_good s Ts
     \<and> list_all (\<lambda>T. 2 ^ ((depth T + 1) div 2) \<le> length (items T) + 1) Ts"
proof -
  from reach_inv [OF assms] obtain Ts fr where i: "rb_own s Ts fr {#}" "rb_good s Ts" by (auto simp: rb_inv_def)
  then have "list_all (\<lambda>T. 2 ^ ((depth T + 1) div 2) \<le> length (items T) + 1) Ts"
    unfolding list_all_length rb_own_def rb_good_def using balanced_depth by auto
  with i show ?thesis by blast
qed

theorem rbtree_store_well_formed_witness:
  "\<exists>s. rbtree_init (demo_store\<lparr>tree_pool := replicate 16 \<lparr>rb_head = 0, rb_comp = None\<rparr>, tree_count := 0\<rparr>) = Some s
     \<and> (\<exists>Ts fr. rb_own s Ts fr {#} \<and> rb_good s Ts)"
proof -
  let ?s = "demo_store\<lparr>tree_pool := replicate 16 \<lparr>rb_head = 0, rb_comp = None\<rparr>, tree_count := 0\<rparr>"
  have "pool_ok ?s" using demo_own by (simp add: rb_own_def pool_ok_def)
  then have st: "rb_start ?s" by (simp add: rb_start_def demo_store_def q_head_def q_tail_def)
  then obtain s where s: "rbtree_init ?s = Some s" using init_inv by blast
  from rbtree_store_well_formed [OF reach_init [OF st s]] s show ?thesis by blast
qed


end
