(* ===== verification/Rbclient.thy ===== *)
theory Rbclient
  imports Rbstore
begin

text \<open>
  The interface a client of the red-black trees relies on, a store of items under keys, what
  follows from it for a sequence of insertions, and its implementation by the operations of
  \<^verbatim>\<open>lib/rbtree.c\<close> on one tree of the pool.
\<close>

subsection \<open>Stores of items under keys\<close>

text \<open>
  \<open>holds s X\<close>: the store \<open>s\<close> holds the items \<open>X\<close>; \<open>same x k\<close>: an item with the key \<open>x\<close> answers a
  request for \<open>k\<close>; \<open>get\<close> returns such an item, if there is one.
\<close>

locale keyed_store =
  fixes ins :: "'k \<Rightarrow> 'v \<Rightarrow> 's \<Rightarrow> 's option" and get :: "'k \<Rightarrow> 's \<Rightarrow> ('k \<times> 'v) option option"
    and same :: "'k \<Rightarrow> 'k \<Rightarrow> bool" and holds :: "'s \<Rightarrow> ('k \<times> 'v) multiset \<Rightarrow> bool" and cap :: nat
  assumes ins_ok: "holds s X \<Longrightarrow> size X < cap \<Longrightarrow> \<exists>s'. ins k v s = Some s' \<and> holds s' (add_mset (k, v) X)"
    and get_none: "holds s X \<Longrightarrow> get k s = Some None \<longleftrightarrow> (\<forall>x \<in># X. \<not> same (fst x) k)"
    and get_some: "holds s X \<Longrightarrow> \<exists>r. get k s = Some r \<and> (\<forall>x. r = Some x \<longrightarrow> x \<in># X \<and> same (fst x) k)"

primrec ins_all :: "('k \<Rightarrow> 'v \<Rightarrow> 's \<Rightarrow> 's option) \<Rightarrow> ('k \<times> 'v) list \<Rightarrow> 's \<Rightarrow> 's option" where
  "ins_all ins [] s = Some s"
| "ins_all ins (p # ps) s = ins (fst p) (snd p) s \<bind> ins_all ins ps"

context keyed_store
begin

lemma ins_all_ok:
  "holds s X \<Longrightarrow> size X + length ps \<le> cap \<Longrightarrow> \<exists>s'. ins_all ins ps s = Some s' \<and> holds s' (X + mset ps)"
proof (induction ps arbitrary: s X)
  case (Cons p ps)
  then obtain s1 where s1: "ins (fst p) (snd p) s = Some s1" "holds s1 (add_mset p X)"
    using ins_ok [of s X "fst p" "snd p"] by auto
  with Cons.IH [OF s1(2)] Cons.prems(2) show ?case by simp
qed simp

lemma get_only:
  assumes "holds s X" and "x \<in># X" and "same (fst x) k" and "\<And>y. y \<in># X \<Longrightarrow> same (fst y) k \<Longrightarrow> y = x"
  shows "get k s = Some (Some x)"
proof -
  obtain r where r: "get k s = Some r" "\<And>y. r = Some y \<Longrightarrow> y \<in># X \<and> same (fst y) k"
    using get_some [OF assms(1)] by blast
  show ?thesis
  proof (cases r)
    case None
    then have "\<forall>y \<in># X. \<not> same (fst y) k" using r(1) get_none [OF assms(1), of k] by simp
    with assms(2,3) show ?thesis by blast
  next
    case (Some y)
    with r(2) [of y] assms(4) [of y] r(1) show ?thesis by simp
  qed
qed

text \<open>Items inserted under different keys are all found again.\<close>

lemma ins_all_get:
  assumes "holds s X" and "size X + length ps \<le> cap"
    and "\<And>x p. x \<in># X \<Longrightarrow> p \<in> set ps \<Longrightarrow> \<not> same (fst x) (fst p)"
    and "\<And>p q. p \<in> set ps \<Longrightarrow> q \<in> set ps \<Longrightarrow> same (fst q) (fst p) \<longleftrightarrow> q = p"
  shows "\<exists>s'. ins_all ins ps s = Some s' \<and> holds s' (X + mset ps)
     \<and> (\<forall>p \<in> set ps. get (fst p) s' = Some (Some p))"
proof -
  obtain s' where s': "ins_all ins ps s = Some s'" "holds s' (X + mset ps)"
    using ins_all_ok [OF assms(1,2)] by blast
  have "get (fst p) s' = Some (Some p)" if "p \<in> set ps" for p
  proof (rule get_only [OF s'(2)])
    show "same (fst p) (fst p)" using assms(4) [OF that that] by simp
    show "y = p" if "y \<in># X + mset ps" "same (fst y) (fst p)" for y
      using that assms(3) [of y p] assms(4) [of p y] \<open>p \<in> set ps\<close> by (auto simp del: split_paired_All)
  qed (use that in simp)
  with s' show ?thesis by blast
qed

end

subsection \<open>A tree of the pool is a store\<close>

text \<open>What a caller of \<^verbatim>\<open>rbtree_search\<close> reads from the node it returns.\<close>

definition rb_get :: "nat \<Rightarrow> u64 \<Rightarrow> rb_state \<Rightarrow> (u64 \<times> u64) option option" where
  "rb_get t k s = do {
     p \<leftarrow> rbtree_search t k s;
     if p = 0 then Some None
     else do { x \<leftarrow> rd rb_key p (nodes s); y \<leftarrow> rd rb_val p (nodes s); Some (Some (x, y)) }
   }"

text \<open>The tree \<open>t\<close>, compared by \<open>c\<close>, holds \<open>X\<close>, and the other trees \<open>n\<close> items.\<close>

definition rb_holds :: "nat \<Rightarrow> comp_fn \<Rightarrow> nat \<Rightarrow> rb_state \<Rightarrow> (u64 \<times> u64) multiset \<Rightarrow> bool" where
  "rb_holds t c n s X \<longleftrightarrow> (\<exists>xss. rb_abs s xss \<and> t < tree_count s \<and> rb_comp (tree_pool s ! t) = Some c
     \<and> mset (xss ! t) = X \<and> length (concat xss) = size X + n)"

lemma mset_insort_item: "mset (insort_item c k v xs) = add_mset (k, v) (mset xs)"
proof -
  have "mset xs = mset (takeWhile (\<lambda>x. 0 < c (fst x) k) xs) + mset (dropWhile (\<lambda>x. 0 < c (fst x) k) xs)"
    by (metis mset_append takeWhile_dropWhile_id)
  then show ?thesis by (simp add: insort_item_def)
qed

lemma length_concat_update:
  "t < length xss \<Longrightarrow> length (concat (xss[t := ys])) + length (xss ! t) = length (concat xss) + length ys"
proof (induction xss arbitrary: t)
  case (Cons xs xss)
  then show ?case by (cases t) auto
qed simp

lemma rb_abs_length: "rb_abs s xss \<Longrightarrow> length xss = 16 \<and> tree_count s \<le> 16 \<and> length (tree_pool s) = 16"
  by (auto simp: rb_abs_def rb_own_def)

lemma rb_get_search:
  assumes "rb_abs s xss" "t < tree_count s" "rb_comp (tree_pool s ! t) = Some c"
  shows "\<exists>r. rb_get t k s = Some r \<and> (case r of None \<Rightarrow> \<forall>x \<in> set (xss ! t). c (fst x) k \<noteq> 0
     | Some x \<Rightarrow> x \<in> set (xss ! t) \<and> c (fst x) k = 0)"
  using search_store [OF assms, of k] by (auto simp: rb_get_def split: if_splits)

interpretation rbs: keyed_store "rbtree_insert t" "rb_get t" "\<lambda>x k. c x k = 0" "rb_holds t c n"
    "RBTREE_NODE_POOL_NUM - n"
  for t c n
proof unfold_locales
  fix s X k v
  assume "rb_holds t c n s X" "size X < RBTREE_NODE_POOL_NUM - n"
  then obtain xss where x: "rb_abs s xss" "t < tree_count s" "rb_comp (tree_pool s ! t) = Some c" "mset (xss ! t) = X"
      "length (concat xss) = size X + n" "length (concat xss) < RBTREE_NODE_POOL_NUM" by (auto simp: rb_holds_def)
  have t: "t < 16" "t < length xss" using rb_abs_length [OF x(1)] x(2) by auto
  obtain s' where s': "rbtree_insert t k v s = Some s'" "rb_abs s' (xss[t := insort_item c k v (xss ! t)])"
      "map rb_comp (tree_pool s') = map rb_comp (tree_pool s)" "tree_count s' = tree_count s"
    using insert_store [OF x(1-3,6)] by blast
  have "length (concat (xss[t := insort_item c k v (xss ! t)])) = size (add_mset (k, v) X) + n"
  proof -
    have "length (insort_item c k v (xss ! t)) = Suc (length (xss ! t))"
      using arg_cong [OF mset_insort_item [of c k v "xss ! t"], of size] by simp
    moreover have "size X = length (xss ! t)" using x(4) by (metis size_mset)
    ultimately show ?thesis
      using length_concat_update [OF t(2), of "insort_item c k v (xss ! t)"] x(5) by simp
  qed
  moreover have "rb_comp (tree_pool s' ! t) = Some c"
    using comp_eq [OF s'(3) _ t(1)] rb_abs_length [OF x(1)] x(3) by simp
  ultimately have "rb_holds t c n s' (add_mset (k, v) X)"
    unfolding rb_holds_def using s'(2,4) x(2,4) t(2) by (intro exI [of _ "xss[t := insort_item c k v (xss ! t)]"])
      (simp add: mset_insort_item)
  with s'(1) show "\<exists>s'. rbtree_insert t k v s = Some s' \<and> rb_holds t c n s' (add_mset (k, v) X)" by blast
next
  fix s X k
  assume "rb_holds t c n s X"
  then obtain xss where x: "rb_abs s xss" "t < tree_count s" "rb_comp (tree_pool s ! t) = Some c" "X = mset (xss ! t)"
    by (auto simp: rb_holds_def)
  obtain r where r: "rb_get t k s = Some r" "case r of None \<Rightarrow> \<forall>x \<in> set (xss ! t). c (fst x) k \<noteq> 0
      | Some x \<Rightarrow> x \<in> set (xss ! t) \<and> c (fst x) k = 0"
    using rb_get_search [OF x(1-3), of k] by blast
  show "rb_get t k s = Some None \<longleftrightarrow> (\<forall>x \<in># X. c (fst x) k \<noteq> 0)"
    using r x(4) by (cases r) (simp, fastforce)
  show "\<exists>r. rb_get t k s = Some r \<and> (\<forall>x. r = Some x \<longrightarrow> x \<in># X \<and> c (fst x) k = 0)"
    using r x(4) by (cases r) auto
qed

subsection \<open>Properties\<close>

text \<open>
  C20. Items inserted into a tree under pairwise different new keys are all found again with their
  values: as long as the pool has nodes for them, each \<^verbatim>\<open>rbtree_insert\<close> of the sequence succeeds, and
  afterwards \<^verbatim>\<open>rbtree_search\<close> for each of the keys returns the node with that key and its value.
\<close>

theorem rbtree_insert_all_search:
  assumes "rb_abs s xss" and "t < tree_count s" and "rb_comp (tree_pool s ! t) = Some c"
    and "length (concat xss) + length ps \<le> RBTREE_NODE_POOL_NUM"
    and "\<And>x p. x \<in> set (xss ! t) \<Longrightarrow> p \<in> set ps \<Longrightarrow> c (fst x) (fst p) \<noteq> 0"
    and "\<And>p q. p \<in> set ps \<Longrightarrow> q \<in> set ps \<Longrightarrow> c (fst q) (fst p) = 0 \<longleftrightarrow> q = p"
  shows "\<exists>s'. ins_all (rbtree_insert t) ps s = Some s' \<and> (\<forall>p \<in> set ps. rb_get t (fst p) s' = Some (Some p))"
proof -
  have "t < length xss" using rb_abs_length [OF assms(1)] assms(2) by simp
  then have l: "length (concat xss) = length (xss ! t) + length (concat (xss[t := []]))"
    using length_concat_update [of t xss "[]"] by simp
  then have "rb_holds t c (length (concat (xss[t := []]))) s (mset (xss ! t))"
    unfolding rb_holds_def using assms(1-3) by (intro exI [of _ xss]) simp
  moreover have "size (mset (xss ! t)) + length ps \<le> RBTREE_NODE_POOL_NUM - length (concat (xss[t := []]))"
    using assms(4) l by simp
  ultimately show ?thesis
    using rbs.ins_all_get [of t c "length (concat (xss[t := []]))" s "mset (xss ! t)" ps] assms(5,6)
    by (metis set_mset_mset)
qed

theorem rbtree_insert_all_search_witness:
  "\<exists>s. ins_all (rbtree_insert 0) [(7, 70), (3, 30), (9, 90)] demo_store = Some s
     \<and> rb_get 0 3 s = Some (Some (3, 30)) \<and> rb_get 0 9 s = Some (Some (9, 90))"
proof -
  let ?ps = "[(7, 70), (3, 30), (9, 90)] :: (u64 \<times> u64) list"
  have "\<exists>s'. ins_all (rbtree_insert 0) ?ps demo_store = Some s' \<and> (\<forall>p \<in> set ?ps. rb_get 0 (fst p) s' = Some (Some p))"
  proof (rule rbtree_insert_all_search [OF demo_abs, of 0 num_cmp])
    show "num_cmp (fst q) (fst p) = 0 \<longleftrightarrow> q = p" if "p \<in> set ?ps" "q \<in> set ?ps" for p q
      using that by (auto simp: num_cmp_def)
  qed (simp_all add: demo_comp RBTREE_NODE_POOL_NUM_def numeral_eq_Suc)
  then show ?thesis by auto
qed

end
