(* ===== verification/App.thy ===== *)
theory App
  imports Exception
begin

text \<open>
  The application \<^verbatim>\<open>app/shell/main.c\<close> on the kernel: its calls of \<^verbatim>\<open>putc\<close> (\<^verbatim>\<open>app/syscall.S\<close>) put the
  character in \<open>x0\<close> and the number of the call in \<open>x8\<close> and execute \<^verbatim>\<open>svc\<close>, which enters
  \<^verbatim>\<open>handle_sync_exception\<close> with the registers as the trap frame. The other registers of the program
  are those of the frame \<open>regs i\<close> at the call number \<open>i\<close>, any values.
\<close>

subsection \<open>Model\<close>

definition app_putc :: "dev \<Rightarrow> nat \<Rightarrow> u64 \<Rightarrow> u32 \<Rightarrow> trap_frame_t \<Rightarrow> u8 \<Rightarrow> system \<Rightarrow> (system \<times> trap_frame_t) res" where
  "app_putc dev c sp esr f ch s =
     handle_sync_exception dev s c sp (set_frame_reg (set_frame_reg f 0 (ucast ch)) 8 0) esr"

text \<open>The body of the loop of \<^verbatim>\<open>main\<close>: its ten calls, here with the list of characters they pass.\<close>

definition shell_chars :: "u8 list" where
  "shell_chars = [65, 66, 67, 68, 69, 70, 71, 72, 13, 10]"

fun shell_calls :: "dev \<Rightarrow> nat \<Rightarrow> u64 \<Rightarrow> u32 \<Rightarrow> (nat \<Rightarrow> trap_frame_t) \<Rightarrow> nat \<Rightarrow> u8 list \<Rightarrow> system \<Rightarrow> system res" where
  "shell_calls dev c sp esr regs i [] s = Ret s"
| "shell_calls dev c sp esr regs i (ch # chs) s =
     bind_res (app_putc dev c sp esr (regs i) ch s) (\<lambda>(s, f). shell_calls dev c sp esr regs (Suc i) chs s)"

text \<open>The first \<open>n\<close> rounds of the endless loop.\<close>

fun shell_main :: "dev \<Rightarrow> nat \<Rightarrow> u64 \<Rightarrow> u32 \<Rightarrow> (nat \<Rightarrow> trap_frame_t) \<Rightarrow> nat \<Rightarrow> nat \<Rightarrow> system \<Rightarrow> system res" where
  "shell_main dev c sp esr regs i 0 s = Ret s"
| "shell_main dev c sp esr regs i (Suc n) s =
     bind_res (shell_calls dev c sp esr regs i shell_chars s) (shell_main dev c sp esr regs (i + length shell_chars) n)"

subsection \<open>A system call is a character sink\<close>

definition app_ready :: "dev \<Rightarrow> nat \<Rightarrow> nat \<Rightarrow> system \<Rightarrow> bool" where
  "app_ready dev c n s \<longleftrightarrow> ti_current (threads (tasks s) c) \<noteq> None \<and> uart_op s \<noteq> None \<and> console_room dev n s"

lemma app_putc_sends:
  assumes r: "app_ready dev c (Suc n) s" and e: "esr_class esr = 0x15" and f: "wf_frame f"
  shows "\<exists>s' f'. app_putc dev c sp esr f ch s = Ret (s', f') \<and> console_sent s' = console_sent s @ [ch]
     \<and> app_ready dev c n s'"
proof -
  let ?f = "set_frame_reg (set_frame_reg f 0 (ucast ch)) 8 0"
  have fr: "frame_reg ?f 8 = 0" "frame_reg ?f 0 = ucast ch"
    using f by (simp_all add: frame_reg_set wf_set_frame_reg)
  from r obtain cur where cur: "ti_current (threads (tasks s) c) = Some cur" by (auto simp: app_ready_def)
  define k where "k = upd_cpu (tcb_cpu_info (task_list (tasks s) ! cur)) (\<lambda>p. p\<lparr>cpu_ctx := ?f, cpu_pctx := sp\<rparr>) (tasks s)"
  have k: "save_cpu_ctx (tasks s) c sp ?f = Some k" "ti_current (threads k c) = Some cur"
    using cur by (simp_all add: save_cpu_ctx_def k_def upd_cpu_def)
  have "uart_op (s\<lparr>tasks := k\<rparr>) \<noteq> None" "console_room dev (Suc n) (s\<lparr>tasks := k\<rparr>)"
    using r by (auto simp: app_ready_def console_room_def split: option.splits uart_ops.splits)
  from putc_console [OF this, of ch] obtain s' where s': "putc_opt dev ch (s\<lparr>tasks := k\<rparr>) = Some s'"
      "console_sent s' = console_sent (s\<lparr>tasks := k\<rparr>) @ [ch]" "uart_op s' \<noteq> None" "console_room dev n s'" by blast
  from s'(1) have p: "putc dev ch (s\<lparr>tasks := k\<rparr>) = Ret s'" by (simp add: putc_opt_def split: res.splits)
  then have "tasks s' = k"
    by (auto simp: putc_def bind_res_def split: option.splits uart_ops.splits res.splits prod.splits)
  then have "app_ready dev c n s'" using s'(3,4) k(2) by (simp add: app_ready_def)
  moreover have "console_sent (s\<lparr>tasks := k\<rparr>) = console_sent s"
    by (simp add: console_sent_def split: option.splits uart_ops.splits)
  moreover have "app_putc dev c sp esr f ch s = Ret (s', set_frame_reg ?f 0 0)"
    using e fr k(1) p by (simp add: app_putc_def handle_sync_exception_def syscall_table_def SYS_putc_def NR_SYSCALL_def
        sys_putc_def Let_def unsigned_ucast_eq take_bit_word_eq_self)
  ultimately show ?thesis using s'(2) by auto
qed

lemma shell_calls_send:
  assumes "esr_class esr = 0x15" and "\<And>i. wf_frame (regs i)"
  shows "app_ready dev c (length chs + n) s \<Longrightarrow> \<exists>s'. shell_calls dev c sp esr regs i chs s = Ret s'
     \<and> console_sent s' = console_sent s @ chs \<and> app_ready dev c n s'"
proof (induction chs arbitrary: i s)
  case (Cons ch chs)
  then obtain s1 f1 where "app_putc dev c sp esr (regs i) ch s = Ret (s1, f1)" "console_sent s1 = console_sent s @ [ch]"
      "app_ready dev c (length chs + n) s1"
    using app_putc_sends [OF _ assms(1) assms(2), of dev c "length chs + n" s sp i ch] by auto
  with Cons.IH [of s1 "Suc i"] show ?case by auto
qed simp

subsection \<open>Properties\<close>

text \<open>
  C25. From the application to the serial line: each round of the loop of the shell makes ten system
  calls, all of which return, and after \<open>n\<close> rounds exactly \<open>n\<close> times the line \<^verbatim>\<open>ABCDEFGH\<close> has been handed
  to the serial driver, in order, provided the core has a current task and the driver has room: for
  the polled driver that the device drains.
\<close>

theorem shell_output:
  assumes "esr_class esr = 0x15" and "\<And>i. wf_frame (regs i)"
    and "ti_current (threads (tasks s) c) \<noteq> None" and "uart_op s \<noteq> None"
    and "console_room dev (n * length shell_chars) s"
  shows "\<exists>s'. shell_main dev c sp esr regs i n s = Ret s' \<and> console_sent s' = console_sent s @ concat (replicate n shell_chars)"
proof -
  have "app_ready dev c (n * length shell_chars) s \<Longrightarrow> \<exists>s'. shell_main dev c sp esr regs i n s = Ret s'
      \<and> console_sent s' = console_sent s @ concat (replicate n shell_chars)" for i s
  proof (induction n arbitrary: i s)
    case (Suc n)
    then obtain s1 where "shell_calls dev c sp esr regs i shell_chars s = Ret s1"
        "console_sent s1 = console_sent s @ shell_chars" "app_ready dev c (n * length shell_chars) s1"
      using shell_calls_send [where esr = esr and regs = regs, OF assms(1,2), where dev = dev and c = c and chs = shell_chars
          and n = "n * length shell_chars" and s = s and sp = sp and i = i] by auto
    with Suc.IH [of s1 "i + length shell_chars"] show ?case by auto
  qed simp
  with assms show ?thesis by (simp add: app_ready_def)
qed

theorem shell_output_witness:
  "\<exists>s'. shell_main (\<lambda>h a. 0) 0 0 0x56000000 (\<lambda>i. demo_frame) 0 2 (demo_sys\<lparr>uart_op := Some Early_ops\<rparr>) = Ret s'
     \<and> console_sent s' = console_sent (demo_sys\<lparr>uart_op := Some Early_ops\<rparr>) @ concat (replicate 2 shell_chars)"
  by (rule shell_output)
    (simp_all add: esr_class_def signed_drop_bit_small wf_frame_def demo_frame_def demo_sys_def demo_last_def demo_values
      console_room_def drains_def)

end
