(* ===== verification/Sysregs.thy ===== *)
theory Sysregs
  imports Vcpu
begin

text \<open>
  The routines of \<^verbatim>\<open>hyper/hyper_ctx.S\<close> on memory: each moves system registers between a core and
  consecutive words, two at a time with the address advanced by sixteen. The C code reads and writes
  the same words as members of \<^verbatim>\<open>cpu_sysregs_t\<close> (\<^verbatim>\<open>include/hyper/vcpu.h\<close>). Shown here: the order of the
  instructions is the order of the members, so the routines implement the record functions of \<open>Vcpu\<close>.
\<close>

subsection \<open>Registers, members and memory\<close>

datatype sysreg =
    SCTLR_EL1 | TTBR0_EL1 | TTBR1_EL1 | TCR_EL1 | ESR_EL1 | FAR_EL1 | AFSR0_EL1 | AFSR1_EL1 | MAIR_EL1 |
    AMAIR_EL1 | CONTEXTIDR_EL1 | CPACR_EL1 | ELR_EL1 | FPCR | FPSR | MIDR_EL1 | MPIDR_EL1 | PAR_EL1 |
    SP_EL0 | SP_EL1 | SPSR_EL1 | TPIDR_EL0 | TPIDR_EL1 | TPIDRRO_EL0 | VBAR_EL1 | ACTLR_EL1 | ID_PFR0_EL1 |
    ID_PFR1_EL1 | ID_MMFR0_EL1 | ID_MMFR1_EL1 | ID_MMFR2_EL1 | ID_MMFR3_EL1 | ID_ISAR0_EL1 | ID_ISAR1_EL1 |
    ID_ISAR2_EL1 | ID_ISAR3_EL1 | ID_ISAR4_EL1 | ID_ISAR5_EL1 | MVFR0_EL1 | MVFR1_EL1 | MVFR2_EL1 |
    ID_AA64PFR0_EL1 | ID_AA64PFR1_EL1 | ID_AA64DFR0_EL1 | ID_AA64DFR1_EL1 | ID_AA64ISAR0_EL1 |
    ID_AA64ISAR1_EL1 | ID_AA64MMFR0_EL1 | ID_AA64MMFR1_EL1 | ID_AA64AFR0_EL1 | ID_AA64AFR1_EL1 | CTR_EL0 |
    CCSIDR_EL1 | CLIDR_EL1 | CSSELR_EL1 | AIDR_EL1 | REVIDR_EL1 | CNTKCTL_EL1 | CNTP_CTL_EL0 |
    CNTP_CVAL_EL0 | CNTP_TVAL_EL0 | CNTV_CTL_EL0 | CNTV_CVAL_EL0 | CNTV_TVAL_EL0 | VPIDR_EL2 | VMPIDR_EL2

type_synonym sysregs = "sysreg \<Rightarrow> u64"

type_synonym words = "u64 \<Rightarrow> u64"

text \<open>The members of the structure, in order.\<close>

definition cpu_sysregs_members :: "sysreg list" where
  "cpu_sysregs_members =
    [SCTLR_EL1, TTBR0_EL1, TTBR1_EL1, TCR_EL1, ESR_EL1, FAR_EL1, AFSR0_EL1, AFSR1_EL1, MAIR_EL1, AMAIR_EL1,
     CONTEXTIDR_EL1, CPACR_EL1, ELR_EL1, FPCR, FPSR, MIDR_EL1, MPIDR_EL1, PAR_EL1, SP_EL0, SP_EL1,
     SPSR_EL1, TPIDR_EL0, TPIDR_EL1, TPIDRRO_EL0, VBAR_EL1, ACTLR_EL1, ID_PFR0_EL1, ID_PFR1_EL1,
     ID_MMFR0_EL1, ID_MMFR1_EL1, ID_MMFR2_EL1, ID_MMFR3_EL1, ID_ISAR0_EL1, ID_ISAR1_EL1, ID_ISAR2_EL1,
     ID_ISAR3_EL1, ID_ISAR4_EL1, ID_ISAR5_EL1, MVFR0_EL1, MVFR1_EL1, MVFR2_EL1, ID_AA64PFR0_EL1,
     ID_AA64PFR1_EL1, ID_AA64DFR0_EL1, ID_AA64DFR1_EL1, ID_AA64ISAR0_EL1, ID_AA64ISAR1_EL1,
     ID_AA64MMFR0_EL1, ID_AA64MMFR1_EL1, ID_AA64AFR0_EL1, ID_AA64AFR1_EL1, CTR_EL0, CCSIDR_EL1, CLIDR_EL1,
     CSSELR_EL1, AIDR_EL1, REVIDR_EL1, CNTKCTL_EL1, CNTP_CTL_EL0, CNTP_CVAL_EL0, CNTP_TVAL_EL0,
     CNTV_CTL_EL0, CNTV_CVAL_EL0, CNTV_TVAL_EL0]"

text \<open>The operands of the instructions of the three routines, in order.\<close>

definition save_order :: "sysreg list" where
  "save_order =
    [SCTLR_EL1, TTBR0_EL1, TTBR1_EL1, TCR_EL1, ESR_EL1, FAR_EL1, AFSR0_EL1, AFSR1_EL1, MAIR_EL1, AMAIR_EL1,
     CONTEXTIDR_EL1, CPACR_EL1, ELR_EL1, FPCR, FPSR, MIDR_EL1, MPIDR_EL1, PAR_EL1, SP_EL0, SP_EL1,
     SPSR_EL1, TPIDR_EL0, TPIDR_EL1, TPIDRRO_EL0, VBAR_EL1]"

definition restore_order :: "sysreg list" where
  "restore_order =
    [SCTLR_EL1, TTBR0_EL1, TTBR1_EL1, TCR_EL1, ESR_EL1, FAR_EL1, AFSR0_EL1, AFSR1_EL1, MAIR_EL1, AMAIR_EL1,
     CONTEXTIDR_EL1, CPACR_EL1, ELR_EL1, FPCR, FPSR, VPIDR_EL2, VMPIDR_EL2, PAR_EL1, SP_EL0, SP_EL1,
     SPSR_EL1, TPIDR_EL0, TPIDR_EL1, TPIDRRO_EL0, VBAR_EL1]"

definition get_all_order :: "sysreg list" where
  "get_all_order =
    [SCTLR_EL1, TTBR0_EL1, TTBR1_EL1, TCR_EL1, ESR_EL1, FAR_EL1, AFSR0_EL1, AFSR1_EL1, MAIR_EL1, AMAIR_EL1,
     CONTEXTIDR_EL1, CPACR_EL1, ELR_EL1, FPCR, FPSR, MIDR_EL1, MPIDR_EL1, PAR_EL1, SP_EL0, SP_EL1,
     SPSR_EL1, TPIDR_EL0, TPIDR_EL1, TPIDRRO_EL0, VBAR_EL1, ACTLR_EL1, ID_PFR0_EL1, ID_PFR1_EL1,
     ID_MMFR0_EL1, ID_MMFR1_EL1, ID_MMFR2_EL1, ID_MMFR3_EL1, ID_ISAR0_EL1, ID_ISAR1_EL1, ID_ISAR2_EL1,
     ID_ISAR3_EL1, ID_ISAR4_EL1, ID_ISAR5_EL1, MVFR0_EL1, MVFR1_EL1, MVFR2_EL1, ID_AA64PFR0_EL1,
     ID_AA64PFR1_EL1, ID_AA64DFR0_EL1, ID_AA64DFR1_EL1, ID_AA64ISAR0_EL1, ID_AA64ISAR1_EL1,
     ID_AA64MMFR0_EL1, ID_AA64MMFR1_EL1, ID_AA64AFR0_EL1, ID_AA64AFR1_EL1, CTR_EL0, CCSIDR_EL1, CLIDR_EL1,
     CSSELR_EL1, AIDR_EL1, REVIDR_EL1, CNTKCTL_EL1, CNTP_CTL_EL0, CNTP_CVAL_EL0, CNTP_TVAL_EL0,
     CNTV_CTL_EL0, CNTV_CVAL_EL0, CNTV_TVAL_EL0]"

text \<open>Stores and loads of consecutive words from an address on.\<close>

fun store_regs :: "sysreg list \<Rightarrow> u64 \<Rightarrow> sysregs \<Rightarrow> words \<Rightarrow> words" where
  "store_regs [] x0 hw m = m"
| "store_regs (r # rs) x0 hw m = store_regs rs (x0 + 8) hw (m(x0 := hw r))"

fun load_regs :: "sysreg list \<Rightarrow> u64 \<Rightarrow> words \<Rightarrow> sysregs \<Rightarrow> sysregs" where
  "load_regs [] x0 m hw = hw"
| "load_regs (r # rs) x0 m hw = load_regs rs (x0 + 8) m (hw(r := m x0))"

definition asm_save_sysregs :: "u64 \<Rightarrow> sysregs \<Rightarrow> words \<Rightarrow> words" where
  "asm_save_sysregs = store_regs save_order"

definition asm_restore_sysregs :: "u64 \<Rightarrow> words \<Rightarrow> sysregs \<Rightarrow> sysregs" where
  "asm_restore_sysregs = load_regs restore_order"

definition get_all_sysregs :: "u64 \<Rightarrow> sysregs \<Rightarrow> words \<Rightarrow> words" where
  "get_all_sysregs = store_regs get_all_order"

definition set_stage2_pgd :: "u64 \<Rightarrow> u64 \<Rightarrow> u64" where
  "set_stage2_pgd x0 x1 = (let x1 = x1 AND 0xff; x1 = push_bit 48 x1 in x0 OR x1)"

text \<open>The address of a member, and the two records of \<open>Vcpu\<close> read from memory and from a core.\<close>

definition member :: "u64 \<Rightarrow> sysreg \<Rightarrow> u64" where
  "member p r = p + 8 * of_nat (length (takeWhile (\<lambda>x. x \<noteq> r) cpu_sysregs_members))"

definition sysregs_at :: "words \<Rightarrow> u64 \<Rightarrow> cpu_sysregs_t" where
  "sysregs_at m p =
    \<lparr>sctlr_el1 = m (member p SCTLR_EL1), ttbr0_el1 = m (member p TTBR0_EL1),
     ttbr1_el1 = m (member p TTBR1_EL1), tcr_el1 = m (member p TCR_EL1), esr_el1 = m (member p ESR_EL1),
     far_el1 = m (member p FAR_EL1), afsr0_el1 = m (member p AFSR0_EL1),
     afsr1_el1 = m (member p AFSR1_EL1), mair_el1 = m (member p MAIR_EL1),
     amair_el1 = m (member p AMAIR_EL1), contextidr_el1 = m (member p CONTEXTIDR_EL1),
     cpacr_el1 = m (member p CPACR_EL1), elr_el1 = m (member p ELR_EL1), fpcr = m (member p FPCR),
     fpsr = m (member p FPSR), midr_el1 = m (member p MIDR_EL1), mpidr_el1 = m (member p MPIDR_EL1),
     par_el1 = m (member p PAR_EL1), sp_el0 = m (member p SP_EL0), sp_el1 = m (member p SP_EL1),
     spsr_el1 = m (member p SPSR_EL1), tpidr_el0 = m (member p TPIDR_EL0),
     tpidr_el1 = m (member p TPIDR_EL1), tpidrro_el0 = m (member p TPIDRRO_EL0),
     vbar_el1 = m (member p VBAR_EL1)\<rparr>"

definition core_of :: "sysregs \<Rightarrow> core_regs" where
  "core_of hw =
    \<lparr>sctlr_el1 = hw SCTLR_EL1, ttbr0_el1 = hw TTBR0_EL1, ttbr1_el1 = hw TTBR1_EL1, tcr_el1 = hw TCR_EL1,
     esr_el1 = hw ESR_EL1, far_el1 = hw FAR_EL1, afsr0_el1 = hw AFSR0_EL1, afsr1_el1 = hw AFSR1_EL1,
     mair_el1 = hw MAIR_EL1, amair_el1 = hw AMAIR_EL1, contextidr_el1 = hw CONTEXTIDR_EL1,
     cpacr_el1 = hw CPACR_EL1, elr_el1 = hw ELR_EL1, fpcr = hw FPCR, fpsr = hw FPSR,
     midr_el1 = hw MIDR_EL1, mpidr_el1 = hw MPIDR_EL1, par_el1 = hw PAR_EL1, sp_el0 = hw SP_EL0,
     sp_el1 = hw SP_EL1, spsr_el1 = hw SPSR_EL1, tpidr_el0 = hw TPIDR_EL0, tpidr_el1 = hw TPIDR_EL1,
     tpidrro_el0 = hw TPIDRRO_EL0, vbar_el1 = hw VBAR_EL1, vpidr_el2 = hw VPIDR_EL2,
     vmpidr_el2 = hw VMPIDR_EL2\<rparr>"

text \<open>The saved identity of the core is restored to the registers that shadow it.\<close>

fun shadow :: "sysreg \<Rightarrow> sysreg" where
  "shadow MIDR_EL1 = VPIDR_EL2"
| "shadow MPIDR_EL1 = VMPIDR_EL2"
| "shadow r = r"

lemma orders:
  "cpu_sysregs_members = save_order @ drop 25 get_all_order" "get_all_order = cpu_sysregs_members"
  "restore_order = map shadow save_order"
  by (simp_all add: cpu_sysregs_members_def save_order_def get_all_order_def restore_order_def)

subsection \<open>Consecutive words\<close>

lemma store_regs_out:
  "(\<And>i. i < length rs \<Longrightarrow> b \<noteq> a + 8 * of_nat i) \<Longrightarrow> store_regs rs a hw m b = m b"
proof (induction rs arbitrary: a m)
  case (Cons r rs)
  have "b \<noteq> (a + 8) + 8 * of_nat i" if "i < length rs" for i
    using Cons.prems [of "Suc i"] that by (simp add: algebra_simps)
  moreover have "b \<noteq> a" using Cons.prems [of 0] by simp
  ultimately show ?case using Cons.IH by simp
qed simp

lemma word_index_inj:
  assumes "8 * of_nat i = (8 * of_nat j :: u64)" "i < 2 ^ 32" "j < 2 ^ 32"
  shows "i = j"
proof -
  have "unat (of_nat (8 * k) :: u64) = 8 * k" if "k < 2 ^ 32" for k
    using that by (intro of_nat_inverse) simp_all
  with assms have "8 * i = 8 * j" by (metis of_nat_mult of_nat_numeral)
  then show ?thesis by simp
qed

lemma store_regs_nth:
  "i < length rs \<Longrightarrow> length rs < 2 ^ 32 \<Longrightarrow> store_regs rs a hw m (a + 8 * of_nat i) = hw (rs ! i)"
proof (induction rs arbitrary: a m i)
  case (Cons r rs)
  show ?case
  proof (cases i)
    case 0
    have "store_regs rs (a + 8) hw (m(a := hw r)) a = (m(a := hw r)) a"
    proof (rule store_regs_out)
      fix j assume "j < length rs"
      with Cons.prems(2) word_index_inj [of 0 "Suc j"] show "a \<noteq> a + 8 + 8 * of_nat j"
        by (auto simp: algebra_simps)
    qed
    with 0 show ?thesis by simp
  next
    case (Suc j)
    then have e: "a + 8 * of_nat i = (a + 8) + 8 * of_nat j" by (simp add: algebra_simps)
    from Suc Cons.prems have "store_regs rs (a + 8) hw (m(a := hw r)) ((a + 8) + 8 * of_nat j) = hw (rs ! j)"
      by (intro Cons.IH) simp_all
    then show ?thesis unfolding e using Suc by simp
  qed
qed simp

lemma load_regs_out: "r \<notin> set rs \<Longrightarrow> load_regs rs a m hw r = hw r"
  by (induction rs arbitrary: a hw) auto

lemma load_regs_nth: "distinct rs \<Longrightarrow> i < length rs \<Longrightarrow> load_regs rs a m hw (rs ! i) = m (a + 8 * of_nat i)"
proof (induction rs arbitrary: a hw i)
  case (Cons r rs)
  then show ?case by (cases i) (auto simp: load_regs_out algebra_simps)
qed simp

lemma distinct_orders: "distinct cpu_sysregs_members" "distinct save_order" "distinct restore_order"
  by (simp_all add: cpu_sysregs_members_def save_order_def restore_order_def)

lemma takeWhile_index: "distinct xs \<Longrightarrow> i < length xs \<Longrightarrow> length (takeWhile (\<lambda>x. x \<noteq> xs ! i) xs) = i"
proof (induction xs arbitrary: i)
  case (Cons x xs)
  then show ?case by (cases i) auto
qed simp

lemma member_nth: "i < length cpu_sysregs_members \<Longrightarrow> member p (cpu_sysregs_members ! i) = p + 8 * of_nat i"
  by (simp add: member_def takeWhile_index distinct_orders)

subsection \<open>The routines\<close>

lemma order_lengths:
  "length save_order = 25" "length get_all_order = 64" "length cpu_sysregs_members = 64"
  "length restore_order = 25"
  by (simp_all add: save_order_def get_all_order_def cpu_sysregs_members_def restore_order_def)

lemma save_order_nth: "i < 25 \<Longrightarrow> cpu_sysregs_members ! i = save_order ! i"
  by (subst orders(1)) (simp add: nth_append order_lengths)

lemma saved_member:
  assumes "r \<in> set save_order"
  shows "asm_save_sysregs p hw m (member p r) = hw r"
proof -
  obtain i where i: "i < 25" "r = save_order ! i" using assms by (auto simp: in_set_conv_nth order_lengths)
  then have "member p r = p + 8 * of_nat i"
    using member_nth [of i p] by (simp add: save_order_nth order_lengths)
  with i show ?thesis by (simp add: asm_save_sysregs_def store_regs_nth order_lengths)
qed

lemma restored_member:
  assumes "r \<in> set save_order"
  shows "asm_restore_sysregs p m hw (shadow r) = m (member p r)"
proof -
  obtain i where i: "i < 25" "r = save_order ! i" using assms by (auto simp: in_set_conv_nth order_lengths)
  then have "member p r = p + 8 * of_nat i" "shadow r = restore_order ! i"
    using member_nth [of i p] by (simp_all add: save_order_nth order_lengths orders(3))
  moreover have "load_regs restore_order p m hw (restore_order ! i) = m (p + 8 * of_nat i)"
    using i by (intro load_regs_nth distinct_orders) (simp add: order_lengths)
  ultimately show ?thesis by (simp add: asm_restore_sysregs_def)
qed

lemma got_member:
  assumes "r \<in> set cpu_sysregs_members"
  shows "get_all_sysregs p hw m (member p r) = hw r"
proof -
  obtain i where i: "i < 64" "r = cpu_sysregs_members ! i" using assms by (auto simp: in_set_conv_nth order_lengths)
  then have "member p r = p + 8 * of_nat i" using member_nth [of i p] by (simp add: order_lengths)
  with i show ?thesis
    by (simp add: get_all_sysregs_def orders(2) store_regs_nth order_lengths)
qed

text \<open>The registers that neither of the two transfers write keep their value.\<close>

lemma restored_identity:
  "asm_restore_sysregs p m hw MIDR_EL1 = hw MIDR_EL1" "asm_restore_sysregs p m hw MPIDR_EL1 = hw MPIDR_EL1"
  by (simp_all add: asm_restore_sysregs_def load_regs_out restore_order_def)

lemma in_save_order:
  "SCTLR_EL1 \<in> set save_order" "TTBR0_EL1 \<in> set save_order" "TTBR1_EL1 \<in> set save_order"
  "TCR_EL1 \<in> set save_order" "ESR_EL1 \<in> set save_order" "FAR_EL1 \<in> set save_order"
  "AFSR0_EL1 \<in> set save_order" "AFSR1_EL1 \<in> set save_order" "MAIR_EL1 \<in> set save_order"
  "AMAIR_EL1 \<in> set save_order" "CONTEXTIDR_EL1 \<in> set save_order" "CPACR_EL1 \<in> set save_order"
  "ELR_EL1 \<in> set save_order" "FPCR \<in> set save_order" "FPSR \<in> set save_order"
  "MIDR_EL1 \<in> set save_order" "MPIDR_EL1 \<in> set save_order" "PAR_EL1 \<in> set save_order"
  "SP_EL0 \<in> set save_order" "SP_EL1 \<in> set save_order" "SPSR_EL1 \<in> set save_order"
  "TPIDR_EL0 \<in> set save_order" "TPIDR_EL1 \<in> set save_order" "TPIDRRO_EL0 \<in> set save_order"
  "VBAR_EL1 \<in> set save_order"
  by (simp_all add: save_order_def)

lemmas restored_members = in_save_order [THEN restored_member, unfolded shadow.simps]

lemma asm_save_refines: "sysregs_at (asm_save_sysregs p hw m) p = save_sysregs (core_of hw)"
  by (simp add: sysregs_at_def save_sysregs_def core_of_def saved_member in_save_order)

lemma asm_restore_refines:
  "core_of (asm_restore_sysregs p m hw) = restore_sysregs (sysregs_at m p) (core_of hw)"
  by (simp add: sysregs_at_def restore_sysregs_def core_of_def restored_members restored_identity)

text \<open>
  C6. The routines that save and restore the system registers of a virtual CPU transfer each register
  to and from its own member of \<^verbatim>\<open>cpu_sysregs_t\<close>: on memory they do what the record functions of \<open>Vcpu\<close>
  do, \<^verbatim>\<open>get_all_sysregs\<close> fills every member with its register, and the two routines that store change no
  word beyond the members they store (twenty-five and all sixty-four).
\<close>

theorem sysregs_routines:
  "sysregs_at (asm_save_sysregs p hw m) p = save_sysregs (core_of hw)
   \<and> core_of (asm_restore_sysregs p m hw) = restore_sysregs (sysregs_at m p) (core_of hw)
   \<and> map (\<lambda>r. get_all_sysregs p hw m (member p r)) cpu_sysregs_members = map hw cpu_sysregs_members
   \<and> (\<forall>b. b \<notin> member p ` set save_order \<longrightarrow> asm_save_sysregs p hw m b = m b)
   \<and> (\<forall>b. b \<notin> member p ` set cpu_sysregs_members \<longrightarrow> get_all_sysregs p hw m b = m b)"
proof -
  have "asm_save_sysregs p hw m b = m b" if "b \<notin> member p ` set save_order" for b
    unfolding asm_save_sysregs_def
  proof (rule store_regs_out)
    fix i assume "i < length save_order"
    then have "save_order ! i \<in> set save_order" "member p (save_order ! i) = p + 8 * of_nat i"
      using member_nth [of i p] by (simp_all add: order_lengths save_order_nth)
    with that show "b \<noteq> p + 8 * of_nat i" by (metis imageI)
  qed
  moreover have "get_all_sysregs p hw m b = m b" if "b \<notin> member p ` set cpu_sysregs_members" for b
    unfolding get_all_sysregs_def orders(2)
    using that member_nth by (intro store_regs_out) (metis imageI nth_mem)
  ultimately show ?thesis
    using asm_save_refines asm_restore_refines got_member by simp
qed

text \<open>A structure at address 4096 of a core whose registers are all seven.\<close>

theorem sysregs_routines_witness:
  "asm_save_sysregs 4096 (\<lambda>_. 7) (\<lambda>_. 0) 8192 = 0
   \<and> sysregs_at (asm_save_sysregs 4096 (\<lambda>_. 7) (\<lambda>_. 0)) 4096 = save_sysregs (core_of (\<lambda>_. 7))"
proof -
  have "(8192 :: u64) \<notin> member 4096 ` set save_order"
    by (simp add: save_order_def member_def cpu_sysregs_members_def)
  then show ?thesis using sysregs_routines [of 4096 "\<lambda>_. 7" "\<lambda>_. 0"] by blast
qed


end
