(* ===== verification/Switch.thy ===== *)
theory Switch
  imports Sysregs
begin

text \<open>
  \<^verbatim>\<open>switch_context\<close> of \<^verbatim>\<open>schedule/context.S\<close>, instruction by instruction on memory: the voluntary switch
  that \<^verbatim>\<open>schedule\<close> makes (the timer's switch replaces a trap frame instead). The routine saves and loads
  fourteen words at the two task control blocks it is given. Shown here: it is a correct switch between
  areas of fourteen words that lie apart, and the blocks of \<^verbatim>\<open>task_list\<close>, of six words each, are not.
\<close>

subsection \<open>Model\<close>

text \<open>The registers of a core that the routine reads or writes.\<close>

record core =
  xreg :: "nat \<Rightarrow> u64"
  stack_pointer :: u64
  thread_id :: u64
  program_counter :: u64
  irq_masked :: bool

definition stp :: "nat \<Rightarrow> nat \<Rightarrow> u64 \<Rightarrow> core \<times> words \<Rightarrow> core \<times> words" where
  "stp r q a = (\<lambda>(c, m). (c, m(a := xreg c r, a + 8 := xreg c q)))"

definition ldp :: "nat \<Rightarrow> nat \<Rightarrow> u64 \<Rightarrow> core \<times> words \<Rightarrow> core \<times> words" where
  "ldp r q a = (\<lambda>(c, m). (c\<lparr>xreg := (xreg c)(r := m a, q := m (a + 8))\<rparr>, m))"

definition on_core :: "(core \<Rightarrow> core) \<Rightarrow> core \<times> words \<Rightarrow> core \<times> words" where
  "on_core f = (\<lambda>(c, m). (f c, m))"

definition switch_save :: "u64 \<Rightarrow> core \<times> words \<Rightarrow> core \<times> words" where
  "switch_save x0 s =
     (let s = stp 19 20 (x0 + 16 * 0) s;
          s = stp 21 22 (x0 + 16 * 1) s;
          s = stp 23 24 (x0 + 16 * 2) s;
          s = stp 25 26 (x0 + 16 * 3) s;
          s = stp 27 28 (x0 + 16 * 4) s;
          s = stp 29 30 (x0 + 16 * 5) s;
          s = on_core (\<lambda>c. c\<lparr>xreg := (xreg c)(19 := thread_id c)\<rparr>) s;
          s = on_core (\<lambda>c. c\<lparr>xreg := (xreg c)(20 := stack_pointer c)\<rparr>) s
      in stp 19 20 (x0 + 16 * 6) s)"

definition switch_load :: "u64 \<Rightarrow> core \<times> words \<Rightarrow> core \<times> words" where
  "switch_load x1 s =
     (let s = ldp 23 24 (x1 + 16 * 6) s;
          s = on_core (\<lambda>c. c\<lparr>thread_id := xreg c 23\<rparr>) s;
          s = on_core (\<lambda>c. c\<lparr>stack_pointer := xreg c 24\<rparr>) s;
          s = ldp 19 20 (x1 + 16 * 0) s;
          s = ldp 21 22 (x1 + 16 * 1) s;
          s = ldp 23 24 (x1 + 16 * 2) s;
          s = ldp 25 26 (x1 + 16 * 3) s;
          s = ldp 27 28 (x1 + 16 * 4) s;
          s = ldp 29 30 (x1 + 16 * 5) s;
          s = on_core (\<lambda>c. c\<lparr>irq_masked := False\<rparr>) s
      in on_core (\<lambda>c. c\<lparr>program_counter := xreg c 30\<rparr>) s)"

definition switch_context :: "u64 \<Rightarrow> u64 \<Rightarrow> core \<times> words \<Rightarrow> core \<times> words" where
  "switch_context x0 x1 s = switch_load x1 (switch_save x0 s)"

text \<open>The address of a task control block in \<^verbatim>\<open>task_list\<close>: the packed structure has 48 bytes.\<close>

definition tcb_addr :: "u64 \<Rightarrow> nat \<Rightarrow> u64" where
  "tcb_addr base i = base + 48 * of_nat i"

subsection \<open>What is saved and loaded\<close>

text \<open>The callee-saved registers, the thread identifier and the stack pointer, as the area holds them.\<close>

definition ctx_regs :: "core \<Rightarrow> u64 list" where
  "ctx_regs c = map (xreg c) [19..<31] @ [thread_id c, stack_pointer c]"

definition ctx_at :: "words \<Rightarrow> u64 \<Rightarrow> u64 list" where
  "ctx_at m a = map (\<lambda>i. m (a + 8 * of_nat i)) [0..<14]"

definition ctx_area :: "u64 \<Rightarrow> u64 set" where
  "ctx_area a = (\<lambda>i. a + 8 * of_nat i) ` {..<14}"

lemma ctx_lists:
  "ctx_regs c = [xreg c 19, xreg c 20, xreg c 21, xreg c 22, xreg c 23, xreg c 24, xreg c 25, xreg c 26,
     xreg c 27, xreg c 28, xreg c 29, xreg c 30, thread_id c, stack_pointer c]"
  "ctx_at m a = [m a, m (a + 8), m (a + 16), m (a + 24), m (a + 32), m (a + 40), m (a + 48), m (a + 56),
     m (a + 64), m (a + 72), m (a + 80), m (a + 88), m (a + 96), m (a + 104)]"
  "ctx_area a = {a, a + 8, a + 16, a + 24, a + 32, a + 40, a + 48, a + 56, a + 64, a + 72, a + 80, a + 88, a + 96, a + 104}"
  by (simp_all add: ctx_regs_def ctx_at_def ctx_area_def upt_rec lessThan_Suc_eq_insert_0 numeral_eq_Suc lessThan_Suc insert_commute)

lemma switch_save_at:
  "ctx_at (snd (switch_save a (c, m))) a = ctx_regs c"
  "b \<notin> ctx_area a \<Longrightarrow> snd (switch_save a (c, m)) b = m b"
  by (simp_all add: ctx_lists switch_save_def stp_def on_core_def add.commute [of _ a])

lemma switch_load_at:
  "ctx_regs (fst (switch_load a s)) = ctx_at (snd s) a" "snd (switch_load a s) = snd s"
  "program_counter (fst (switch_load a s)) = ctx_at (snd s) a ! 11" "\<not> irq_masked (fst (switch_load a s))"
  by (cases s; simp add: ctx_lists switch_load_def ldp_def on_core_def add.commute [of _ a])+

lemma ctx_at_cong: "(\<And>x. x \<in> ctx_area a \<Longrightarrow> m x = m' x) \<Longrightarrow> ctx_at m a = ctx_at m' a"
  by (simp add: ctx_at_def ctx_area_def)

text \<open>
  Between areas of fourteen words that lie apart, the routine loads what the new area holds and saves
  the registers in the old one; a later switch back, from any state in which the old area is unchanged,
  returns to the saved address with the registers as they were.
\<close>

theorem switch_context_roundtrip:
  assumes "ctx_area a \<inter> ctx_area b = {}" "\<forall>x \<in> ctx_area a. m2 x = snd (switch_context a b (c, m)) x"
  shows "ctx_regs (fst (switch_context a b (c, m))) = ctx_at m b"
    and "ctx_regs (fst (switch_context b a (c2, m2))) = ctx_regs c"
    and "program_counter (fst (switch_context b a (c2, m2))) = xreg c 30"
proof -
  have "ctx_at (snd (switch_save a (c, m))) b = ctx_at m b"
    using assms(1) by (intro ctx_at_cong switch_save_at(2)) auto
  then show "ctx_regs (fst (switch_context a b (c, m))) = ctx_at m b"
    by (simp add: switch_context_def switch_load_at)
  have "ctx_at (snd (switch_save b (c2, m2))) a = ctx_at m2 a"
    using assms(1) by (intro ctx_at_cong switch_save_at(2)) auto
  also have "\<dots> = ctx_at (snd (switch_save a (c, m))) a"
    using assms(2) by (intro ctx_at_cong) (simp add: switch_context_def switch_load_at)
  finally have kept: "ctx_at (snd (switch_save b (c2, m2))) a = ctx_regs c" by (simp add: switch_save_at)
  then show "ctx_regs (fst (switch_context b a (c2, m2))) = ctx_regs c"
    by (simp add: switch_context_def switch_load_at)
  from kept show "program_counter (fst (switch_context b a (c2, m2))) = xreg c 30"
    by (simp add: switch_context_def switch_load_at(3)) (simp add: ctx_lists)
qed

text \<open>
  The blocks of \<^verbatim>\<open>task_list\<close> do not lie apart. A switch from a task to its successor in the table loads
  registers of the old task into the new one (x19 to x26 get the old x25 to x30, thread identifier and
  stack pointer), and overwrites the pointers \<^verbatim>\<open>cpu_info\<close> at the start of three blocks.
\<close>

theorem switch_context_overlap:
  fixes base :: u64
  defines "t \<equiv> tcb_addr base"
  shows "take 8 (ctx_regs (fst (switch_context (t i) (t (Suc i)) (c, m)))) = drop 6 (ctx_regs c)"
    and "snd (switch_context (t i) x (c, m)) (t i) = xreg c 19"
    and "snd (switch_context (t i) x (c, m)) (t (Suc i)) = xreg c 25"
    and "snd (switch_context (t i) x (c, m)) (t (Suc (Suc i))) = thread_id c"
proof -
  let ?m = "snd (switch_save (t i) (c, m))"
  have succ: "t (Suc i) = t i + 48" "t (Suc (Suc i)) = t i + 96"
    by (simp_all add: t_def tcb_addr_def algebra_simps)
  have saved: "ctx_at ?m (t i) = ctx_regs c" by (rule switch_save_at)
  then show "take 8 (ctx_regs (fst (switch_context (t i) (t (Suc i)) (c, m)))) = drop 6 (ctx_regs c)"
    by (simp add: switch_context_def switch_load_at succ) (simp add: ctx_lists add.assoc)
  show "snd (switch_context (t i) x (c, m)) (t i) = xreg c 19"
    "snd (switch_context (t i) x (c, m)) (t (Suc i)) = xreg c 25"
    "snd (switch_context (t i) x (c, m)) (t (Suc (Suc i))) = thread_id c"
    using saved by (simp_all add: switch_context_def switch_load_at succ) (simp_all add: ctx_lists)
qed


end
