(* ===== verification/Spec2Isabelle.thy ===== *)
theory Spec2Isabelle
  imports Bitmap Kstring Klist Kqueue Task Ept Exception Spinlock Page Boot Hyper Kernel Dw8250 Rbclient App Switch
    Tasklist
begin

text \<open>
  A verification development for the dmos kernel and hypervisor: a small AArch64 kernel for the
  QEMU \<^verbatim>\<open>virt\<close> machine that runs user tasks on several cores or, built with \<^verbatim>\<open>HV=y\<close>, virtual machines.

  \<^bold>\<open>The program and how its parts interact.\<close> An exception vector saves a trap frame and enters a
  handler (\<^verbatim>\<open>exception/\<close>). The interrupt handler stores the frame in the current task, asks the
  interrupt controller (\<^verbatim>\<open>exception/gic/gic.c\<close>) for the interrupt and calls the handler installed for
  it: the timer (\<^verbatim>\<open>timer/timer.c\<close>), which lets the scheduler (\<^verbatim>\<open>schedule/task.c\<close>) replace the frame by
  that of another task, the serial port (\<^verbatim>\<open>io/\<close>), or, under the hypervisor, the injection of a virtual
  interrupt (\<^verbatim>\<open>hyper/vgic.c\<close>, \<^verbatim>\<open>hyper/vm.c\<close>). A data abort of a guest reaches the emulation of the
  interrupt controller through the stage-2 tables (\<^verbatim>\<open>mem/ept.c\<close>). The start (\<^verbatim>\<open>main.c\<close>, \<^verbatim>\<open>smp.c\<close>,
  \<^verbatim>\<open>main_hyper.c\<close>) puts these parts together on every core. Beside them stand the kernel's own page
  tables and cache maintenance (\<^verbatim>\<open>mem/page.c\<close>), a page bitmap, the string library, formatted output, the
  spin lock and the containers of \<^verbatim>\<open>lib/\<close>.

  \<^bold>\<open>Theories.\<close>
  \<^item> \<open>Prelude\<close>: word types, byte memory, the collections \<open>loop_word\<close> and \<open>frame_simps\<close>, shared lemmas.
  \<^item> \<open>Mmio\<close> (\<^verbatim>\<open>include/io.h\<close>): device accesses. A device is any function from the history of accesses to
    the next answer; a driver returns the extended history. The locale \<open>polling\<close> describes loops that
    wait for a device.
  \<^item> \<open>Bitmap\<close> (\<^verbatim>\<open>mem/bitmap.c\<close>): all operations on byte memory; setting and clearing refine set
    operations, the two searches return the least answer, allocation hands out distinct pages.
  \<^item> \<open>Kstring\<close> (\<^verbatim>\<open>mem/string.c\<close>): all functions with wrapping 64-bit addresses; loops that need a
    terminator are partial functions and proved to return.
  \<^item> \<open>Links\<close>, \<open>Klist\<close>, \<open>Kqueue\<close> (\<^verbatim>\<open>lib/list.c\<close>, \<^verbatim>\<open>lib/queue.c\<close>): a heap of nodes with null as a fault, doubly
    linked segments as a locale shared by both containers, the containers as refinements of lists.
  \<^item> \<open>Trap\<close>, \<open>Vcpu\<close> (\<^verbatim>\<open>include/exception.h\<close>, \<^verbatim>\<open>hyper/vcpu.c\<close>): trap frames, syndrome fields, system registers.
  \<^item> \<open>Sysregs\<close> (\<^verbatim>\<open>hyper/hyper_ctx.S\<close>): the routines that move system registers to and from memory, as
    refinements of the record functions of \<open>Vcpu\<close>.
  \<^item> \<open>Switch\<close> (\<^verbatim>\<open>schedule/context.S\<close>): the voluntary switch, correct between areas that lie apart, and what
    it does to the blocks of the task table, which do not.
  \<^item> \<open>Task\<close> (\<^verbatim>\<open>schedule/task.c\<close>): tasks, time slices, context save and switch; the step relation
    \<open>sched_step\<close> and its invariant \<open>sched_inv\<close>.
  \<^item> \<open>Gic\<close>, \<open>Vgic\<close>: the interrupt controller driver, its emulation and the list registers.
  \<^item> \<open>Cache\<close> (\<^verbatim>\<open>include/mem/page.h\<close>, \<^verbatim>\<open>apply_ept\<close> of \<^verbatim>\<open>mem/ept.c\<close>): cleaning the data cache by range, as the list of
    operations issued; when it returns, and which lines it reaches.
  \<^item> \<open>Ept\<close> (\<^verbatim>\<open>mem/ept.c\<close>): the stage-2 tables as a memory of words, with the cleaning of each table, the walk of
    the architecture as the specification, trapped pages and data aborts.
  \<^item> \<open>Ram\<close>: the same memory as bytes and as words, for the start of the hypervisor.
  \<^item> \<open>Page\<close> (\<^verbatim>\<open>mem/page.c\<close>): the kernel's tables against the stage-1 walk.
  \<^item> \<open>Uart\<close>, \<open>Dw8250\<close> (\<^verbatim>\<open>io/uart_*.c\<close>): the polled and the interrupt-driven driver with its rings as queues,
    and the DesignWare driver.
  \<^item> \<open>Printf\<close>, \<open>Console\<close> (\<^verbatim>\<open>io/printf.c\<close>, \<^verbatim>\<open>io/io.c\<close>): formatted output against a functional specification of
    its expansion, and the console over either driver; the record \<open>system\<close> of the whole state. The
    locale \<open>char_sink\<close> is the interface between the two.
  \<^item> \<open>Tasklist\<close> (\<^verbatim>\<open>print_current_task_list\<close>): the report of the task table on the console.
  \<^item> \<open>Exception\<close> (\<^verbatim>\<open>exception/*.c\<close>, \<^verbatim>\<open>timer/timer.c\<close>, \<^verbatim>\<open>syscall/syscall.c\<close>, \<^verbatim>\<open>hyper/vm.c\<close>): the handlers; faults
    (null pointers, accesses outside a table, endless loops) are values of the type \<open>fault\<close>. The call \<^verbatim>\<open>sys_debug\<close>
    prints through \<^verbatim>\<open>printf\<close> on the memory \<open>kmem\<close> of the record \<open>system\<close>.
  \<^item> \<open>App\<close> (\<^verbatim>\<open>app/shell/main.c\<close>): the shell as a client of the system calls, down to the serial driver.
  \<^item> \<open>Spinlock\<close> (\<^verbatim>\<open>spinlock/spinlock.S\<close>): the lock instruction by instruction with exclusive monitors.
  \<^item> \<open>Boot\<close> (\<^verbatim>\<open>main.c\<close>, \<^verbatim>\<open>smp.c\<close>): the start of all cores as the step relation \<open>boot_step\<close>, which contains the
    steps of the spin lock and of the scheduler.
  \<^item> \<open>Hyper\<close>, \<open>Kernel\<close> (\<^verbatim>\<open>main_hyper.c\<close>, \<^verbatim>\<open>main.c\<close>): the two starts as compositions of all initialisations. In
    \<open>Hyper\<close> the images, the stage-2 tables, the word stored for the test and the report of the tasks share one memory.
  \<^item> \<open>Rbtree\<close> (\<^verbatim>\<open>lib/rbtree.c\<close>): the red-black trees over a shared pool of nodes, each member of a node a
    map from addresses. \<open>Rbspec\<close> states the same algorithm on tree values and paths, with its balance
    and order; \<open>Rbheap\<close> shows that each rotation, each repair step and each loop on the nodes computes
    it; \<open>Rbstore\<close> lifts this to the pool with its queue of freed nodes; \<open>Rbclient\<close> has the locale
    \<open>keyed_store\<close> of what a caller relies on, interpreted by a tree of the pool.

  \<^bold>\<open>What is shown.\<close> Scheduling: no two cores run one task, round robin, fairness on one core, exact
  slices, a preempted task resumes with its saved frame on any core, a virtual machine with its system
  registers, which the assembly routines move to the members that the structure declares. Start: the
  barrier holds all cores back until every block is initialised, and the scheduler's exclusion holds
  from the first tick on. Exceptions: preemption by the timer, every case of a guest's access to the processor
  interface, the dispatch of system calls with its errors, and what they print.
  Translation: both sets of tables against the walks. Cache: when the cleaning of a range or of a table returns, and
  what it reaches.
  Output: exact expansion and delivery, of the report of the tasks and of the shell's lines.
  Containers, strings and the bitmap: functional correctness of every operation. Red-black trees:
  insertion, search and deletion refine ordered lists of items, end, and keep the balance; where
  deletion departs from that, with values and with missing keys, is stated exactly.

  \<^bold>\<open>Parameters.\<close> The hardware (\<open>dev\<close>), the number of cores, addresses from the linker, the answer of the
  firmware to \<^verbatim>\<open>CPU_ON\<close>, the address translation instruction, the size of a cache line, and the value of \<^verbatim>\<open>PXN\<close>,
  \<^verbatim>\<open>1 << 53\<close> on \<^verbatim>\<open>int\<close>, which C leaves undefined: the theorem on the kernel's tables covers both the bit and 0; the comparison function of a red-black tree, assumed to be a total preorder of the keys.

  \<^bold>\<open>Loops and bounds.\<close> Counting loops over words are total functions with a measure. Loops that wait for
  a device or run to a terminator are partial functions, \<open>None\<close> when they do not end; there is no fuel.
  Table sizes are those of the source (64 tasks, 512 handlers, 256 system calls, 1024-byte rings).

  \<^bold>\<open>Not modelled.\<close> The assembly entry code: what it leaves to the C code is the initial state of the
  models. \<^verbatim>\<open>process/pro.c\<close> does not compile against its header and is not built. Diagnostic output of the
  handlers and initialisation routines, with the report of the tasks in \<^verbatim>\<open>main_entry\<close>; that of \<^verbatim>\<open>hyper_main\<close> and the output of
  \<^verbatim>\<open>sys_debug\<close> are modelled. Barriers, TLB and cache effects: memory is sequentially consistent, and cache maintenance
  is modelled as the list of operations issued. \<^verbatim>\<open>invalidate_dcache_va_range\<close>, which nothing calls and whose
  instruction \<^verbatim>\<open>dc ivac %0,\<close> does not assemble. Constants of \<^verbatim>\<open>include/sys/sys.h\<close>, \<^verbatim>\<open>include/psci.h\<close> and
  \<^verbatim>\<open>include/gic.h\<close> that no code uses. The test application, guest images and the test functions of
  \<^verbatim>\<open>main.c\<close>.
\<close>

end
